(* ===== verification/Prelude.thy ===== *)
theory Prelude
  imports "HOL-Library.Word"
begin

text \<open>
  Shared vocabulary of the development: the ways a C++ operation of Neo can fail to return
  (an exception raised by \<open>Logger::error\<close>, \<open>std::out_of_range\<close> from \<open>at()\<close>, a failed
  \<open>assert\<close>, undefined behaviour such as a null dereference), the result type that carries
  them, sequencing of such results, and generic lemmas on lists that several components use.
\<close>

section \<open>Errors as values\<close>

datatype exn =
    Runtime_error string  \<comment> \<open>\<open>Logger::error\<close>, with the constant part of its message\<close>
  | Out_of_range          \<comment> \<open>\<open>at()\<close> of a standard container\<close>
  | Assertion_failed      \<comment> \<open>\<open>assert\<close>; every build configuration keeps assertions\<close>
  | Undefined_behaviour   \<comment> \<open>null dereference, signed overflow, invalid iterator\<close>
  | Out_of_fuel           \<comment> \<open>no behaviour of the code: the model ran out of recursion depth\<close>

type_synonym 'a result = "exn + 'a"

definition bindR :: "'a result \<Rightarrow> ('a \<Rightarrow> 'b result) \<Rightarrow> 'b result" where
  "bindR m f = (case m of Inl e \<Rightarrow> Inl e | Inr a \<Rightarrow> f a)"

definition is_ok :: "'a result \<Rightarrow> bool" where
  "is_ok r \<longleftrightarrow> (case r of Inl _ \<Rightarrow> False | Inr _ \<Rightarrow> True)"

definition assertR :: "bool \<Rightarrow> unit result" where
  "assertR b = (if b then Inr () else Inl Assertion_failed)"

fun foldR :: "('a \<Rightarrow> 's \<Rightarrow> 's result) \<Rightarrow> 'a list \<Rightarrow> 's \<Rightarrow> 's result" where
  "foldR f [] s = Inr s"
| "foldR f (x # xs) s = bindR (f x s) (foldR f xs)"

named_theorems result_simps

lemma bindR_Inl [simp, result_simps]: "bindR (Inl e) f = Inl e"
  and bindR_Inr [simp, result_simps]: "bindR (Inr a) f = f a"
  by (simp_all add: bindR_def)

lemma is_ok_Inl [simp, result_simps]: "\<not> is_ok (Inl e)"
  and is_ok_Inr [simp, result_simps]: "is_ok (Inr a)"
  by (simp_all add: is_ok_def)

lemma bindR_eq_Inr_iff: "bindR m f = Inr b \<longleftrightarrow> (\<exists>a. m = Inr a \<and> f a = Inr b)"
  by (cases m) auto

lemma bindR_eq_Inl_iff:
  "bindR m f = Inl e \<longleftrightarrow> m = Inl e \<or> (\<exists>a. m = Inr a \<and> f a = Inl e)"
  by (cases m) auto

lemma is_ok_iff: "is_ok r \<longleftrightarrow> (\<exists>a. r = Inr a)"
  by (cases r) auto

lemma assertR_eq_Inr_iff [simp]: "assertR b = Inr u \<longleftrightarrow> b"
  by (simp add: assertR_def)

lemma assertR_True [simp]: "assertR True = Inr ()"
  and assertR_False [simp]: "assertR False = Inl Assertion_failed"
  by (simp_all add: assertR_def)

lemma bindR_assoc: "bindR (bindR m f) g = bindR m (\<lambda>a. bindR (f a) g)"
  by (cases m) auto

lemma foldR_append: "foldR f (xs @ ys) s = bindR (foldR f xs s) (foldR f ys)"
proof (induction xs arbitrary: s)
  case Nil
  then show ?case by simp
next
  case (Cons x xs)
  then show ?case by (cases "f x s") auto
qed

lemma foldR_invariant:
  assumes "\<And>x s t. x \<in> set xs \<Longrightarrow> I s \<Longrightarrow> f x s = Inr t \<Longrightarrow> I t"
    and "I s" and "foldR f xs s = Inr t"
  shows "I t"
  using assms
proof (induction xs arbitrary: s)
  case Nil
  then show ?case by simp
next
  case (Cons x xs)
  from Cons.prems(3) obtain u where u: "f x s = Inr u" "foldR f xs u = Inr t"
    by (auto simp: bindR_eq_Inr_iff)
  from Cons.prems(1)[OF _ Cons.prems(2) u(1)] have "I u" by simp
  show ?case
    using Cons.IH[OF _ \<open>I u\<close> u(2)] Cons.prems(1) by auto
qed

section \<open>Lists\<close>

lemma takeWhile_eq_filter_sorted:
  assumes "sorted_wrt R xs"
    and "\<And>x y. x \<in> set xs \<Longrightarrow> y \<in> set xs \<Longrightarrow> R x y \<Longrightarrow> P y \<Longrightarrow> P x"
  shows "takeWhile P xs = filter P xs \<and> dropWhile P xs = filter (\<lambda>x. \<not> P x) xs"
  using assms
proof (induction xs)
  case Nil
  then show ?case by simp
next
  case (Cons x xs)
  have "\<not> P x \<Longrightarrow> filter P xs = []" using Cons.prems by (auto simp: filter_empty_conv)
  moreover have "\<not> P x \<Longrightarrow> filter (\<lambda>y. \<not> P y) xs = xs" using Cons.prems by (auto simp: filter_id_conv)
  ultimately show ?case using Cons by (cases "P x") auto
qed

lemma sorted_wrt_filter_mono: "sorted_wrt R xs \<Longrightarrow> sorted_wrt R (filter P xs)"
  by (induction xs) auto

lemma filter_cong_ex: "(\<And>x. x \<in> set xs \<Longrightarrow> P x = Q x) \<Longrightarrow> filter P xs = filter Q xs"
  by (rule filter_cong) auto

end
