(* ===== verification/Protocols.thy ===== *)
theory Protocols
  imports Prelude
begin

text \<open>
  Protocol states (\<open>src/protocols.hpp\<close>): the numbers \<open>PS_*\<close> as 16-bit words and the macros
  over them. A state with the bit \<open>0x800\<close> set holds the flags of a received TCP segment that
  has not been converted yet.
\<close>

section \<open>Protocols and protocol states\<close>

datatype proto = Tcp | Udp | Icmp_echo

type_synonym ps = "16 word"

abbreviation (input) PS_INVALID :: ps where "PS_INVALID \<equiv> 0"
abbreviation (input) PS_TCP_INIT_1 :: ps where "PS_TCP_INIT_1 \<equiv> 1"
abbreviation (input) PS_TCP_INIT_2 :: ps where "PS_TCP_INIT_2 \<equiv> 2"
abbreviation (input) PS_TCP_INIT_3 :: ps where "PS_TCP_INIT_3 \<equiv> 3"
abbreviation (input) PS_TCP_L7_REQ :: ps where "PS_TCP_L7_REQ \<equiv> 4"
abbreviation (input) PS_TCP_L7_REQ_A :: ps where "PS_TCP_L7_REQ_A \<equiv> 5"
abbreviation (input) PS_TCP_L7_REP :: ps where "PS_TCP_L7_REP \<equiv> 6"
abbreviation (input) PS_TCP_L7_REP_A :: ps where "PS_TCP_L7_REP_A \<equiv> 7"
abbreviation (input) PS_TCP_TERM_1 :: ps where "PS_TCP_TERM_1 \<equiv> 8"
abbreviation (input) PS_TCP_TERM_2 :: ps where "PS_TCP_TERM_2 \<equiv> 9"
abbreviation (input) PS_TCP_TERM_3 :: ps where "PS_TCP_TERM_3 \<equiv> 10"
abbreviation (input) PS_UDP_REQ :: ps where "PS_UDP_REQ \<equiv> 11"
abbreviation (input) PS_UDP_REP :: ps where "PS_UDP_REP \<equiv> 12"
abbreviation (input) PS_ICMP_ECHO_REQ :: ps where "PS_ICMP_ECHO_REQ \<equiv> 13"
abbreviation (input) PS_ICMP_ECHO_REP :: ps where "PS_ICMP_ECHO_REP \<equiv> 14"

definition ps_is_request_dir :: "ps \<Rightarrow> bool" where
  "ps_is_request_dir x \<longleftrightarrow> x = PS_TCP_INIT_1 \<or> x = PS_TCP_INIT_3 \<or> x = PS_TCP_L7_REQ
     \<or> x = PS_TCP_L7_REP_A \<or> x = PS_UDP_REQ \<or> x = PS_ICMP_ECHO_REQ"

definition ps_is_reply_dir :: "ps \<Rightarrow> bool" where
  "ps_is_reply_dir x \<longleftrightarrow> x = PS_TCP_INIT_2 \<or> x = PS_TCP_L7_REQ_A \<or> x = PS_TCP_L7_REP
     \<or> x = PS_UDP_REP \<or> x = PS_ICMP_ECHO_REP"

definition ps_is_request :: "ps \<Rightarrow> bool" where
  "ps_is_request x \<longleftrightarrow> x = PS_TCP_L7_REQ \<or> x = PS_UDP_REQ \<or> x = PS_ICMP_ECHO_REQ"

definition ps_is_reply :: "ps \<Rightarrow> bool" where
  "ps_is_reply x \<longleftrightarrow> x = PS_TCP_L7_REP \<or> x = PS_UDP_REP \<or> x = PS_ICMP_ECHO_REP"

definition ps_req_ack_or_rep :: "ps \<Rightarrow> bool" where
  "ps_req_ack_or_rep x \<longleftrightarrow> x = PS_TCP_L7_REQ_A \<or> ps_is_reply x"

definition ps_is_first :: "ps \<Rightarrow> bool" where
  "ps_is_first x \<longleftrightarrow> x = PS_TCP_INIT_1 \<or> x = PS_UDP_REQ \<or> x = PS_ICMP_ECHO_REQ"

definition ps_is_last :: "ps \<Rightarrow> bool" where
  "ps_is_last x \<longleftrightarrow> x = PS_TCP_TERM_3 \<or> x = PS_UDP_REP \<or> x = PS_ICMP_ECHO_REP"

definition ps_unconverted :: "ps \<Rightarrow> bool" where
  "ps_unconverted x \<longleftrightarrow> and x 0x800 \<noteq> 0"

definition ps_is_tcp :: "ps \<Rightarrow> bool" where
  "ps_is_tcp x \<longleftrightarrow> PS_TCP_INIT_1 \<le> x \<and> x \<le> PS_TCP_TERM_3 \<or> ps_unconverted x"

definition ps_is_udp :: "ps \<Rightarrow> bool" where
  "ps_is_udp x \<longleftrightarrow> PS_UDP_REQ \<le> x \<and> x \<le> PS_UDP_REP"

definition ps_is_icmp_echo :: "ps \<Rightarrow> bool" where
  "ps_is_icmp_echo x \<longleftrightarrow> PS_ICMP_ECHO_REQ \<le> x \<and> x \<le> PS_ICMP_ECHO_REP"

definition ps_has_syn :: "ps \<Rightarrow> bool" where
  "ps_has_syn x \<longleftrightarrow> x = PS_TCP_INIT_1 \<or> x = PS_TCP_INIT_2"

definition ps_has_fin :: "ps \<Rightarrow> bool" where
  "ps_has_fin x \<longleftrightarrow> x = PS_TCP_TERM_1 \<or> x = PS_TCP_TERM_2"

definition ps_same_proto :: "ps \<Rightarrow> ps \<Rightarrow> bool" where
  "ps_same_proto x y \<longleftrightarrow> ps_is_tcp x \<and> ps_is_tcp y \<or> ps_is_udp x \<and> ps_is_udp y
     \<or> ps_is_icmp_echo x \<and> ps_is_icmp_echo y"

text \<open>The operands of the addition are promoted to \<open>int\<close>.\<close>

definition ps_is_next :: "ps \<Rightarrow> ps \<Rightarrow> bool" where
  "ps_is_next x y \<longleftrightarrow> uint x = uint y + 1 \<and> ps_same_proto x y"

definition ps_last_proto_state :: "ps \<Rightarrow> ps" where
  "ps_last_proto_state x =
     (if ps_is_tcp x then PS_TCP_TERM_3 else if ps_is_udp x then PS_UDP_REP else PS_ICMP_ECHO_REP)"

definition ps_to_proto :: "ps \<Rightarrow> proto" where
  "ps_to_proto x = (if ps_is_tcp x then Tcp else if ps_is_udp x then Udp else Icmp_echo)"

definition proto_str :: "proto \<Rightarrow> string" where
  "proto_str p = (case p of Tcp \<Rightarrow> ''TCP'' | Udp \<Rightarrow> ''UDP'' | Icmp_echo \<Rightarrow> ''ICMP'')"

definition ps_str :: "ps \<Rightarrow> string" where
  "ps_str x = (if ps_is_tcp x then ''TCP'' else if ps_is_udp x then ''UDP''
     else if ps_is_icmp_echo x then ''ICMP'' else ''(unknown)'')"

named_theorems ps_defs

lemmas [ps_defs] = ps_is_request_dir_def ps_is_reply_dir_def ps_is_request_def ps_is_reply_def
  ps_req_ack_or_rep_def ps_is_first_def ps_is_last_def ps_unconverted_def ps_is_tcp_def
  ps_is_udp_def ps_is_icmp_echo_def ps_has_syn_def ps_has_fin_def ps_same_proto_def
  ps_is_next_def ps_last_proto_state_def ps_to_proto_def proto_str_def ps_str_def

section \<open>The fourteen states\<close>

definition proto_states :: "ps list" where
  "proto_states = [1, 2, 3, 4, 5, 6, 7, 8, 9, 10, 11, 12, 13, 14]"

lemma valid_ps_iff: "x \<in> set proto_states \<longleftrightarrow> 1 \<le> x \<and> x \<le> 14"
proof
  assume "x \<in> set proto_states"
  then show "1 \<le> x \<and> x \<le> 14" by (auto simp: proto_states_def)
next
  assume a: "1 \<le> x \<and> x \<le> 14"
  define n where "n = unat x"
  have "unat (1 :: ps) \<le> n" "n \<le> unat (14 :: ps)"
    using a unfolding n_def by (simp_all only: word_le_nat_alt)
  then have n: "n \<in> set [1 ..< 15]" by simp
  have states: "map of_nat [1 ..< 15] = proto_states" unfolding proto_states_def by code_simp
  have "x = of_nat n" by (simp add: n_def)
  then show "x \<in> set proto_states" using n unfolding states[symmetric] by (simp only: set_map) blast
qed

text \<open>Checking a property of all the states by evaluation.\<close>

lemma all_valid_ps:
  assumes "\<forall>x \<in> set proto_states. P x" "1 \<le> x" "x \<le> 14"
  shows "P x"
  using assms valid_ps_iff[of x] by blast

end
