(* ===== verification/Containers.thy ===== *)
theory Containers
  imports Prelude
begin

text \<open>
  The ordered containers of the C++ standard library that Neo uses. A \<open>std::set\<close> or
  \<open>std::multiset\<close> is the list of its elements in iteration order, and its operations search
  that list with the comparator \<open>lt\<close> (the element type's \<open>operator<\<close>): \<open>find\<close>, \<open>insert\<close>
  and \<open>erase\<close> go through \<open>lower_bound\<close> and \<open>upper_bound\<close>, as in libstdc++. A \<open>std::map\<close> is
  the list of its key and value pairs in key order. The comparator's laws are the locales
  \<open>strict_ordered\<close> (enough for \<open>std::set\<close>) and \<open>weak_ordered\<close> (needed for
  \<open>std::multiset\<close>); both are relative to a predicate \<open>ok\<close>, since Neo orders address ranges
  with a comparator that is an order on well-formed ranges only.
\<close>

section \<open>Operations\<close>

definition lower_bound :: "('a \<Rightarrow> 'a \<Rightarrow> bool) \<Rightarrow> 'a \<Rightarrow> 'a list \<Rightarrow> 'a list" where
  "lower_bound lt x xs = dropWhile (\<lambda>y. lt y x) xs"

definition upper_bound :: "('a \<Rightarrow> 'a \<Rightarrow> bool) \<Rightarrow> 'a \<Rightarrow> 'a list \<Rightarrow> 'a list" where
  "upper_bound lt x xs = dropWhile (\<lambda>y. \<not> lt x y) xs"

definition set_find :: "('a \<Rightarrow> 'a \<Rightarrow> bool) \<Rightarrow> 'a \<Rightarrow> 'a list \<Rightarrow> 'a option" where
  "set_find lt x xs =
     (case lower_bound lt x xs of [] \<Rightarrow> None | y # _ \<Rightarrow> if lt x y then None else Some y)"

definition set_insert :: "('a \<Rightarrow> 'a \<Rightarrow> bool) \<Rightarrow> 'a \<Rightarrow> 'a list \<Rightarrow> 'a list" where
  "set_insert lt x xs =
     (case lower_bound lt x xs of
        [] \<Rightarrow> xs @ [x]
      | y # ys \<Rightarrow> if lt x y then takeWhile (\<lambda>y. lt y x) xs @ x # y # ys else xs)"

definition set_erase :: "('a \<Rightarrow> 'a \<Rightarrow> bool) \<Rightarrow> 'a \<Rightarrow> 'a list \<Rightarrow> 'a list" where
  "set_erase lt x xs = takeWhile (\<lambda>y. lt y x) xs @ upper_bound lt x (lower_bound lt x xs)"

definition set_count :: "('a \<Rightarrow> 'a \<Rightarrow> bool) \<Rightarrow> 'a \<Rightarrow> 'a list \<Rightarrow> bool" where
  "set_count lt x xs \<longleftrightarrow> set_find lt x xs \<noteq> None"

definition mset_insert :: "('a \<Rightarrow> 'a \<Rightarrow> bool) \<Rightarrow> 'a \<Rightarrow> 'a list \<Rightarrow> 'a list" where
  "mset_insert lt x xs = takeWhile (\<lambda>y. \<not> lt x y) xs @ x # upper_bound lt x xs"

text \<open>\<open>equal_range\<close>: the positions of its two iterators, and the elements between them.\<close>

definition equal_range :: "('a \<Rightarrow> 'a \<Rightarrow> bool) \<Rightarrow> 'a \<Rightarrow> 'a list \<Rightarrow> nat \<times> nat" where
  "equal_range lt x xs =
     (length xs - length (lower_bound lt x xs), length xs - length (upper_bound lt x xs))"

definition iter_range :: "nat \<times> nat \<Rightarrow> 'a list \<Rightarrow> 'a list" where
  "iter_range r xs = take (snd r - fst r) (drop (fst r) xs)"

section \<open>Strict orders: sets\<close>

text \<open>The invariant of a \<open>std::set\<close>: iteration order is the comparator's, without equivalents.\<close>

definition sorted_set :: "('a \<Rightarrow> bool) \<Rightarrow> ('a \<Rightarrow> 'a \<Rightarrow> bool) \<Rightarrow> 'a list \<Rightarrow> bool" where
  "sorted_set ok lt xs \<longleftrightarrow> sorted_wrt lt xs \<and> list_all ok xs"

locale strict_ordered =
  fixes ok :: "'a \<Rightarrow> bool"
    and lt :: "'a \<Rightarrow> 'a \<Rightarrow> bool"
  assumes lt_irrefl: "ok x \<Longrightarrow> \<not> lt x x"
    and lt_trans: "ok x \<Longrightarrow> ok y \<Longrightarrow> ok z \<Longrightarrow> lt x y \<Longrightarrow> lt y z \<Longrightarrow> lt x z"
begin

abbreviation wf_set :: "'a list \<Rightarrow> bool" where
  "wf_set \<equiv> sorted_set ok lt"

lemma wf_set_Nil [simp]: "wf_set []"
  by (simp add: sorted_set_def)

lemma wf_set_Cons: "wf_set (x # xs) \<longleftrightarrow> ok x \<and> (\<forall>y \<in> set xs. lt x y) \<and> wf_set xs"
  by (auto simp: sorted_set_def)

lemma wf_set_append:
  "wf_set (xs @ ys) \<longleftrightarrow> wf_set xs \<and> wf_set ys \<and> (\<forall>x \<in> set xs. \<forall>y \<in> set ys. lt x y)"
  by (auto simp: sorted_set_def sorted_wrt_append)

lemma wf_setD:
  assumes "wf_set xs" and "x \<in> set xs"
  shows "ok x"
  using assms by (auto simp: sorted_set_def list_all_iff)

lemma lt_asym: "ok x \<Longrightarrow> ok y \<Longrightarrow> lt x y \<Longrightarrow> \<not> lt y x"
  using lt_irrefl lt_trans by blast

lemma wf_set_distinct: "wf_set xs \<Longrightarrow> distinct xs"
  by (induction xs) (auto simp: wf_set_Cons lt_irrefl)

lemma wf_set_filter: "wf_set xs \<Longrightarrow> wf_set (filter P xs)"
  by (auto simp: sorted_set_def sorted_wrt_filter_mono list_all_iff)

lemma wf_set_comparable:
  assumes "wf_set xs" and "x \<in> set xs" and "y \<in> set xs" and "x \<noteq> y"
  shows "lt x y \<or> lt y x"
  using assms by (induction xs) (auto simp: wf_set_Cons)

lemma bounds_filter:
  assumes "wf_set xs" and "ok x"
  shows "takeWhile (\<lambda>y. lt y x) xs = filter (\<lambda>y. lt y x) xs"
    and "lower_bound lt x xs = filter (\<lambda>y. \<not> lt y x) xs"
    and "upper_bound lt x xs = filter (\<lambda>y. lt x y) xs"
proof -
  have srt: "sorted_wrt lt xs" using assms(1) by (simp add: sorted_set_def)
  have dn: "lt y z \<Longrightarrow> lt z x \<Longrightarrow> lt y x" if "y \<in> set xs" "z \<in> set xs" for y z
    using lt_trans[of y z x] wf_setD[OF assms(1)] assms(2) that by blast
  show "takeWhile (\<lambda>y. lt y x) xs = filter (\<lambda>y. lt y x) xs"
    and "lower_bound lt x xs = filter (\<lambda>y. \<not> lt y x) xs"
    unfolding lower_bound_def
    using takeWhile_eq_filter_sorted[OF srt, of "\<lambda>y. lt y x"] dn by blast+
  have up: "lt y z \<Longrightarrow> \<not> lt x z \<Longrightarrow> \<not> lt x y" if "y \<in> set xs" "z \<in> set xs" for y z
    using lt_trans[of x y z] wf_setD[OF assms(1)] assms(2) that by blast
  show "upper_bound lt x xs = filter (\<lambda>y. lt x y) xs"
    unfolding upper_bound_def
    using takeWhile_eq_filter_sorted[OF srt, of "\<lambda>y. \<not> lt x y"] up by simp
qed

lemma lower_bound_split:
  "wf_set xs \<Longrightarrow> ok x \<Longrightarrow>
     xs = filter (\<lambda>y. lt y x) xs @ filter (\<lambda>y. \<not> lt y x) xs"
  using bounds_filter[of xs x] takeWhile_dropWhile_id[of "\<lambda>y. lt y x" xs]
  by (simp add: lower_bound_def)

lemma set_find_None_iff:
  assumes "wf_set xs" and "ok x"
  shows "set_find lt x xs = None \<longleftrightarrow> (\<forall>y \<in> set xs. lt x y \<or> lt y x)"
proof (cases "filter (\<lambda>y. \<not> lt y x) xs")
  case Nil
  then show ?thesis
    using bounds_filter[OF assms] by (auto simp: set_find_def filter_empty_conv)
next
  case (Cons z zs)
  have mem: "\<And>y. y \<in> set (z # zs) \<longleftrightarrow> y \<in> set xs \<and> \<not> lt y x"
    unfolding Cons[symmetric] by auto
  have z: "z \<in> set xs" "\<not> lt z x" using mem[of z] by auto
  have "wf_set (z # zs)" using wf_set_filter[OF assms(1)] Cons[symmetric] by simp
  then have lts: "\<forall>y \<in> set zs. lt z y" by (simp add: wf_set_Cons)
  have "lt x y" if "lt x z" "y \<in> set xs" "\<not> lt y x" for y
  proof -
    have "y \<in> set (z # zs)" using mem that by blast
    then show ?thesis
      using lts lt_trans[of x z y] wf_setD[OF assms(1)] assms(2) that z by auto
  qed
  then show ?thesis
    using bounds_filter[OF assms] Cons z by (auto simp: set_find_def)
qed

lemma set_find_SomeD:
  assumes "wf_set xs" and "ok x" and "set_find lt x xs = Some y"
  shows "y \<in> set xs" and "\<not> lt x y" and "\<not> lt y x"
proof -
  from assms obtain ys where "filter (\<lambda>y. \<not> lt y x) xs = y # ys" and "\<not> lt x y"
    using bounds_filter[OF assms(1,2)]
    by (auto simp: set_find_def split: list.splits if_splits)
  then have "y \<in> set (filter (\<lambda>y. \<not> lt y x) xs)" and "\<not> lt x y" by auto
  then show "y \<in> set xs" and "\<not> lt x y" and "\<not> lt y x" by auto
qed

lemma set_find_eqI:
  assumes "wf_set xs" and "ok x" and "y \<in> set xs" and "\<not> lt x y" and "\<not> lt y x"
    and "\<And>z. z \<in> set xs \<Longrightarrow> \<not> lt x z \<Longrightarrow> \<not> lt z x \<Longrightarrow> z = y"
  shows "set_find lt x xs = Some y"
proof (cases "set_find lt x xs")
  case None
  then show ?thesis using assms set_find_None_iff by blast
next
  case (Some z)
  then show ?thesis using set_find_SomeD[OF assms(1,2) Some] assms(6) by blast
qed

lemma set_insert_spec:
  assumes "wf_set xs" and "ok x"
  shows "set_find lt x xs = None \<Longrightarrow>
      set_insert lt x xs = filter (\<lambda>y. lt y x) xs @ x # filter (\<lambda>y. lt x y) xs"
    and "set_find lt x xs \<noteq> None \<Longrightarrow> set_insert lt x xs = xs"
proof -
  assume none: "set_find lt x xs = None"
  then have "\<forall>y \<in> set xs. lt x y \<or> lt y x"
    using set_find_None_iff[OF assms] by blast
  then have eq: "filter (\<lambda>y. \<not> lt y x) xs = filter (\<lambda>y. lt x y) xs"
    using lt_asym wf_setD[OF assms(1)] assms(2) by (intro filter_cong_ex) blast
  show "set_insert lt x xs = filter (\<lambda>y. lt y x) xs @ x # filter (\<lambda>y. lt x y) xs"
  proof (cases "filter (\<lambda>y. lt x y) xs")
    case Nil
    then show ?thesis
      using bounds_filter[OF assms] eq lower_bound_split[OF assms]
      by (simp add: set_insert_def)
  next
    case (Cons z zs)
    then have "z \<in> set (filter (\<lambda>y. lt x y) xs)" by simp
    then have "lt x z" by simp
    then show ?thesis
      using bounds_filter[OF assms] eq Cons by (simp add: set_insert_def)
  qed
next
  assume "set_find lt x xs \<noteq> None"
  then show "set_insert lt x xs = xs"
    by (auto simp: set_insert_def set_find_def split: list.splits if_splits)
qed

lemma set_insert_wf:
  assumes "wf_set xs" and "ok x"
  shows "wf_set (set_insert lt x xs)"
proof (cases "set_find lt x xs")
  case None
  have "lt y z" if "y \<in> set xs" "z \<in> set xs" "lt y x" "lt x z" for y z
    using lt_trans[of y x z] wf_setD[OF assms(1)] assms(2) that by blast
  then show ?thesis
    using set_insert_spec(1)[OF assms None] wf_set_filter[OF assms(1)] assms(2)
    by (auto simp: wf_set_append wf_set_Cons)
next
  case (Some y)
  then show ?thesis using set_insert_spec(2)[OF assms] assms(1) by simp
qed

lemma set_set_insert:
  assumes "wf_set xs" and "ok x"
  shows "set (set_insert lt x xs) =
    (if set_find lt x xs = None then insert x (set xs) else set xs)"
proof (cases "set_find lt x xs")
  case None
  then have "\<forall>y \<in> set xs. lt x y \<or> lt y x"
    using set_find_None_iff[OF assms] by blast
  then show ?thesis using set_insert_spec(1)[OF assms None] None by auto
next
  case (Some y)
  then show ?thesis using set_insert_spec(2)[OF assms] by simp
qed

lemma set_erase_filter:
  assumes "wf_set xs" and "ok x"
  shows "set_erase lt x xs = filter (\<lambda>y. lt y x \<or> lt x y) xs"
proof -
  have "wf_set (filter (\<lambda>y. \<not> lt y x) xs)" using wf_set_filter[OF assms(1)] .
  then have "upper_bound lt x (filter (\<lambda>y. \<not> lt y x) xs)
      = filter (\<lambda>y. lt x y) (filter (\<lambda>y. \<not> lt y x) xs)"
    using bounds_filter(3) assms(2) by blast
  then have "set_erase lt x xs =
      filter (\<lambda>y. lt y x) xs @ filter (\<lambda>y. lt x y \<and> \<not> lt y x) xs"
    using bounds_filter[OF assms] by (simp add: set_erase_def conj_commute)
  moreover have "filter (\<lambda>y. lt y x \<or> lt x y) (filter (\<lambda>y. lt y x) xs)
      = filter (\<lambda>y. lt y x) xs"
    by (auto intro!: filter_cong_ex)
  moreover have "filter (\<lambda>y. lt y x \<or> lt x y) (filter (\<lambda>y. \<not> lt y x) xs)
      = filter (\<lambda>y. lt x y \<and> \<not> lt y x) xs"
    by (auto intro: filter_cong_ex)
  moreover have "filter (\<lambda>y. lt y x \<or> lt x y) xs
      = filter (\<lambda>y. lt y x \<or> lt x y) (filter (\<lambda>y. lt y x) xs)
        @ filter (\<lambda>y. lt y x \<or> lt x y) (filter (\<lambda>y. \<not> lt y x) xs)"
    using lower_bound_split[OF assms] by (metis filter_append)
  ultimately show ?thesis by simp
qed

lemma set_erase_wf: "wf_set xs \<Longrightarrow> ok x \<Longrightarrow> wf_set (set_erase lt x xs)"
  by (simp add: set_erase_filter wf_set_filter)

lemma set_erase_mem:
  assumes "wf_set xs" and "x \<in> set xs"
  shows "set_erase lt x xs = filter (\<lambda>y. y \<noteq> x) xs"
proof -
  have "(lt y x \<or> lt x y) = (y \<noteq> x)" if "y \<in> set xs" for y
    using wf_set_comparable[OF assms(1) that assms(2)] wf_setD[OF assms] lt_irrefl by blast
  then show ?thesis
    using set_erase_filter[OF assms(1) wf_setD[OF assms]] by (simp cong: filter_cong)
qed

end

section \<open>Strict weak orders: multisets\<close>

text \<open>The invariant of a \<open>std::multiset\<close>: no element precedes an earlier one.\<close>

definition sorted_mset :: "('a \<Rightarrow> bool) \<Rightarrow> ('a \<Rightarrow> 'a \<Rightarrow> bool) \<Rightarrow> 'a list \<Rightarrow> bool" where
  "sorted_mset ok lt xs \<longleftrightarrow> sorted_wrt (\<lambda>x y. \<not> lt y x) xs \<and> list_all ok xs"

locale weak_ordered = strict_ordered +
  assumes lt_negtrans:
    "ok x \<Longrightarrow> ok y \<Longrightarrow> ok z \<Longrightarrow> \<not> lt x y \<Longrightarrow> \<not> lt y z \<Longrightarrow> \<not> lt x z"
begin

lemma msetD: "sorted_mset ok lt xs \<Longrightarrow> x \<in> set xs \<Longrightarrow> ok x"
  by (auto simp: sorted_mset_def list_all_iff)

lemma mset_bounds_filter:
  assumes "sorted_mset ok lt xs" and "ok x"
  shows "takeWhile (\<lambda>y. lt y x) xs = filter (\<lambda>y. lt y x) xs"
    and "lower_bound lt x xs = filter (\<lambda>y. \<not> lt y x) xs"
    and "takeWhile (\<lambda>y. \<not> lt x y) xs = filter (\<lambda>y. \<not> lt x y) xs"
    and "upper_bound lt x xs = filter (\<lambda>y. lt x y) xs"
proof -
  have srt: "sorted_wrt (\<lambda>x y. \<not> lt y x) xs"
    using assms(1) by (simp add: sorted_mset_def)
  have dn: "\<not> lt z y \<Longrightarrow> lt z x \<Longrightarrow> lt y x" if "y \<in> set xs" "z \<in> set xs" for y z
    using lt_negtrans[of z y x] msetD[OF assms(1)] assms(2) that by blast
  show "takeWhile (\<lambda>y. lt y x) xs = filter (\<lambda>y. lt y x) xs"
    and "lower_bound lt x xs = filter (\<lambda>y. \<not> lt y x) xs"
    unfolding lower_bound_def
    using takeWhile_eq_filter_sorted[OF srt, of "\<lambda>y. lt y x"] dn by blast+
  have up: "\<not> lt z y \<Longrightarrow> \<not> lt x z \<Longrightarrow> \<not> lt x y" if "y \<in> set xs" "z \<in> set xs" for y z
    using lt_negtrans[of x z y] msetD[OF assms(1)] assms(2) that by blast
  have ub: "takeWhile (\<lambda>y. \<not> lt x y) xs = filter (\<lambda>y. \<not> lt x y) xs
      \<and> dropWhile (\<lambda>y. \<not> lt x y) xs = filter (\<lambda>y. \<not> \<not> lt x y) xs"
    using takeWhile_eq_filter_sorted[OF srt, of "\<lambda>y. \<not> lt x y"] up by blast
  then show "takeWhile (\<lambda>y. \<not> lt x y) xs = filter (\<lambda>y. \<not> lt x y) xs"
    and "upper_bound lt x xs = filter (\<lambda>y. lt x y) xs"
    by (simp_all add: upper_bound_def)
qed

lemma mset_three_way:
  assumes "sorted_mset ok lt xs" and "ok x"
  shows "xs = filter (\<lambda>y. lt y x) xs @ filter (\<lambda>y. \<not> lt y x \<and> \<not> lt x y) xs
              @ filter (\<lambda>y. lt x y) xs"
proof -
  have srt: "sorted_mset ok lt (filter (\<lambda>y. \<not> lt y x) xs)"
    using assms(1) by (auto simp: sorted_mset_def sorted_wrt_filter_mono list_all_iff)
  have gt: "(\<not> lt y x \<and> lt x y) = lt x y" if "y \<in> set xs" for y
    using lt_asym[OF assms(2) msetD[OF assms(1) that]] by blast
  have "xs = filter (\<lambda>y. lt y x) xs @ filter (\<lambda>y. \<not> lt y x) xs"
    using mset_bounds_filter(1,2)[OF assms] takeWhile_dropWhile_id[of "\<lambda>y. lt y x" xs]
    by (simp add: lower_bound_def)
  also have "filter (\<lambda>y. \<not> lt y x) xs
      = filter (\<lambda>y. \<not> lt x y) (filter (\<lambda>y. \<not> lt y x) xs)
        @ filter (\<lambda>y. lt x y) (filter (\<lambda>y. \<not> lt y x) xs)"
    using mset_bounds_filter(3,4)[OF srt assms(2)]
      takeWhile_dropWhile_id[of "\<lambda>y. \<not> lt x y" "filter (\<lambda>y. \<not> lt y x) xs"]
    by (simp add: upper_bound_def)
  also have "filter (\<lambda>y. lt x y) (filter (\<lambda>y. \<not> lt y x) xs) = filter (\<lambda>y. lt x y) xs"
    using gt by (auto intro!: filter_cong_ex)
  finally show ?thesis by (simp add: conj_commute)
qed

lemma equal_range_filter:
  assumes "sorted_mset ok lt xs" and "ok x"
  shows "iter_range (equal_range lt x xs) xs = filter (\<lambda>y. \<not> lt y x \<and> \<not> lt x y) xs"
proof -
  let ?a = "filter (\<lambda>y. lt y x) xs" and ?c = "filter (\<lambda>y. lt x y) xs"
    and ?b = "filter (\<lambda>y. \<not> lt y x \<and> \<not> lt x y) xs"
  have xs: "xs = ?a @ ?b @ ?c" by (rule mset_three_way[OF assms])
  have len: "length xs = length ?a + length ?b + length ?c"
    by (subst xs) simp
  have lo: "length (lower_bound lt x xs) = length ?b + length ?c"
    using mset_bounds_filter(2)[OF assms] sum_length_filter_compl[of "\<lambda>y. lt y x" xs] len
    by simp
  have er: "equal_range lt x xs = (length ?a, length ?a + length ?b)"
    using lo len mset_bounds_filter(4)[OF assms] by (simp add: equal_range_def)
  have "iter_range (equal_range lt x xs) (?a @ ?b @ ?c) = ?b"
    by (simp add: er iter_range_def)
  then show ?thesis using xs by simp
qed

lemma mset_insert_sorted:
  assumes "sorted_mset ok lt xs" and "ok x"
  shows "sorted_mset ok lt (mset_insert lt x xs)"
proof -
  have ge: "\<not> lt z y" if "y \<in> set xs" "z \<in> set xs" "\<not> lt x y" "lt x z" for y z
  proof
    assume "lt z y"
    then have "lt x y"
      using lt_trans[of x z y] msetD[OF assms(1)] assms(2) that by blast
    then show False using that by simp
  qed
  have "\<not> lt z x" if "z \<in> set xs" "lt x z" for z
    using lt_asym[OF assms(2) msetD[OF assms(1) that(1)] that(2)] .
  then show ?thesis
    using assms ge mset_bounds_filter(3,4)[OF assms]
    by (auto simp: sorted_mset_def mset_insert_def sorted_wrt_append sorted_wrt_filter_mono
        list_all_iff)
qed

lemma mset_erase_filter:
  assumes "sorted_mset ok lt xs" and "ok x"
  shows "set_erase lt x xs = filter (\<lambda>y. lt y x \<or> lt x y) xs"
proof -
  let ?a = "filter (\<lambda>y. lt y x) xs" and ?c = "filter (\<lambda>y. lt x y) xs"
    and ?b = "filter (\<lambda>y. \<not> lt y x \<and> \<not> lt x y) xs"
  have xs: "xs = ?a @ ?b @ ?c" by (rule mset_three_way[OF assms])
  have srt: "sorted_mset ok lt (filter (\<lambda>y. \<not> lt y x) xs)"
    using assms(1) by (auto simp: sorted_mset_def sorted_wrt_filter_mono list_all_iff)
  have gt: "(\<not> lt y x \<and> lt x y) = lt x y" if "y \<in> set xs" for y
    using lt_asym[OF assms(2) msetD[OF assms(1) that]] by blast
  have "set_erase lt x xs = ?a @ ?c"
    using mset_bounds_filter[OF assms] mset_bounds_filter(4)[OF srt assms(2)] gt
    by (simp add: set_erase_def cong: filter_cong)
  also have "\<dots> = filter (\<lambda>y. lt y x \<or> lt x y) (?a @ ?b @ ?c)"
  proof -
    have "filter (\<lambda>y. lt y x \<or> lt x y) ?a = ?a" "filter (\<lambda>y. lt y x \<or> lt x y) ?c = ?c"
      by (auto intro!: filter_cong_ex)
    moreover have "filter (\<lambda>y. lt y x \<or> lt x y) ?b = []"
      by (auto simp: filter_empty_conv)
    ultimately show ?thesis by (simp only: filter_append append_Nil)
  qed
  finally show ?thesis using xs by simp
qed

lemma mset_erase_sorted:
  "sorted_mset ok lt xs \<Longrightarrow> ok x \<Longrightarrow> sorted_mset ok lt (set_erase lt x xs)"
  by (auto simp: mset_erase_filter sorted_mset_def sorted_wrt_filter_mono list_all_iff)

lemma mset_insert_set: "set (mset_insert lt x xs) = insert x (set xs)"
proof -
  have "set (takeWhile (\<lambda>y. \<not> lt x y) xs) \<union> set (dropWhile (\<lambda>y. \<not> lt x y) xs) = set xs"
    by (metis set_append takeWhile_dropWhile_id)
  then show ?thesis by (auto simp: mset_insert_def upper_bound_def)
qed

end

section \<open>Linear orders: sets of pointers, ports and addresses, and maps keyed by them\<close>

interpretation lin: weak_ordered "\<lambda>_. True" "(<) :: 'a::linorder \<Rightarrow> 'a \<Rightarrow> bool"
  by unfold_locales auto

definition oset_insert :: "'a::linorder \<Rightarrow> 'a list \<Rightarrow> 'a list" where
  "oset_insert = set_insert (<)"

definition oset :: "'a::linorder list \<Rightarrow> bool" where
  "oset xs \<longleftrightarrow> sorted_set (\<lambda>_. True) (<) xs"

lemma oset_find_None [simp]:
  "oset xs \<Longrightarrow> set_find (<) x xs = None \<longleftrightarrow> x \<notin> set (xs :: 'a::linorder list)"
  using lin.set_find_None_iff[of xs x] by (auto simp: oset_def)

lemma oset_insert_set [simp]: "oset xs \<Longrightarrow> set (oset_insert x xs) = insert x (set xs)"
  using lin.set_set_insert[of xs x] by (auto simp: oset_def oset_insert_def)

lemma oset_insert_oset [simp, intro]: "oset xs \<Longrightarrow> oset (oset_insert x xs)"
  using lin.set_insert_wf[of xs x] by (auto simp: oset_def oset_insert_def)

lemma oset_Nil [simp, intro]: "oset []"
  by (simp add: oset_def sorted_set_def)

lemma oset_distinct: "oset xs \<Longrightarrow> distinct xs"
  using lin.wf_set_distinct by (simp add: oset_def)

lemma oset_eqI:
  assumes "oset xs" and "oset ys" and "set xs = set (ys :: 'a::linorder list)"
  shows "xs = ys"
proof (rule sorted_distinct_set_unique)
  show "sorted xs" "sorted ys"
    using assms(1,2) by (simp_all add: oset_def sorted_set_def strict_sorted_iff)
qed (use assms oset_distinct in auto)

text \<open>\<open>std::map\<close>: \<open>m[k] = v\<close> and \<open>m.insert\<close> (which keeps an existing entry).\<close>

fun omap_put :: "'k::linorder \<Rightarrow> 'v \<Rightarrow> ('k \<times> 'v) list \<Rightarrow> ('k \<times> 'v) list" where
  "omap_put k v [] = [(k, v)]"
| "omap_put k v ((a, b) # m) =
     (if k < a then (k, v) # (a, b) # m
      else if k = a then (k, v) # m
      else (a, b) # omap_put k v m)"

definition omap_insert :: "'k::linorder \<Rightarrow> 'v \<Rightarrow> ('k \<times> 'v) list \<Rightarrow> bool \<times> ('k \<times> 'v) list" where
  "omap_insert k v m =
     (case map_of m k of Some _ \<Rightarrow> (False, m) | None \<Rightarrow> (True, omap_put k v m))"

definition omap :: "('k::linorder \<times> 'v) list \<Rightarrow> bool" where
  "omap m \<longleftrightarrow> sorted_wrt (<) (map fst m)"

lemma omap_Nil [simp, intro]: "omap []"
  by (simp add: omap_def)

lemma map_of_omap_put [simp]: "map_of (omap_put k v m) = (map_of m)(k \<mapsto> v)"
  by (induction k v m rule: omap_put.induct) (auto simp: fun_eq_iff)

lemma fst_omap_put [simp]: "fst ` set (omap_put k v m) = insert k (fst ` set m)"
  by (induction k v m rule: omap_put.induct) auto

lemma omap_put_omap [intro]: "omap m \<Longrightarrow> omap (omap_put k v m)"
  by (induction k v m rule: omap_put.induct)
     (auto simp: omap_def image_iff dest: fst_omap_put[THEN equalityD1, THEN subsetD])

lemma omap_distinct: "omap m \<Longrightarrow> distinct (map fst m)"
  using strict_sorted_iff omap_def by blast

end
