(* ===== verification/IPv4.thy ===== *)
theory IPv4
  imports Containers "HOL-Library.Monad_Syntax"
begin

unbundle bit_operations_syntax

text \<open>
  The address library, \<open>src/lib/ip.hpp\<close> and \<open>src/lib/ip.cpp\<close>: \<open>IPv4Address\<close> is a 32-bit word,
  \<open>IPInterface\<close> and \<open>IPNetwork\<close> are an address with a prefix length, \<open>IPRange\<close> is a pair of
  bounds. Constructors that call \<open>logger.error\<close> return \<open>Inl\<close>. \<open>sscanf\<close> is modelled for the two
  formats the library uses, with glibc's handling of numbers that do not fit an \<open>int\<close>.
\<close>

type_synonym ipv4 = "32 word"

section \<open>Decimal text\<close>

definition digit_char :: "nat \<Rightarrow> char" where
  "digit_char d = char_of (48 + d)"

fun dec_of_nat :: "nat \<Rightarrow> string" where
  "dec_of_nat n =
     (if n < 10 then [digit_char n] else dec_of_nat (n div 10) @ [digit_char (n mod 10)])"

declare dec_of_nat.simps [simp del]

definition is_digit :: "char \<Rightarrow> bool" where
  "is_digit c \<longleftrightarrow> 48 \<le> (of_char c :: nat) \<and> (of_char c :: nat) \<le> 57"

definition is_space :: "char \<Rightarrow> bool" where
  "is_space c \<longleftrightarrow> (of_char c :: nat) = 32 \<or> 9 \<le> (of_char c :: nat) \<and> (of_char c :: nat) \<le> 13"

definition digits_val :: "string \<Rightarrow> nat" where
  "digits_val ds = foldl (\<lambda>a c. 10 * a + (of_char c - 48)) 0 ds"

text \<open>A number scanned by \<open>%d\<close>: saturated to \<open>long\<close>, then truncated to \<open>int\<close>.\<close>

definition to_c_int :: "int \<Rightarrow> int" where
  "to_c_int v = sint (word_of_int (max (- (2 ^ 63)) (min (2 ^ 63 - 1) v)) :: 32 word)"

definition scan_int :: "string \<Rightarrow> (int \<times> string) option" where
  "scan_int s =
     (let s1 = dropWhile is_space s;
          (neg, s2) = (case s1 of
              [] \<Rightarrow> (False, s1)
            | c # r \<Rightarrow> if c = CHR ''-'' then (True, r) else if c = CHR ''+'' then (False, r)
                       else (False, s1));
          ds = takeWhile is_digit s2;
          v = int (digits_val ds)
      in if ds = [] then None
         else Some (to_c_int (if neg then - v else v), dropWhile is_digit s2))"

definition scan_char :: "char \<Rightarrow> string \<Rightarrow> string option" where
  "scan_char c s = (case s of [] \<Rightarrow> None | x # r \<Rightarrow> if x = c then Some r else None)"

definition scan_dotted :: "string \<Rightarrow> (int list \<times> string) option" where
  "scan_dotted s = do {
     (a, s) \<leftarrow> scan_int s;  s \<leftarrow> scan_char CHR ''.'' s;
     (b, s) \<leftarrow> scan_int s;  s \<leftarrow> scan_char CHR ''.'' s;
     (c, s) \<leftarrow> scan_int s;  s \<leftarrow> scan_char CHR ''.'' s;
     (d, s) \<leftarrow> scan_int s;
     Some ([a, b, c, d], s) }"

definition c_str :: "string \<Rightarrow> string" where
  "c_str s = takeWhile (\<lambda>c. c \<noteq> CHR 0x00) s"

definition push_octet :: "int \<Rightarrow> ipv4 \<Rightarrow> ipv4 result" where
  "push_octet oct v =
     (if oct < 0 \<or> oct > 255 then Inl (Runtime_error ''Invalid IP octet: '')
      else Inr (push_bit 8 v + word_of_int oct))"

section \<open>Addresses\<close>

definition ipv4_of_string :: "string \<Rightarrow> ipv4 result" where
  "ipv4_of_string ips =
     (case scan_dotted (c_str ips) of
        Some (octs, rest) \<Rightarrow>
          if length (c_str ips) - length rest = length ips then foldR push_octet octs 0
          else Inl (Runtime_error ''Failed to parse IP: '')
      | None \<Rightarrow> Inl (Runtime_error ''Failed to parse IP: ''))"

definition octet_of :: "nat \<Rightarrow> ipv4 \<Rightarrow> nat" where
  "octet_of k v = unat (drop_bit k v AND 255)"

definition ipv4_to_string :: "ipv4 \<Rightarrow> string" where
  "ipv4_to_string v =
     dec_of_nat (octet_of 24 v) @ ''.'' @ dec_of_nat (octet_of 16 v) @ ''.'' @
     dec_of_nat (octet_of 8 v) @ ''.'' @ dec_of_nat (octet_of 0 v)"

text \<open>\<open>operator-\<close> returns an \<open>int\<close>.\<close>

definition ipv4_diff :: "ipv4 \<Rightarrow> ipv4 \<Rightarrow> int" where
  "ipv4_diff a b = sint (a - b)"

section \<open>Interfaces and networks\<close>

record ip_interface =
  ip_value :: ipv4
  ip_prefix :: int

type_synonym ip_network = ip_interface

definition prefix_ok :: "int \<Rightarrow> bool" where
  "prefix_ok p \<longleftrightarrow> \<not> (p < 0 \<or> p > 32)"

definition mk_interface :: "ipv4 \<Rightarrow> int \<Rightarrow> ip_interface result" where
  "mk_interface a p =
     (if \<not> prefix_ok p then Inl (Runtime_error ''Invalid prefix length: '')
      else Inr \<lparr>ip_value = a, ip_prefix = p\<rparr>)"

definition scan_cidr :: "string \<Rightarrow> (int list \<times> int \<times> string) option" where
  "scan_cidr s = do {
     (octs, s) \<leftarrow> scan_dotted s;  s \<leftarrow> scan_char CHR ''/'' s;
     (p, s) \<leftarrow> scan_int s;
     Some (octs, p, s) }"

definition interface_of_string :: "string \<Rightarrow> ip_interface result" where
  "interface_of_string cidr =
     (case scan_cidr (c_str cidr) of
        Some (octs, p, rest) \<Rightarrow>
          if length (c_str cidr) - length rest = length cidr
          then bindR (foldR push_octet octs 0) (\<lambda>v. mk_interface v p)
          else Inl (Runtime_error ''Failed to parse IP: '')
      | None \<Rightarrow> Inl (Runtime_error ''Failed to parse IP: ''))"

definition interface_to_string :: "ip_interface \<Rightarrow> string" where
  "interface_to_string i =
     ipv4_to_string (ip_value i) @ ''/'' @ dec_of_nat (nat (ip_prefix i))"

text \<open>The host part of an address: \<open>(1ULL << (length() - prefix)) - 1\<close>, truncated to 32 bits.\<close>

definition host_mask :: "int \<Rightarrow> ipv4" where
  "host_mask p = ucast (push_bit (nat (32 - p)) (1 :: 64 word) - 1)"

definition interface_mask :: "ip_interface \<Rightarrow> ipv4" where
  "interface_mask i = ucast (NOT (push_bit (nat (32 - ip_prefix i)) (1 :: 64 word) - 1))"

definition is_network :: "ip_interface \<Rightarrow> bool" where
  "is_network i \<longleftrightarrow> ip_value i AND host_mask (ip_prefix i) = 0"

definition mk_network :: "ipv4 \<Rightarrow> int \<Rightarrow> ip_network result" where
  "mk_network a p =
     bindR (mk_interface a p)
       (\<lambda>i. if is_network i then Inr i else Inl (Runtime_error ''Invalid network: ''))"

definition network_of_string :: "string \<Rightarrow> ip_network result" where
  "network_of_string cidr =
     bindR (interface_of_string cidr)
       (\<lambda>i. if is_network i then Inr i else Inl (Runtime_error ''Invalid network: ''))"

definition interface_network :: "ip_interface \<Rightarrow> ip_network result" where
  "interface_network i = mk_network (ip_value i AND NOT (host_mask (ip_prefix i))) (ip_prefix i)"

definition network_addr :: "ip_network \<Rightarrow> ipv4" where
  "network_addr n = ip_value n"

definition broadcast_addr :: "ip_network \<Rightarrow> ipv4" where
  "broadcast_addr n = ip_value n OR host_mask (ip_prefix n)"

definition network_contains :: "ip_network \<Rightarrow> ipv4 \<Rightarrow> bool" where
  "network_contains n a \<longleftrightarrow> a \<ge> network_addr n \<and> a \<le> broadcast_addr n"

text \<open>\<open>operator<\<close> of interfaces: longer prefixes first, then by address.\<close>

definition interface_less :: "ip_interface \<Rightarrow> ip_interface \<Rightarrow> bool" where
  "interface_less l r \<longleftrightarrow>
     (if ip_prefix l > ip_prefix r then True
      else if ip_prefix l < ip_prefix r then False
      else ip_value l < ip_value r)"

section \<open>Ranges\<close>

record ip_range =
  r_lb :: ipv4
  r_ub :: ipv4

definition mk_range :: "ipv4 \<Rightarrow> ipv4 \<Rightarrow> ip_range result" where
  "mk_range l u =
     (if l > u then Inl (Runtime_error ''Invalid IP range: '')
      else Inr \<lparr>r_lb = l, r_ub = u\<rparr>)"

definition range_of_network :: "ip_network \<Rightarrow> ip_range" where
  "range_of_network n = \<lparr>r_lb = network_addr n, r_ub = broadcast_addr n\<rparr>"

definition range_of_string :: "string \<Rightarrow> ip_range result" where
  "range_of_string s = bindR (network_of_string s) (\<lambda>n. Inr (range_of_network n))"

text \<open>\<open>size()\<close> is \<open>ub - lb + 1\<close> on \<open>int\<close>, converted to \<open>size_t\<close>.\<close>

definition range_size :: "'a ip_range_scheme \<Rightarrow> 64 word result" where
  "range_size r =
     (let d = ipv4_diff (r_ub r) (r_lb r)
      in if d = 2 ^ 31 - 1 then Inl Undefined_behaviour else Inr (word_of_int (d + 1)))"

definition range_contains :: "'a ip_range_scheme \<Rightarrow> ipv4 \<Rightarrow> bool" where
  "range_contains r a \<longleftrightarrow> a \<ge> r_lb r \<and> a \<le> r_ub r"

definition range_contains_range :: "'a ip_range_scheme \<Rightarrow> 'b ip_range_scheme \<Rightarrow> bool" where
  "range_contains_range r s \<longleftrightarrow> r_lb s \<ge> r_lb r \<and> r_ub s \<le> r_ub r"

definition network_contains_range :: "ip_network \<Rightarrow> 'a ip_range_scheme \<Rightarrow> bool" where
  "network_contains_range n r \<longleftrightarrow> r_lb r \<ge> network_addr n \<and> r_ub r \<le> broadcast_addr n"

definition range_is_network :: "'a ip_range_scheme \<Rightarrow> bool result" where
  "range_is_network r =
     bindR (range_size r) (\<lambda>sz. let n = ucast sz :: 32 word
       in Inr (n AND (n - 1) = 0 \<and> r_lb r AND (n - 1) = 0))"

fun log2_nat :: "nat \<Rightarrow> nat" where
  "log2_nat n = (if n < 2 then 0 else Suc (log2_nat (n div 2)))"

declare log2_nat.simps [simp del]

text \<open>
  \<open>IPNetwork(const IPRange &)\<close>. For \<open>size = 0\<close> the code converts \<open>log2(0)\<close>, minus infinity, to
  \<open>int\<close>, which is undefined.
\<close>

definition network_of_range :: "'a ip_range_scheme \<Rightarrow> ip_network result" where
  "network_of_range r =
     bindR (range_size r) (\<lambda>sz. let size = ucast sz :: 32 word in
       if size AND (size - 1) \<noteq> 0 \<or> r_lb r AND (size - 1) \<noteq> 0
       then Inl (Runtime_error ''Invalid network: '')
       else if size = 0 then Inl Undefined_behaviour
       else Inr \<lparr>ip_value = r_lb r, ip_prefix = 32 - int (log2_nat (unat size))\<rparr>)"

section \<open>Masks as arithmetic\<close>

lemma host_mask_eq: "prefix_ok p \<Longrightarrow> host_mask p = mask (nat (32 - p))"
proof -
  assume p: "prefix_ok p"
  have "push_bit n (1 :: 64 word) - 1 = mask n" for n
    by (simp add: mask_eq_exp_minus_1 push_bit_eq_mult)
  moreover have "nat (32 - p) \<le> 32" using p unfolding prefix_ok_def by arith
  ultimately show ?thesis by (simp add: host_mask_def ucast_mask_eq min_def)
qed

lemma unat_and_mask: "unat (v AND mask k) = unat (v :: 'a::len word) mod 2 ^ k"
  by (metis take_bit_eq_mask take_bit_eq_mod unsigned_take_bit_eq)

lemma unat_drop: "unat (drop_bit k v) = unat (v :: 'a::len word) div 2 ^ k"
  by (metis drop_bit_eq_div unat_drop_bit_eq)

lemma unat_mask_le:
  assumes "k \<le> LENGTH('a)"
  shows "unat (mask k :: 'a::len word) = 2 ^ k - 1"
proof -
  have "(2::nat) ^ LENGTH('a) = 2 ^ k * 2 ^ (LENGTH('a) - k)"
    using assms by (metis le_add_diff_inverse power_add)
  then have "mask k = take_bit k (mask LENGTH('a) :: nat)"
    using assms by (simp add: min_def)
  moreover have "unat (- 1 :: 'a word) = mask LENGTH('a)"
    by (simp add: unsigned_minus_1_eq_mask)
  ultimately show ?thesis
    using unat_and_mask[of "- 1 :: 'a word" k]
    by (simp add: take_bit_eq_mod mask_eq_exp_minus_1)
qed

lemma aligned_bound:
  assumes "v AND mask k = (0 :: 'a::len word)" and "k \<le> LENGTH('a)"
  shows "unat v + 2 ^ k \<le> 2 ^ LENGTH('a)"
proof -
  have "unat v mod 2 ^ k = 0" using assms(1) unat_and_mask[of v k] by simp
  then obtain m where m: "unat v = 2 ^ k * m" by fastforce
  have L: "(2::nat) ^ LENGTH('a) = 2 ^ k * 2 ^ (LENGTH('a) - k)"
    using assms(2) by (metis le_add_diff_inverse power_add)
  have "2 ^ k * m < 2 ^ k * 2 ^ (LENGTH('a) - k)"
    using unsigned_less[of v, where 'a = nat] m L by simp
  then have "m + 1 \<le> 2 ^ (LENGTH('a) - k)" by simp
  then have "2 ^ k * (m + 1) \<le> 2 ^ k * 2 ^ (LENGTH('a) - k)" by (rule mult_le_mono2)
  then show ?thesis using m L by simp
qed

lemma unat_or_mask:
  assumes "v AND mask k = (0 :: 'a::len word)" and "k \<le> LENGTH('a)"
  shows "unat (v OR mask k) = unat v + (2 ^ k - 1)"
proof -
  have "unat v + unat (mask k :: 'a word) < 2 ^ LENGTH('a)"
    using aligned_bound[OF assms] unat_mask_le[OF assms(2)] less_le_trans[of "unat v + (2^k - 1)" "unat v + 2^k"]
    by simp
  moreover have "v OR mask k = v + mask k"
    using disjunctive_add_eq_or[OF assms(1)] by simp
  ultimately show ?thesis using unat_mask_le[OF assms(2)]
    by (simp add: unat_word_ariths)
qed

lemma unat_and_not_mask: "unat (v AND NOT (mask k)) = unat (v :: 'a::len word) div 2 ^ k * 2 ^ k"
proof -
  have "v = (v AND mask k) + (v AND NOT (mask k))"
    by (metis (no_types, lifting) and.assoc and.commute bit.conj_cancel_right bit.conj_disj_distrib and.right_neutral bit.disj_cancel_right bit.conj_zero_right disjunctive_add_eq_or and.left_commute)
  then have "v AND NOT (mask k) = v - (v AND mask k)" by (metis add_diff_cancel_left')
  moreover have "unat (v AND mask k) \<le> unat v" by (simp add: unat_and_mask)
  ultimately have "unat (v AND NOT (mask k)) = unat v - unat v mod 2 ^ k"
    by (metis unat_and_mask unat_sub word_le_nat_alt)
  then show ?thesis by (metis minus_mod_eq_div_mult)
qed

section \<open>Networks\<close>

definition valid_network :: "ip_network \<Rightarrow> bool" where
  "valid_network n \<longleftrightarrow> prefix_ok (ip_prefix n) \<and> is_network n"

definition host_bits :: "ip_network \<Rightarrow> nat" where
  "host_bits n = nat (32 - ip_prefix n)"

lemma host_bits_le: "valid_network n \<Longrightarrow> host_bits n \<le> 32"
  unfolding valid_network_def prefix_ok_def host_bits_def by arith

lemma mk_network_Inr_iff:
  "mk_network a p = Inr n \<longleftrightarrow> n = \<lparr>ip_value = a, ip_prefix = p\<rparr> \<and> valid_network n"
  by (auto simp: mk_network_def mk_interface_def valid_network_def bindR_eq_Inr_iff split: if_splits)

lemma valid_networkD:
  assumes "valid_network n"
  shows "prefix_ok (ip_prefix n)" and "ip_value n AND mask (host_bits n) = 0"
    and "host_mask (ip_prefix n) = mask (host_bits n)"
proof -
  show p: "prefix_ok (ip_prefix n)" using assms by (simp add: valid_network_def)
  show h: "host_mask (ip_prefix n) = mask (host_bits n)"
    by (simp add: host_mask_eq[OF p] host_bits_def)
  show "ip_value n AND mask (host_bits n) = 0"
    using assms h by (simp add: valid_network_def is_network_def)
qed

lemma valid_network_mod:
  assumes "valid_network n"
  shows "unat (ip_value n) mod 2 ^ host_bits n = 0"
  using valid_networkD(2)[OF assms] unat_and_mask[of "ip_value n" "host_bits n"] by simp

lemma unat_broadcast:
  assumes "valid_network n"
  shows "unat (broadcast_addr n) = unat (ip_value n) + (2 ^ host_bits n - 1)"
  using unat_or_mask[OF valid_networkD(2)[OF assms]] host_bits_le[OF assms]
    valid_networkD(3)[OF assms]
  by (simp add: broadcast_addr_def)

lemma div_eq_interval:
  assumes "(v::nat) mod m = 0" and "0 < m"
  shows "v \<le> a \<and> a \<le> v + (m - 1) \<longleftrightarrow> a div m = v div m"
proof -
  obtain q where q: "v = m * q" using assms(1) by fastforce
  have a: "a = m * (a div m) + a mod m" "a mod m < m" using assms(2) by auto
  show ?thesis
  proof
    assume le: "v \<le> a \<and> a \<le> v + (m - 1)"
    define r where "r = a - v"
    have "a = m * q + r" "r < m" using le q assms(2) unfolding r_def by linarith+
    then show "a div m = v div m" using q assms(2) by simp
  next
    assume "a div m = v div m"
    then have "a = m * q + a mod m" using q assms(2) a(1) by simp
    then show "v \<le> a \<and> a \<le> v + (m - 1)" using q a(2) by linarith
  qed
qed

lemma network_contains_div:
  assumes "valid_network n"
  shows "network_contains n a \<longleftrightarrow>
    unat a div 2 ^ host_bits n = unat (ip_value n) div 2 ^ host_bits n"
  using div_eq_interval[OF valid_network_mod[OF assms], of "unat a"] unat_broadcast[OF assms]
  by (simp add: network_contains_def network_addr_def word_le_nat_alt)

text \<open>A network contains exactly the addresses that agree with it on the
  prefix bits: the code's comparison with the network and broadcast addresses is the usual
  longest-prefix test.\<close>

theorem network_contains_iff_prefix:
  assumes "valid_network n"
  shows "network_contains n a \<longleftrightarrow>
    drop_bit (host_bits n) a = drop_bit (host_bits n) (ip_value n)"
  by (metis network_contains_div[OF assms] unat_drop word_unat_eq_iff)

theorem network_contains_iff_prefix_witness:
  "network_contains \<lparr>ip_value = 0xC0A80000, ip_prefix = 16\<rparr> 0xC0A80A01 \<and>
   \<not> network_contains \<lparr>ip_value = 0xC0A80000, ip_prefix = 16\<rparr> 0xC0A90000"
proof -
  let ?n = "\<lparr>ip_value = 0xC0A80000, ip_prefix = 16\<rparr> :: ip_network"
  have v: "valid_network ?n"
    by (simp add: valid_network_def prefix_ok_def is_network_def host_mask_def)
  show ?thesis
    using network_contains_iff_prefix[OF v, of "0xC0A80A01"]
      network_contains_iff_prefix[OF v, of "0xC0A90000"]
    by (simp add: host_bits_def drop_bit_eq_div)
qed

lemma interface_network_total:
  assumes "prefix_ok (ip_prefix i)"
  shows "\<exists>n. interface_network i = Inr n \<and> valid_network n \<and> ip_prefix n = ip_prefix i
    \<and> network_contains n (ip_value i)"
proof -
  let ?k = "nat (32 - ip_prefix i)"
  let ?n = "\<lparr>ip_value = ip_value i AND NOT (mask ?k), ip_prefix = ip_prefix i\<rparr> :: ip_network"
  have "valid_network ?n"
    using assms by (simp add: valid_network_def is_network_def host_mask_eq and.assoc)
  moreover from this have "interface_network i = Inr ?n"
    by (simp add: interface_network_def mk_network_Inr_iff host_mask_eq[OF assms])
  moreover have "network_contains ?n (ip_value i)"
    using network_contains_div[OF \<open>valid_network ?n\<close>]
    by (simp add: host_bits_def unat_and_not_mask)
  ultimately show ?thesis by auto
qed

text \<open>Two networks are nested or disjoint: of two networks, the one with the
  longer prefix lies inside the other or shares no address with it.\<close>

theorem networks_nested_or_disjoint:
  assumes "valid_network m" and "valid_network n" and "ip_prefix m \<ge> ip_prefix n"
  shows "(\<forall>a. network_contains m a \<longrightarrow> network_contains n a)
    \<or> (\<forall>a. \<not> (network_contains m a \<and> network_contains n a))"
proof -
  let ?h = "host_bits m" and ?k = "host_bits n"
  have "?h \<le> ?k" using assms(3) by (simp add: host_bits_def)
  then have p: "(2::nat) ^ ?k = 2 ^ ?h * 2 ^ (?k - ?h)"
    by (metis le_add_diff_inverse power_add)
  have "unat a div 2 ^ ?k = unat (ip_value m) div 2 ^ ?k" if "network_contains m a" for a
    using that unfolding network_contains_div[OF assms(1)] p
    by (simp add: div_mult2_eq)
  then show ?thesis
    unfolding network_contains_div[OF assms(2)] by metis
qed

theorem networks_nested_or_disjoint_witness:
  "\<not> (network_contains \<lparr>ip_value = 0x0A010000, ip_prefix = 16\<rparr> 0x0A020001 \<and>
      network_contains \<lparr>ip_value = 0x0A010000, ip_prefix = 16\<rparr> 0x0A020001)
   \<and> network_contains \<lparr>ip_value = 0x0A000000, ip_prefix = 8\<rparr> 0x0A010001"
proof -
  let ?m = "\<lparr>ip_value = 0x0A010000, ip_prefix = 16\<rparr> :: ip_network"
  let ?n = "\<lparr>ip_value = 0x0A000000, ip_prefix = 8\<rparr> :: ip_network"
  have "valid_network ?m" "valid_network ?n"
    by (simp_all add: valid_network_def prefix_ok_def is_network_def host_mask_def)
  from networks_nested_or_disjoint[OF this]
  have "(\<forall>a. network_contains ?m a \<longrightarrow> network_contains ?n a)
      \<or> (\<forall>a. \<not> (network_contains ?m a \<and> network_contains ?n a))"
    by simp
  moreover have "network_contains ?m 0x0A010001" "\<not> network_contains ?m 0x0A020001"
      "network_contains ?n 0x0A010001"
    by (simp_all add: network_contains_def network_addr_def broadcast_addr_def host_mask_def)
  ultimately show ?thesis by blast
qed

lemma log2_nat_power: "log2_nat (2 ^ k) = k"
proof (induction k)
  case 0
  show ?case by (subst log2_nat.simps) simp
next
  case (Suc k)
  then show ?case by (subst log2_nat.simps) simp
qed

section \<open>Text round trips\<close>

lemma of_char_digit [simp]: "d < 10 \<Longrightarrow> of_char (digit_char d) = (48 + d :: nat)"
  by (simp add: digit_char_def)

lemma is_digit_digit [simp]: "d < 10 \<Longrightarrow> is_digit (digit_char d)"
  by (simp add: is_digit_def)

lemma not_space_digit: "is_digit c \<Longrightarrow> \<not> is_space c"
  by (auto simp: is_digit_def is_space_def)

lemma digits_val_snoc: "digits_val (ds @ [c]) = 10 * digits_val ds + (of_char c - 48)"
  by (simp add: digits_val_def)

lemma digits_val_dec: "digits_val (dec_of_nat n) = n"
proof (induction n rule: dec_of_nat.induct)
  case (1 n)
  show ?case
  proof (cases "n < 10")
    case True
    then show ?thesis by (subst dec_of_nat.simps) (simp add: digits_val_def)
  next
    case False
    then show ?thesis using 1 by (subst dec_of_nat.simps) (simp add: digits_val_snoc)
  qed
qed

lemma dec_digits: "list_all is_digit (dec_of_nat n) \<and> dec_of_nat n \<noteq> []"
proof (induction n rule: dec_of_nat.induct)
  case (1 n)
  then show ?case by (cases "n < 10") (simp_all add: dec_of_nat.simps[of n])
qed

lemma span_digits:
  assumes "list_all is_digit ds" and "rest = [] \<or> \<not> is_digit (hd rest)"
  shows "takeWhile is_digit (ds @ rest) = ds \<and> dropWhile is_digit (ds @ rest) = rest"
  using assms by (induction ds) (cases rest; auto)+

lemma to_c_int_small: "0 \<le> v \<Longrightarrow> v < 2 ^ 31 \<Longrightarrow> to_c_int v = v"
  by (simp add: to_c_int_def int_word_sint)

lemma not_sign: "is_digit c \<Longrightarrow> c \<noteq> CHR ''-'' \<and> c \<noteq> CHR ''+''"
  by (auto simp: is_digit_def)

lemma scan_int_dec:
  assumes "n < 2 ^ 31" and "rest = [] \<or> \<not> is_digit (hd rest)"
  shows "scan_int (dec_of_nat n @ rest) = Some (int n, rest)"
proof -
  obtain c ds where c: "dec_of_nat n = c # ds" "is_digit c"
    using dec_digits[of n] by (cases "dec_of_nat n") auto
  have sp: "dropWhile is_space (dec_of_nat n @ rest) = dec_of_nat n @ rest"
    using c not_space_digit by simp
  have sd: "takeWhile is_digit (dec_of_nat n @ rest) = dec_of_nat n"
      "dropWhile is_digit (dec_of_nat n @ rest) = rest"
    using span_digits[OF _ assms(2)] dec_digits by auto
  have "(case dec_of_nat n @ rest of [] \<Rightarrow> (False, dec_of_nat n @ rest)
      | c # r \<Rightarrow> if c = CHR ''-'' then (True, r) else if c = CHR ''+'' then (False, r)
        else (False, dec_of_nat n @ rest)) = (False, dec_of_nat n @ rest)"
    using c not_sign by simp
  then show ?thesis
    unfolding scan_int_def Let_def sp
    using sd dec_digits[of n] to_c_int_small[of "int n"] assms(1)
    by (simp add: digits_val_dec)
qed

lemma octet_of_less: "octet_of k v < 256"
proof -
  have "(255 :: ipv4) = mask 8" by (simp add: mask_eq_exp_minus_1)
  then show ?thesis unfolding octet_of_def by (simp only: unat_and_mask) simp
qed

lemma octet_of_eq: "octet_of k v = unat v div 2 ^ k mod 256"
proof -
  have "(255 :: ipv4) = mask 8" by (simp add: mask_eq_exp_minus_1)
  then show ?thesis unfolding octet_of_def by (simp only: unat_and_mask unat_drop) simp
qed

lemma scan_dotted_dec:
  assumes "a < 256" "b < 256" "c < 256" "d < 256" and "rest = [] \<or> \<not> is_digit (hd rest)"
  shows "scan_dotted (dec_of_nat a @ ''.'' @ dec_of_nat b @ ''.'' @ dec_of_nat c @ ''.''
      @ dec_of_nat d @ rest) = Some ([int a, int b, int c, int d], rest)"
proof -
  have dot: "scan_char CHR ''.'' (''.'' @ s) = Some s" "\<not> is_digit (hd (''.'' @ s))" for s
    by (simp_all add: scan_char_def is_digit_def)
  have st: "scan_int (dec_of_nat n @ ''.'' @ s) = Some (int n, ''.'' @ s)" if "n < 256" for n s
    using scan_int_dec[of n "''.'' @ s"] that dot(2) by simp
  have en: "scan_int (dec_of_nat d @ rest) = Some (int d, rest)"
    using scan_int_dec[of d rest] assms by simp
  show ?thesis
    unfolding scan_dotted_def
    by (simp only: st[OF assms(1)] st[OF assms(2)] st[OF assms(3)] en dot Option.bind_lunit
        prod.case)
qed

lemma push_octets:
  assumes "a < 256" "b < 256" "c < 256" "d < 256"
  shows "foldR push_octet [int a, int b, int c, int d] 0 =
    Inr (word_of_nat (((a * 256 + b) * 256 + c) * 256 + d))"
proof -
  have "push_octet (int x) v = Inr (v * 256 + word_of_nat x)" if "x < 256" for x v
    using that by (simp add: push_octet_def push_bit_eq_mult)
  then show ?thesis using assms by simp
qed

lemma nat_bytes:
  assumes "(v::nat) < 2 ^ 32"
  shows "((v div 2 ^ 24 mod 256 * 256 + v div 2 ^ 16 mod 256) * 256 + v div 2 ^ 8 mod 256) * 256
    + v mod 256 = v"
proof -
  have d: "v div 2 ^ 16 = v div 2 ^ 8 div 256" "v div 2 ^ 24 = v div 2 ^ 8 div 256 div 256"
    by (simp_all flip: div_mult2_eq)
  have "v div 2 ^ 8 div 256 div 256 < 256"
    unfolding div_mult2_eq[symmetric] using assms by (simp add: less_mult_imp_div_less)
  then have "v div 2 ^ 24 mod 256 = v div 2 ^ 8 div 256 div 256" unfolding d by simp
  then show ?thesis unfolding d by (simp add: div_mult_mod_eq)
qed

lemma no_nul_digit: "is_digit c \<Longrightarrow> c \<noteq> CHR 0x00"
  by (auto simp: is_digit_def)

lemma c_str_id: "CHR 0x00 \<notin> set s \<Longrightarrow> c_str s = s"
  by (auto simp: c_str_def takeWhile_eq_all_conv)

lemma no_nul_dec: "CHR 0x00 \<notin> set (dec_of_nat n)"
  using dec_digits[of n] no_nul_digit by (auto simp: list_all_iff)

lemma c_str_dotted: "c_str (ipv4_to_string v @ s) = ipv4_to_string v @ c_str s"
proof -
  have "\<forall>c \<in> set (ipv4_to_string v). c \<noteq> CHR 0x00"
    using no_nul_dec by (auto simp: ipv4_to_string_def)
  then show ?thesis by (simp add: c_str_def)
qed

lemma octets_of_string:
  assumes "rest = [] \<or> \<not> is_digit (hd rest)"
  shows "\<exists>os. scan_dotted (ipv4_to_string v @ rest) = Some (os, rest)
    \<and> foldR push_octet os 0 = Inr v"
proof -
  have n: "((octet_of 24 v * 256 + octet_of 16 v) * 256 + octet_of 8 v) * 256 + octet_of 0 v = unat v"
    using nat_bytes[of "unat v"] unsigned_less[of v, where 'a = nat] by (simp add: octet_of_eq)
  have "foldR push_octet
      [int (octet_of 24 v), int (octet_of 16 v), int (octet_of 8 v), int (octet_of 0 v)] 0 = Inr v"
    using push_octets[OF octet_of_less octet_of_less octet_of_less octet_of_less,
        of 24 v 16 v 8 v 0 v]
    unfolding n by simp
  then show ?thesis
    using scan_dotted_dec[OF octet_of_less octet_of_less octet_of_less octet_of_less assms,
        of 24 v 16 v 8 v 0 v]
    by (simp add: ipv4_to_string_def)
qed

text \<open>Parsing the text of any address gives the address back:
  \<open>IPv4Address(a.to_string()) == a\<close>, through the \<open>sscanf\<close> model.\<close>

theorem ipv4_string_roundtrip: "ipv4_of_string (ipv4_to_string v) = Inr v"
proof -
  have c: "c_str (ipv4_to_string v) = ipv4_to_string v"
    using c_str_dotted[of v "[]"] by (simp add: c_str_id)
  obtain os where "scan_dotted (ipv4_to_string v) = Some (os, [])" "foldR push_octet os 0 = Inr v"
    using octets_of_string[of "[]" v] by (metis append_Nil2)
  then show ?thesis by (simp add: ipv4_of_string_def c)
qed

lemma interface_string_roundtrip:
  assumes "prefix_ok (ip_prefix i)"
  shows "interface_of_string (interface_to_string i) = Inr i"
proof -
  let ?p = "dec_of_nat (nat (ip_prefix i))"
  obtain os where os: "scan_dotted (ipv4_to_string (ip_value i) @ ''/'' @ ?p) = Some (os, ''/'' @ ?p)"
      "foldR push_octet os 0 = Inr (ip_value i)"
    using octets_of_string[of "''/'' @ ?p" "ip_value i"] by (auto simp: is_digit_def)
  have "c_str (''/'' @ ?p) = ''/'' @ ?p"
    by (rule c_str_id) (simp add: no_nul_dec)
  then have c: "c_str (interface_to_string i) = interface_to_string i"
    by (simp add: interface_to_string_def c_str_dotted)
  have r: "nat (ip_prefix i) < 2 ^ 31" "int (nat (ip_prefix i)) = ip_prefix i"
    using assms by (auto simp: prefix_ok_def)
  have "scan_cidr (interface_to_string i) = Some (os, ip_prefix i, [])"
    using os(1) scan_int_dec[OF r(1), of "[]"] r(2)
    by (simp add: scan_cidr_def interface_to_string_def scan_char_def)
  then show ?thesis
    using os(2) c assms by (simp add: interface_of_string_def mk_interface_def)
qed

section \<open>Ranges of networks\<close>

lemma mask_32: "mask 32 = (- 1 :: ipv4)"
  by (simp add: mask_eq_exp_minus_1)

lemma range_size_network:
  assumes "valid_network n"
  shows "range_size (range_of_network n) =
    (if ip_prefix n = 1 then Inl Undefined_behaviour
     else Inr (if ip_prefix n = 0 then 0 else 2 ^ host_bits n))"
proof -
  let ?k = "host_bits n"
  have k: "?k \<le> 32" using host_bits_le[OF assms] .
  have p: "0 \<le> ip_prefix n" "ip_prefix n \<le> 32"
    using valid_networkD(1)[OF assms] by (auto simp: prefix_ok_def)
  have "broadcast_addr n = ip_value n + mask ?k"
    using valid_networkD[OF assms] disjunctive_add_eq_or[of "ip_value n" "mask ?k"]
    by (simp add: broadcast_addr_def)
  then have d: "ipv4_diff (broadcast_addr n) (network_addr n) = sint (mask ?k :: ipv4)"
    by (simp add: ipv4_diff_def network_addr_def)
  consider "ip_prefix n = 0" | "ip_prefix n = 1" | "2 \<le> ip_prefix n" using p by linarith
  then show ?thesis
  proof cases
    case 1
    then have "?k = 32" by (simp add: host_bits_def)
    then have "sint (mask ?k :: ipv4) = -1" by (simp add: mask_32)
    then show ?thesis using d 1 by (simp add: range_size_def range_of_network_def)
  next
    case 2
    then have "?k = 31" by (simp add: host_bits_def)
    then have "sint (mask ?k :: ipv4) = 2 ^ 31 - 1" by (simp add: mask_eq_exp_minus_1)
    then show ?thesis using d 2 by (simp add: range_size_def range_of_network_def)
  next
    case 3
    then have k30: "?k \<le> 30" by (simp add: host_bits_def)
    then have b: "(2::int) ^ ?k \<le> 2 ^ 30" by (intro power_increasing) auto
    have "sint (mask ?k :: ipv4) = sint (word_of_int (2 ^ ?k - 1) :: ipv4)"
      by (simp add: mask_eq_exp_minus_1)
    also have "\<dots> = 2 ^ ?k - 1"
    proof -
      have "0 \<le> (2::int) ^ ?k - 1" by simp
      then show ?thesis using b by (simp add: int_word_sint del: of_int_diff)
    qed
    finally have s: "sint (mask ?k :: ipv4) = 2 ^ ?k - 1" .
    show ?thesis using d 3 b by (simp add: range_size_def range_of_network_def s)
  qed
qed

text \<open>C40. Converting a network to a range and back gives the network for every
  prefix length of at least 2; for \<open>/0\<close> and \<open>/1\<close> the conversion is undefined, because
  \<open>IPRange::size()\<close> computes in \<open>int\<close>.\<close>

theorem range_network_roundtrip:
  assumes "valid_network n"
  shows "network_of_range (range_of_network n) =
    (if ip_prefix n < 2 then Inl Undefined_behaviour else Inr n)"
proof -
  let ?k = "host_bits n"
  have p: "0 \<le> ip_prefix n" "ip_prefix n \<le> 32"
    using valid_networkD(1)[OF assms] by (auto simp: prefix_ok_def)
  consider "ip_prefix n = 0" | "ip_prefix n = 1" | "2 \<le> ip_prefix n" using p by linarith
  then show ?thesis
  proof cases
    case 1
    then have "?k = 32" by (simp add: host_bits_def)
    then have "ip_value n = 0"
      using valid_networkD(2)[OF assms] by (simp add: mask_32)
    then show ?thesis using 1 range_size_network[OF assms]
      by (simp add: network_of_range_def range_of_network_def network_addr_def)
  next
    case 2
    then show ?thesis using range_size_network[OF assms] by (simp add: network_of_range_def)
  next
    case 3
    then have k30: "?k \<le> 30" by (simp add: host_bits_def)
    have sz: "range_size (range_of_network n) = Inr (2 ^ ?k)"
      using 3 range_size_network[OF assms] by simp
    have "(2::nat) ^ ?k < 2 ^ 32" using k30 by (intro power_strict_increasing) auto
    then have u: "unat (2 ^ ?k :: ipv4) = 2 ^ ?k" 
      using unat_of_nat[of "2 ^ ?k", where 'a = 32] by simp
    have nz: "(2 ^ ?k :: ipv4) \<noteq> 0" using u by (metis power_not_zero unat_0 zero_neq_numeral)
    have m: "(2 ^ ?k :: ipv4) - 1 = mask ?k" by (simp add: mask_eq_exp_minus_1)
    have uc: "ucast (2 ^ ?k :: 64 word) = (2 ^ ?k :: ipv4)"
    proof -
      have "(2::nat) ^ ?k < 2 ^ 64" using k30 by (intro power_strict_increasing) auto
      then have "unat (2 ^ ?k :: 64 word) = 2 ^ ?k"
        using unat_of_nat[of "2 ^ ?k", where 'a = 64] by simp
      then have "(word_of_nat (unat (2 ^ ?k :: 64 word)) :: ipv4) = 2 ^ ?k" by simp
      then show ?thesis by simp
    qed
    have "unat ((2 ^ ?k :: ipv4) AND mask ?k) = 0" using u by (simp add: unat_and_mask)
    then have "(2 ^ ?k :: ipv4) AND mask ?k = 0" by (metis unat_eq_zero)
    then have "network_of_range (range_of_network n) =
        Inr \<lparr>ip_value = ip_value n, ip_prefix = 32 - int (log2_nat (2 ^ ?k))\<rparr>"
      unfolding network_of_range_def sz bindR_Inr Let_def uc m u
      using valid_networkD(2)[OF assms] nz by (simp add: range_of_network_def network_addr_def)
    then show ?thesis using 3 p by (simp add: log2_nat_power host_bits_def)
  qed
qed

theorem range_network_roundtrip_witness:
  "network_of_range (range_of_network \<lparr>ip_value = 0x0A000000, ip_prefix = 8\<rparr>) =
      Inr \<lparr>ip_value = 0x0A000000, ip_prefix = 8\<rparr>
   \<and> network_of_range (range_of_network \<lparr>ip_value = 0, ip_prefix = 0\<rparr>) = Inl Undefined_behaviour"
proof -
  have "valid_network \<lparr>ip_value = 0x0A000000, ip_prefix = 8\<rparr>"
      "valid_network \<lparr>ip_value = 0, ip_prefix = 0\<rparr>"
    by (simp_all add: valid_network_def prefix_ok_def is_network_def host_mask_def)
  then show ?thesis using range_network_roundtrip by fastforce
qed

lemma network_contains_range_iff:
  "network_contains n a \<longleftrightarrow> range_contains (range_of_network n) a"
  by (simp add: network_contains_def range_contains_def range_of_network_def)

end
