(* ===== verification/EqClasses.thy ===== *)
theory EqClasses
  imports IPv4
begin

text \<open>
  Packet equivalence classes: \<open>ECRange\<close> (\<open>src/ecrange.cpp\<close>), \<open>EqClass\<close> (\<open>src/eqclass.cpp\<close>) and
  \<open>EqClassMgr\<close> (\<open>src/eqclassmgr.cpp\<close>). An \<open>EqClass *\<close> is a natural number, the objects live in
  the map \<open>ec_heap\<close>, and \<open>new EqClass()\<close> takes its address from the allocator parameter
  \<open>alloc\<close>, applied to the addresses in use. The manager's set of ranges is ordered by the code's
  comparator, under which overlapping ranges are equivalent.
\<close>

section \<open>Ranges\<close>

record ecrange = ip_range +
  ec_ptr :: nat   \<comment> \<open>\<open>EqClass *ec\<close>; 0 is the null pointer\<close>

definition new_ecrange :: "ipv4 \<Rightarrow> ipv4 \<Rightarrow> ecrange result" where
  "new_ecrange l u =
     bindR (mk_range l u) (\<lambda>r. Inr \<lparr>r_lb = r_lb r, r_ub = r_ub r, ec_ptr = 0\<rparr>)"

definition ecrange_of_network :: "ip_network \<Rightarrow> ecrange" where
  "ecrange_of_network n =
     \<lparr>r_lb = network_addr n, r_ub = broadcast_addr n, ec_ptr = 0\<rparr>"

definition ecrange_of_range :: "ip_range \<Rightarrow> ecrange" where
  "ecrange_of_range r = \<lparr>r_lb = r_lb r, r_ub = r_ub r, ec_ptr = 0\<rparr>"

definition set_ec :: "nat \<Rightarrow> ecrange \<Rightarrow> ecrange" where
  "set_ec p r = r\<lparr>ec_ptr := p\<rparr>"

definition set_lb :: "ipv4 \<Rightarrow> ecrange \<Rightarrow> ecrange" where
  "set_lb a r = r\<lparr>r_lb := a\<rparr>"

definition set_ub :: "ipv4 \<Rightarrow> ecrange \<Rightarrow> ecrange" where
  "set_ub a r = r\<lparr>r_ub := a\<rparr>"

definition identical_to :: "ecrange \<Rightarrow> ecrange \<Rightarrow> bool" where
  "identical_to a b \<longleftrightarrow> r_lb a = r_lb b \<and> r_ub a = r_ub b"

definition ecrange_contains :: "ecrange \<Rightarrow> ecrange \<Rightarrow> bool" where
  "ecrange_contains a b \<longleftrightarrow> r_lb a \<le> r_lb b \<and> r_ub b \<le> r_ub a"

definition ecrange_less :: "ecrange \<Rightarrow> ecrange \<Rightarrow> bool" where
  "ecrange_less a b \<longleftrightarrow> r_ub a < r_lb b"

definition ecrange_greater :: "ecrange \<Rightarrow> ecrange \<Rightarrow> bool" where
  "ecrange_greater a b \<longleftrightarrow> r_lb a > r_ub b"

definition ecrange_le :: "ecrange \<Rightarrow> ecrange \<Rightarrow> bool" where
  "ecrange_le a b \<longleftrightarrow> \<not> ecrange_greater a b"

definition ecrange_ge :: "ecrange \<Rightarrow> ecrange \<Rightarrow> bool" where
  "ecrange_ge a b \<longleftrightarrow> \<not> ecrange_less a b"

definition ecrange_eq :: "ecrange \<Rightarrow> ecrange \<Rightarrow> bool" where
  "ecrange_eq a b \<longleftrightarrow> ecrange_le a b \<and> ecrange_ge a b"

definition ecrange_neq :: "ecrange \<Rightarrow> ecrange \<Rightarrow> bool" where
  "ecrange_neq a b \<longleftrightarrow> ecrange_less a b \<or> ecrange_greater a b"

section \<open>Classes\<close>

type_synonym eqclass = "ecrange list"

definition ec_empty :: "eqclass \<Rightarrow> bool" where
  "ec_empty ec \<longleftrightarrow> ec = []"

definition add_range :: "ecrange \<Rightarrow> eqclass \<Rightarrow> eqclass" where
  "add_range r ec = set_insert ecrange_less r ec"

text \<open>\<open>erase\<close> by key removes every equivalent element, so the loop body of \<open>rm_range\<close> finds
  something to remove at most once; the recursion is on the size of the set.\<close>

function rm_range :: "ecrange \<Rightarrow> eqclass \<Rightarrow> eqclass" where
  "rm_range r ec =
     (let ec' = set_erase ecrange_less r ec
      in if length ec' < length ec then rm_range r ec' else ec')"
  by pat_completeness auto
termination by (relation "measure (length \<circ> snd)") auto

declare rm_range.simps [simp del]

definition ec_contains :: "eqclass \<Rightarrow> ipv4 \<Rightarrow> bool" where
  "ec_contains ec a \<longleftrightarrow> list_ex (\<lambda>r. range_contains r a) ec"

definition representative_addr :: "eqclass \<Rightarrow> ipv4 result" where
  "representative_addr ec =
     (case ec of [] \<Rightarrow> Inl Undefined_behaviour | r # _ \<Rightarrow> Inr (r_lb r))"

text \<open>\<open>ECRange::contains(const EqClass &)\<close> dereferences \<open>begin()\<close> and \<open>rbegin()\<close>.\<close>

definition ecrange_contains_ec :: "ecrange \<Rightarrow> eqclass \<Rightarrow> bool result" where
  "ecrange_contains_ec r ec =
     (if ec = [] then Inl Undefined_behaviour
      else Inr (r_lb r \<le> r_lb (hd ec) \<and> r_ub (last ec) \<le> r_ub r))"

definition eqclass_eq :: "eqclass \<Rightarrow> eqclass \<Rightarrow> bool" where
  "eqclass_eq a b \<longleftrightarrow>
     (if length a \<noteq> length b then False else list_all (\<lambda>(x, y). identical_to x y) (zip a b))"

section \<open>The manager\<close>

record eqclassmgr =
  allranges :: "ecrange list"
  all_ecs :: "nat list"
  owned_ecs :: "nat list"
  mgr_ports :: "16 word list"
  ec_heap :: "nat \<rightharpoonup> eqclass"

definition ecmgr_init :: eqclassmgr where
  "ecmgr_init =
     \<lparr>allranges = [], all_ecs = [], owned_ecs = [], mgr_ports = [], ec_heap = Map.empty\<rparr>"

definition ecmgr_reset :: "eqclassmgr \<Rightarrow> eqclassmgr" where
  "ecmgr_reset m =
     m\<lparr>ec_heap := ec_heap m |` (- set (all_ecs m)), allranges := [], all_ecs := [],
       owned_ecs := [], mgr_ports := []\<rparr>"

definition deref_ec :: "eqclassmgr \<Rightarrow> nat \<Rightarrow> eqclass result" where
  "deref_ec m p = (case ec_heap m p of None \<Rightarrow> Inl Undefined_behaviour | Some ec \<Rightarrow> Inr ec)"

definition upd_ec :: "nat \<Rightarrow> (eqclass \<Rightarrow> eqclass) \<Rightarrow> eqclassmgr \<Rightarrow> eqclassmgr" where
  "upd_ec p f m = m\<lparr>ec_heap := (ec_heap m)(p := map_option f (ec_heap m p))\<rparr>"

definition insert_range :: "ecrange \<Rightarrow> eqclassmgr \<Rightarrow> eqclassmgr" where
  "insert_range r m = m\<lparr>allranges := set_insert ecrange_less r (allranges m)\<rparr>"

definition new_ec :: "(nat list \<Rightarrow> nat) \<Rightarrow> eqclassmgr \<Rightarrow> nat \<times> eqclassmgr" where
  "new_ec alloc m = (let p = alloc (all_ecs m) in (p, m\<lparr>ec_heap := (ec_heap m)(p \<mapsto> [])\<rparr>))"

text \<open>The body of the loop of \<open>split_intersected_ec\<close>, for one range of the original class.\<close>

definition split_lower :: "nat \<Rightarrow> ecrange \<Rightarrow> ecrange \<times> eqclassmgr \<Rightarrow> ecrange \<times> eqclassmgr" where
  "split_lower ec rng = (\<lambda>(er, m).
     if r_lb er < r_lb rng then
       let lower = set_ub (r_lb rng - 1) er
       in (set_lb (r_lb rng) er, insert_range lower (upd_ec ec (add_range lower) m))
     else (er, m))"

definition split_upper :: "nat \<Rightarrow> ecrange \<Rightarrow> ecrange \<times> eqclassmgr \<Rightarrow> ecrange \<times> eqclassmgr" where
  "split_upper ec rng = (\<lambda>(er, m).
     if r_ub rng < r_ub er then
       let upper = set_lb (r_ub rng + 1) er
       in (set_ub (r_ub rng) er, insert_range upper (upd_ec ec (add_range upper) m))
     else (er, m))"

definition split_range :: "nat \<Rightarrow> nat \<Rightarrow> ecrange \<Rightarrow> ecrange \<Rightarrow> eqclassmgr \<Rightarrow> eqclassmgr" where
  "split_range ec nec rng er m =
     (if ecrange_eq er rng then
        let m1 = m\<lparr>allranges := set_erase ecrange_less er (allranges m)\<rparr>;
            m2 = upd_ec ec (rm_range er) m1;
            (er', m3) = split_upper ec rng (split_lower ec rng (er, m2));
            mid = set_ec nec er'
        in insert_range mid (upd_ec nec (add_range mid) m3)
      else m)"

definition split_intersected_ec ::
    "(nat list \<Rightarrow> nat) \<Rightarrow> nat \<Rightarrow> ecrange \<Rightarrow> bool \<Rightarrow> eqclassmgr \<Rightarrow> eqclassmgr result" where
  "split_intersected_ec alloc ec rng owned m =
     (let (nec, m1) = new_ec alloc m in
      bindR (deref_ec m1 ec) (\<lambda>orig.
      let m2 = fold (split_range ec nec rng) orig m1 in
      bindR (deref_ec m2 nec) (\<lambda>n.
      bindR (assertR (\<not> ec_empty n)) (\<lambda>_.
      let m3 = m2\<lparr>all_ecs := oset_insert nec (all_ecs m2)\<rparr> in
      Inr (if owned \<or> ec \<in> set (owned_ecs m3)
           then m3\<lparr>owned_ecs := oset_insert nec (owned_ecs m3)\<rparr> else m3)))))"

text \<open>
  \<open>add_non_overlapped_ec\<close>: \<open>add_gap\<close> is the creation of one range of the new class (both of its
  occurrences in the code), \<open>add_gaps\<close> the loop over the overlapped ranges with its cursor
  \<open>lb\<close>, which wraps after an upper bound of 255.255.255.255. New ranges are inserted before
  the loop's iterator, so the loop visits the elements the set had when it began.
\<close>

definition add_gap :: "nat \<Rightarrow> ipv4 \<Rightarrow> ipv4 \<Rightarrow> eqclassmgr \<Rightarrow> eqclassmgr result" where
  "add_gap nec l u m =
     bindR (new_ecrange l u) (\<lambda>r.
     let r' = set_ec nec r in Inr (insert_range r' (upd_ec nec (add_range r') m)))"

fun add_gaps :: "nat \<Rightarrow> ecrange list \<Rightarrow> ipv4 \<Rightarrow> eqclassmgr \<Rightarrow> (ipv4 \<times> eqclassmgr) result" where
  "add_gaps nec [] l m = Inr (l, m)"
| "add_gaps nec (it # its) l m =
     bindR (if l < r_lb it then add_gap nec l (r_lb it - 1) m else Inr m)
       (\<lambda>m'. add_gaps nec its (r_ub it + 1) m')"

definition add_non_overlapped_ec ::
    "(nat list \<Rightarrow> nat) \<Rightarrow> ecrange \<Rightarrow> bool \<Rightarrow> eqclassmgr \<Rightarrow> eqclassmgr result" where
  "add_non_overlapped_ec alloc rng owned m =
     (let (nec, m1) = new_ec alloc m;
          its = takeWhile (\<lambda>it. ecrange_eq it rng)
                  (dropWhile (\<lambda>it. ecrange_neq it rng) (allranges m1))
      in bindR (add_gaps nec its (r_lb rng) m1) (\<lambda>(l, m2).
         bindR (if l \<le> r_ub rng then add_gap nec l (r_ub rng) m2 else Inr m2) (\<lambda>m3.
         bindR (deref_ec m3 nec) (\<lambda>n.
         if ec_empty n then Inr (m3\<lparr>ec_heap := (ec_heap m3)(nec := None)\<rparr>)
         else let m4 = m3\<lparr>all_ecs := oset_insert nec (all_ecs m3)\<rparr>
              in Inr (if owned then m4\<lparr>owned_ecs := oset_insert nec (owned_ecs m4)\<rparr>
                      else m4)))))"

text \<open>\<open>get_overlapped_ecs\<close> walks backwards and then forwards from the range it found.\<close>

definition insert_overlapped :: "bool \<Rightarrow> eqclassmgr \<Rightarrow> ecrange \<Rightarrow> nat list \<Rightarrow> nat list" where
  "insert_overlapped owned_only m r ecs =
     (if \<not> owned_only \<or> ec_ptr r \<in> set (owned_ecs m) then oset_insert (ec_ptr r) ecs else ecs)"

definition get_overlapped_ecs :: "ecrange \<Rightarrow> bool \<Rightarrow> eqclassmgr \<Rightarrow> nat list" where
  "get_overlapped_ecs rng owned_only m =
     (case set_find ecrange_less rng (allranges m) of
        None \<Rightarrow> []
      | Some _ \<Rightarrow>
          let forward = lower_bound ecrange_less rng (allranges m);
              backward = rev (take (length (allranges m) - length forward) (allranges m));
              overlaps = (\<lambda>r. ecrange_eq r rng)
          in fold (insert_overlapped owned_only m)
               (takeWhile overlaps backward @ takeWhile overlaps forward) [])"

definition add_overlapped ::
    "(nat list \<Rightarrow> nat) \<Rightarrow> ecrange \<Rightarrow> bool \<Rightarrow> nat \<Rightarrow> eqclassmgr \<Rightarrow> eqclassmgr result" where
  "add_overlapped alloc rng owned ec m =
     bindR (deref_ec m ec) (\<lambda>c.
     bindR (ecrange_contains_ec rng c) (\<lambda>inside.
     if \<not> inside then split_intersected_ec alloc ec rng owned m
     else if owned then Inr (m\<lparr>owned_ecs := oset_insert ec (owned_ecs m)\<rparr>)
     else Inr m))"

definition add_ec :: "(nat list \<Rightarrow> nat) \<Rightarrow> ecrange \<Rightarrow> bool \<Rightarrow> eqclassmgr \<Rightarrow> eqclassmgr result" where
  "add_ec alloc rng owned m =
     bindR (foldR (add_overlapped alloc rng owned) (get_overlapped_ecs rng False m) m)
       (add_non_overlapped_ec alloc rng owned)"

definition add_ec_net :: "(nat list \<Rightarrow> nat) \<Rightarrow> ip_network \<Rightarrow> eqclassmgr \<Rightarrow> eqclassmgr result" where
  "add_ec_net alloc net m = add_ec alloc (ecrange_of_network net) False m"

definition add_ec_addr ::
    "(nat list \<Rightarrow> nat) \<Rightarrow> ipv4 \<Rightarrow> bool \<Rightarrow> eqclassmgr \<Rightarrow> eqclassmgr result" where
  "add_ec_addr alloc a owned m = bindR (new_ecrange a a) (\<lambda>r. add_ec alloc r owned m)"

definition find_ec :: "ipv4 \<Rightarrow> eqclassmgr \<Rightarrow> nat result" where
  "find_ec ip m =
     bindR (new_ecrange ip ip) (\<lambda>r.
     case set_find ecrange_less r (allranges m) of
       None \<Rightarrow> Inl (Runtime_error ''Cannot find the EC of '')
     | Some it \<Rightarrow> Inr (ec_ptr it))"

section \<open>Ranges as intervals\<close>

lemma word_le_pred: "(y :: ipv4) < x \<Longrightarrow> a \<le> x - 1 \<longleftrightarrow> a < x"
proof -
  assume "y < x"
  then have "x \<noteq> 0" by auto
  then have "unat (x - 1) = unat x - 1" "0 < unat x"
    by (simp_all add: unat_minus_one unat_gt_0)
  then show ?thesis by (auto simp: word_le_nat_alt word_less_nat_alt)
qed

lemma word_succ_le: "(x :: ipv4) < y \<Longrightarrow> x + 1 \<le> a \<longleftrightarrow> x < a"
proof -
  assume "x < y"
  then have "unat x + 1 < 2 ^ 32"
    using unsigned_less[of y, where 'a = nat] by (simp add: word_less_nat_alt)
  then have "unat (x + 1) = unat x + 1" by (simp add: unat_word_ariths)
  then show ?thesis by (auto simp: word_le_nat_alt word_less_nat_alt)
qed

definition range_ok :: "'a ip_range_scheme \<Rightarrow> bool" where
  "range_ok r \<longleftrightarrow> r_lb r \<le> r_ub r"

interpretation ecr: strict_ordered range_ok ecrange_less
  by unfold_locales (auto simp: range_ok_def ecrange_less_def)

definition apart :: "ecrange \<Rightarrow> ecrange \<Rightarrow> bool" where
  "apart x y \<longleftrightarrow> ecrange_less x y \<or> ecrange_less y x"

lemma apart_sym: "apart x y \<Longrightarrow> apart y x"
  by (auto simp: apart_def)

lemma not_apart_iff:
  "range_ok x \<Longrightarrow> range_ok y \<Longrightarrow>
     \<not> apart x y \<longleftrightarrow> (\<exists>a. range_contains x a \<and> range_contains y a)"
proof -
  assume ok: "range_ok x" "range_ok y"
  show ?thesis
  proof
    assume "\<not> apart x y"
    then have "range_contains x (max (r_lb x) (r_lb y)) \<and> range_contains y (max (r_lb x) (r_lb y))"
      using ok by (auto simp: apart_def ecrange_less_def range_contains_def range_ok_def max_def)
    then show "\<exists>a. range_contains x a \<and> range_contains y a" by blast
  qed (auto simp: apart_def ecrange_less_def range_contains_def)
qed

lemma ecrange_eq_iff: "ecrange_eq x y \<longleftrightarrow> \<not> apart x y"
  and ecrange_neq_iff: "ecrange_neq x y \<longleftrightarrow> apart x y"
  by (auto simp: ecrange_eq_def ecrange_neq_def ecrange_le_def ecrange_ge_def ecrange_greater_def
      ecrange_less_def apart_def)

text \<open>Membership of a range in another, as addresses and as bounds.\<close>

definition inside :: "ecrange \<Rightarrow> ecrange \<Rightarrow> bool" where
  "inside x y \<longleftrightarrow> r_lb y \<le> r_lb x \<and> r_ub x \<le> r_ub y"

lemma apart_inside: "apart y z \<Longrightarrow> inside x y \<Longrightarrow> apart x z"
  by (auto simp: apart_def inside_def ecrange_less_def)

lemma inside_iff:
  "range_ok x \<Longrightarrow> inside x y \<longleftrightarrow> (\<forall>a. range_contains x a \<longrightarrow> range_contains y a)"
  by (auto simp: inside_def range_contains_def range_ok_def)

lemma wf_apart:
  assumes "ecr.wf_set xs" and "x \<in> set xs" and "y \<in> set xs" and "x \<noteq> y"
  shows "apart x y"
  using ecr.wf_set_comparable[OF assms] by (simp add: apart_def)

lemma wf_unique:
  assumes "ecr.wf_set xs" and "x \<in> set xs" and "y \<in> set xs"
    and "range_contains x a" and "range_contains y a"
  shows "x = y"
  using wf_apart[OF assms(1-3)] not_apart_iff ecr.wf_setD[OF assms(1)] assms by blast

lemma set_insert_apart:
  assumes "ecr.wf_set xs" and "range_ok x" and "\<And>y. y \<in> set xs \<Longrightarrow> apart x y"
  shows "ecr.wf_set (set_insert ecrange_less x xs)"
    and "set (set_insert ecrange_less x xs) = insert x (set xs)"
proof -
  have "set_find ecrange_less x xs = None"
    using ecr.set_find_None_iff[OF assms(1,2)] assms(3) by (auto simp: apart_def)
  then show "set (set_insert ecrange_less x xs) = insert x (set xs)"
    by (simp add: ecr.set_set_insert[OF assms(1,2)])
  show "ecr.wf_set (set_insert ecrange_less x xs)" by (rule ecr.set_insert_wf[OF assms(1,2)])
qed

lemma set_insert_overlapping:
  assumes "ecr.wf_set xs" and "range_ok x" and "y \<in> set xs" and "\<not> apart x y"
  shows "set_insert ecrange_less x xs = xs"
proof -
  have "set_find ecrange_less x xs \<noteq> None"
    using ecr.set_find_None_iff[OF assms(1,2)] assms(3,4) by (auto simp: apart_def)
  then show ?thesis by (rule ecr.set_insert_spec(2)[OF assms(1,2)])
qed

lemma fold_insert_apart:
  assumes "ecr.wf_set xs" and "\<And>x. x \<in> set ps \<Longrightarrow> range_ok x" and "sorted_wrt apart ps"
    and "\<And>x y. x \<in> set ps \<Longrightarrow> y \<in> set xs \<Longrightarrow> apart x y"
  shows "ecr.wf_set (fold (set_insert ecrange_less) ps xs)
    \<and> set (fold (set_insert ecrange_less) ps xs) = set ps \<union> set xs"
  using assms
proof (induction ps arbitrary: xs)
  case Nil
  then show ?case by simp
next
  case (Cons p ps)
  note ins = set_insert_apart[of xs p]
  have "ecr.wf_set (set_insert ecrange_less p xs)"
      "set (set_insert ecrange_less p xs) = insert p (set xs)"
    using ins Cons.prems by auto
  moreover have "apart x y" if "x \<in> set ps" "y \<in> insert p (set xs)" for x y
    using that Cons.prems(3,4) apart_sym by auto
  ultimately show ?case
    using Cons.IH[of "set_insert ecrange_less p xs"] Cons.prems(2,3) by simp
qed

lemma erase_member:
  assumes "ecr.wf_set xs" and "x \<in> set xs"
  shows "ecr.wf_set (set_erase ecrange_less x xs)"
    and "set (set_erase ecrange_less x xs) = set xs - {x}"
  using ecr.set_erase_mem[OF assms] ecr.wf_set_filter[OF assms(1)] by auto

lemma rm_range_eq:
  assumes "ecr.wf_set xs" and "x \<in> set xs"
  shows "rm_range x xs = set_erase ecrange_less x xs"
proof -
  let ?ys = "set_erase ecrange_less x xs"
  have ok: "range_ok x" using ecr.wf_setD[OF assms] .
  have "set_erase ecrange_less x ?ys = ?ys"
    using ecr.set_erase_filter[OF erase_member(1)[OF assms] ok] ecr.set_erase_filter[OF assms(1) ok]
    by simp
  then have "rm_range x ?ys = ?ys" by (subst rm_range.simps) simp
  then show ?thesis by (subst rm_range.simps) (auto simp: Let_def)
qed


text \<open>What one step of the split leaves of a range: the parts below and above the new range,
  and the part inside it.\<close>

definition outer_pieces :: "ecrange \<Rightarrow> ecrange \<Rightarrow> ecrange list" where
  "outer_pieces rng er =
     (if r_lb er < r_lb rng then [set_ub (r_lb rng - 1) er] else []) @
     (if r_ub rng < r_ub er then [set_lb (r_ub rng + 1) er] else [])"

definition inner_piece :: "nat \<Rightarrow> ecrange \<Rightarrow> ecrange \<Rightarrow> ecrange" where
  "inner_piece nec rng er =
     er\<lparr>r_lb := max (r_lb er) (r_lb rng), r_ub := min (r_ub er) (r_ub rng), ec_ptr := nec\<rparr>"

lemma pieces_apart:
  assumes "range_ok er" and "range_ok rng" and "\<not> apart er rng"
  shows "\<forall>x \<in> set (outer_pieces rng er). range_ok x \<and> inside x er \<and> ec_ptr x = ec_ptr er
      \<and> apart x (inner_piece nec rng er)"
    and "sorted_wrt apart (outer_pieces rng er)"
    and "range_ok (inner_piece nec rng er)" and "inside (inner_piece nec rng er) er"
    and "ec_ptr (inner_piece nec rng er) = nec"
proof -
  have b: "r_lb er \<le> r_ub rng" "r_lb rng \<le> r_ub er" "r_lb er \<le> r_ub er" "r_lb rng \<le> r_ub rng"
    using assms by (auto simp: apart_def ecrange_less_def range_ok_def)
  have lo: "a \<le> r_lb rng - 1 \<longleftrightarrow> a < r_lb rng" "r_lb rng - 1 < a \<longleftrightarrow> r_lb rng \<le> a"
      "r_lb rng - 1 \<le> r_ub er" "r_lb rng - 1 \<le> r_ub rng"
    if "r_lb er < r_lb rng" for a
    using word_le_pred[OF that, of a] word_le_pred[OF that, of "r_lb rng - 1"] b by auto
  have up: "r_ub rng + 1 \<le> a \<longleftrightarrow> r_ub rng < a" "a < r_ub rng + 1 \<longleftrightarrow> a \<le> r_ub rng"
      "r_lb er \<le> r_ub rng + 1" "r_lb rng \<le> r_ub rng + 1"
    if "r_ub rng < r_ub er" for a
    using word_succ_le[OF that, of a] word_succ_le[OF that, of "r_ub rng + 1"] b by auto
  show "\<forall>x \<in> set (outer_pieces rng er). range_ok x \<and> inside x er \<and> ec_ptr x = ec_ptr er
      \<and> apart x (inner_piece nec rng er)"
    using b lo up
    by (auto simp: outer_pieces_def inner_piece_def range_ok_def inside_def set_lb_def set_ub_def
        apart_def ecrange_less_def)
  show "sorted_wrt apart (outer_pieces rng er)"
    using b lo up
    by (auto simp: outer_pieces_def set_lb_def set_ub_def apart_def ecrange_less_def)
  show "range_ok (inner_piece nec rng er)" "inside (inner_piece nec rng er) er"
    "ec_ptr (inner_piece nec rng er) = nec"
    using b by (auto simp: inner_piece_def range_ok_def inside_def)
qed

lemma inner_contains:
  "range_contains (inner_piece nec rng er) a \<longleftrightarrow> range_contains er a \<and> range_contains rng a"
  by (auto simp: inner_piece_def range_contains_def)

lemma outer_contains:
  assumes "range_ok er" and "range_ok rng" and "\<not> apart er rng"
  shows "(\<exists>x \<in> set (outer_pieces rng er). range_contains x a) \<longleftrightarrow>
    range_contains er a \<and> \<not> range_contains rng a"
proof -
  have b: "r_lb er \<le> r_ub rng" "r_lb rng \<le> r_ub er" "r_lb er \<le> r_ub er" "r_lb rng \<le> r_ub rng"
    using assms by (auto simp: apart_def ecrange_less_def range_ok_def)
  have lo: "a \<le> r_lb rng - 1 \<longleftrightarrow> a < r_lb rng" if "r_lb er < r_lb rng"
    using word_le_pred[OF that, of a] by auto
  have up: "r_ub rng + 1 \<le> a \<longleftrightarrow> r_ub rng < a" if "r_ub rng < r_ub er"
    using word_succ_le[OF that, of a] by auto
  show ?thesis
    using b lo up
    by (cases "r_lb er < r_lb rng"; cases "r_ub rng < r_ub er")
       (auto simp: outer_pieces_def set_lb_def set_ub_def range_contains_def)
qed

lemma upd_ec_simps [simp]:
  "allranges (upd_ec p f m) = allranges m" "all_ecs (upd_ec p f m) = all_ecs m"
  "owned_ecs (upd_ec p f m) = owned_ecs m" "mgr_ports (upd_ec p f m) = mgr_ports m"
  "ec_heap (upd_ec p f m) = (ec_heap m)(p := map_option f (ec_heap m p))"
  by (simp_all add: upd_ec_def)

lemma insert_range_simps [simp]:
  "allranges (insert_range r m) = set_insert ecrange_less r (allranges m)"
  "all_ecs (insert_range r m) = all_ecs m" "owned_ecs (insert_range r m) = owned_ecs m"
  "mgr_ports (insert_range r m) = mgr_ports m" "ec_heap (insert_range r m) = ec_heap m"
  by (simp_all add: insert_range_def)

lemma split_outer_eq:
  "split_upper ec rng (split_lower ec rng (er, m)) =
     (er\<lparr>r_lb := max (r_lb er) (r_lb rng), r_ub := min (r_ub er) (r_ub rng)\<rparr>,
      fold (\<lambda>x. insert_range x \<circ> upd_ec ec (add_range x)) (outer_pieces rng er) m)"
  by (auto simp: split_upper_def split_lower_def outer_pieces_def Let_def set_lb_def set_ub_def
      max_def min_def)

lemma fold_insert_upd:
  fixes m ec ps
  defines "m' \<equiv> fold (\<lambda>x. insert_range x \<circ> upd_ec ec (add_range x)) ps m"
  shows "allranges m' = fold (set_insert ecrange_less) ps (allranges m)
    \<and> (\<forall>q. ec_heap m' q =
          (if q = ec then map_option (fold add_range ps) (ec_heap m ec) else ec_heap m q))
    \<and> all_ecs m' = all_ecs m \<and> owned_ecs m' = owned_ecs m \<and> mgr_ports m' = mgr_ports m"
  unfolding m'_def
proof (induction ps arbitrary: m)
  case Nil
  then show ?case by (simp add: option.map_id)
next
  case (Cons p ps)
  show ?case
    using Cons.IH[of "insert_range p (upd_ec ec (add_range p) m)"]
    by (cases "ec_heap m ec") simp_all
qed


text \<open>\<open>owns m p a\<close>: address \<open>a\<close> belongs to a range of the class at \<open>p\<close>.
  \<open>exact m p\<close>: the object at \<open>p\<close> holds exactly the ranges that point to it.\<close>

definition owns :: "eqclassmgr \<Rightarrow> nat \<Rightarrow> ipv4 \<Rightarrow> bool" where
  "owns m p a \<longleftrightarrow> (\<exists>r \<in> set (allranges m). ec_ptr r = p \<and> range_contains r a)"

definition exact :: "eqclassmgr \<Rightarrow> nat \<Rightarrow> bool" where
  "exact m p \<longleftrightarrow> (\<exists>c. ec_heap m p = Some c \<and> ecr.wf_set c
     \<and> set c = {r \<in> set (allranges m). ec_ptr r = p})"

definition split_set :: "nat \<Rightarrow> ecrange \<Rightarrow> ecrange \<Rightarrow> ecrange set \<Rightarrow> ecrange set" where
  "split_set nec rng er R =
     (if apart er rng then R
      else insert (inner_piece nec rng er) (set (outer_pieces rng er) \<union> (R - {er})))"

lemma split_range_eq:
  fixes m :: eqclassmgr and er rng :: ecrange
  assumes "\<not> apart er rng" and "ec \<noteq> nec"
  defines "m' \<equiv> split_range ec nec rng er m"
  shows "allranges m' = set_insert ecrange_less (inner_piece nec rng er)
      (fold (set_insert ecrange_less) (outer_pieces rng er)
        (set_erase ecrange_less er (allranges m)))"
    and "ec_heap m' q =
      (if q = ec then map_option (fold add_range (outer_pieces rng er) \<circ> rm_range er) (ec_heap m ec)
       else if q = nec then map_option (add_range (inner_piece nec rng er)) (ec_heap m nec)
       else ec_heap m q)"
    and "all_ecs m' = all_ecs m" and "owned_ecs m' = owned_ecs m" and "mgr_ports m' = mgr_ports m"
proof -
  have inner: "set_ec nec (er\<lparr>r_lb := max (r_lb er) (r_lb rng), r_ub := min (r_ub er) (r_ub rng)\<rparr>)
      = inner_piece nec rng er"
    by (simp add: set_ec_def inner_piece_def)
  let ?m2 = "upd_ec ec (rm_range er) (m\<lparr>allranges := set_erase ecrange_less er (allranges m)\<rparr>)"
  note f = fold_insert_upd[of ec "outer_pieces rng er" ?m2]
  have m': "m' = insert_range (inner_piece nec rng er) (upd_ec nec (add_range (inner_piece nec rng er))
      (fold (\<lambda>x. insert_range x \<circ> upd_ec ec (add_range x)) (outer_pieces rng er) ?m2))"
    using assms(1) by (simp add: m'_def split_range_def ecrange_eq_iff split_outer_eq inner Let_def)
  show "allranges m' = set_insert ecrange_less (inner_piece nec rng er)
      (fold (set_insert ecrange_less) (outer_pieces rng er)
        (set_erase ecrange_less er (allranges m)))"
    "all_ecs m' = all_ecs m" "owned_ecs m' = owned_ecs m" "mgr_ports m' = mgr_ports m"
    unfolding m' using f by simp_all
  show "ec_heap m' q =
      (if q = ec then map_option (fold add_range (outer_pieces rng er) \<circ> rm_range er) (ec_heap m ec)
       else if q = nec then map_option (add_range (inner_piece nec rng er)) (ec_heap m nec)
       else ec_heap m q)"
    unfolding m' using f assms(2) by (simp add: option.map_comp)
qed

lemma add_range_fold: "fold add_range ps = fold (set_insert ecrange_less) ps"
  by (rule arg_cong[of _ _ "\<lambda>f. fold f ps"]) (simp add: fun_eq_iff add_range_def)

lemma split_wf:
  assumes "ecr.wf_set xs" and "er \<in> set xs" and "range_ok rng" and "\<not> apart er rng"
  shows "ecr.wf_set (fold (set_insert ecrange_less) (outer_pieces rng er)
            (set_erase ecrange_less er xs))
       \<and> set (fold (set_insert ecrange_less) (outer_pieces rng er) (set_erase ecrange_less er xs))
          = set (outer_pieces rng er) \<union> (set xs - {er})"
proof -
  let ?out = "outer_pieces rng er" and ?ys = "set_erase ecrange_less er xs"
  note p = pieces_apart[OF ecr.wf_setD[OF assms(1,2)] assms(3,4)]
  have ap: "apart x y" if "x \<in> set ?out" "y \<in> set ?ys" for x y
  proof -
    have "y \<in> set xs" "y \<noteq> er" using that(2) erase_member(2)[OF assms(1,2)] by auto
    then have "apart y er" using wf_apart[OF assms(1) _ assms(2)] by simp
    moreover have "inside x er" using p(1) that(1) by simp
    ultimately show ?thesis using apart_inside apart_sym by metis
  qed
  have "range_ok x" if "x \<in> set ?out" for x using p(1) that by simp
  from fold_insert_apart[OF erase_member(1)[OF assms(1,2)] this p(2) ap]
  show ?thesis by (simp add: erase_member(2)[OF assms(1,2)])
qed

lemma split_ec_set:
  assumes "g i = n" and "\<forall>x \<in> B. g x = e" and "e \<noteq> n"
  shows "B \<union> ({r \<in> A. g r = e} - {x}) = {r \<in> insert i (B \<union> (A - {x})). g r = e}"
  using assms by auto

lemma split_nec_set:
  assumes "g i = n" and "\<forall>x \<in> B. g x = e" and "e \<noteq> n" and "g x = e"
  shows "insert i {r \<in> A. g r = n} = {r \<in> insert i (B \<union> (A - {x})). g r = n}"
  using assms by auto

lemma split_step:
  assumes wf: "ecr.wf_set (allranges m)" and ex: "exact m ec" "exact m nec" and ne: "ec \<noteq> nec"
    and er: "er \<in> set (allranges m)" "ec_ptr er = ec" and ok: "range_ok rng"
  defines "m' \<equiv> split_range ec nec rng er m"
  shows "ecr.wf_set (allranges m')"
    and "set (allranges m') = split_set nec rng er (set (allranges m))"
    and "exact m' ec" and "exact m' nec"
    and "q \<notin> {ec, nec} \<Longrightarrow> ec_heap m' q = ec_heap m q"
    and "all_ecs m' = all_ecs m" and "owned_ecs m' = owned_ecs m" and "mgr_ports m' = mgr_ports m"
proof -
  let ?in = "inner_piece nec rng er" and ?out = "outer_pieces rng er"
  have *: "ecr.wf_set (allranges m') \<and> set (allranges m') = split_set nec rng er (set (allranges m))
    \<and> exact m' ec \<and> exact m' nec \<and> (q \<notin> {ec, nec} \<longrightarrow> ec_heap m' q = ec_heap m q)
    \<and> all_ecs m' = all_ecs m \<and> owned_ecs m' = owned_ecs m \<and> mgr_ports m' = mgr_ports m"
  proof (cases "apart er rng")
    case True
    then have "m' = m" by (simp add: m'_def split_range_def ecrange_eq_iff)
    then show ?thesis using assms True by (simp add: split_set_def)
  next
    case False
    note eq = split_range_eq[OF False ne, of m, folded m'_def]
    note p = pieces_apart[OF ecr.wf_setD[OF wf er(1)] ok False]
    have in_apart: "apart ?in y" if "y \<in> set (allranges m) - {er}" for y
    proof -
      have "apart er y" using wf_apart[OF wf er(1), of y] that by auto
      then show ?thesis using p(4) by (rule apart_inside)
    qed
    note sw = split_wf[OF wf er(1) ok False]
    have out_apart: "apart ?in y" if "y \<in> set ?out \<union> (set (allranges m) - {er})" for y
      using that in_apart p(1) apart_sym by blast
    have wf1: "ecr.wf_set (allranges m')"
      and set1: "set (allranges m') = insert ?in (set ?out \<union> (set (allranges m) - {er}))"
      using set_insert_apart[OF conjunct1[OF sw] p(3), of nec] out_apart sw
      unfolding eq(1) by simp_all
    obtain c where c: "ec_heap m ec = Some c" "ecr.wf_set c"
        "set c = {r \<in> set (allranges m). ec_ptr r = ec}"
      using ex(1) by (auto simp: exact_def)
    have "er \<in> set c" using c er by simp
    note sc = split_wf[OF c(2) this ok False]
    have ptrs: "ec_ptr ?in = nec" "\<forall>x \<in> set ?out. ec_ptr x = ec"
      using p(1,5) er(2) by auto
    have ne': "?in \<noteq> er" using ptrs er(2) ne by metis
    have "set ?out \<union> (set c - {er}) = {r \<in> set (allranges m'). ec_ptr r = ec}"
      unfolding set1 c(3) by (rule split_ec_set[OF ptrs ne])
    moreover have "ec_heap m' ec =
        Some (fold (set_insert ecrange_less) ?out (set_erase ecrange_less er c))"
      by (simp add: eq(2) c(1) rm_range_eq[OF c(2) \<open>er \<in> set c\<close>] add_range_fold)
    ultimately have "exact m' ec" unfolding exact_def using sc by metis
    obtain n where n: "ec_heap m nec = Some n" "ecr.wf_set n"
        "set n = {r \<in> set (allranges m). ec_ptr r = nec}"
      using ex(2) by (auto simp: exact_def)
    have "apart ?in y" if "y \<in> set n" for y
      using in_apart that n(3) er(2) ne by auto
    then have "ecr.wf_set (add_range ?in n)" "set (add_range ?in n) = insert ?in (set n)"
      using set_insert_apart[OF n(2) p(3)] by (simp_all add: add_range_def)
    moreover have "insert ?in (set n) = {r \<in> set (allranges m'). ec_ptr r = nec}"
      unfolding set1 n(3) by (rule split_nec_set[OF ptrs ne er(2)])
    moreover have "ec_heap m' nec = Some (add_range ?in n)" using ne by (simp add: eq(2) n(1))
    ultimately have "exact m' nec" unfolding exact_def by auto
    with \<open>exact m' ec\<close> show ?thesis using wf1 set1 False eq by (simp add: split_set_def)
  qed
  then show "ecr.wf_set (allranges m')"
    and "set (allranges m') = split_set nec rng er (set (allranges m))"
    and "exact m' ec" and "exact m' nec"
    and "q \<notin> {ec, nec} \<Longrightarrow> ec_heap m' q = ec_heap m q"
    and "all_ecs m' = all_ecs m" and "owned_ecs m' = owned_ecs m" and "mgr_ports m' = mgr_ports m"
    by auto
qed

lemma owns_split:
  assumes wf: "ecr.wf_set (allranges m)" and er: "er \<in> set (allranges m)" "ec_ptr er = ec"
    and ok: "range_ok rng"
    and m': "set (allranges m') = split_set nec rng er (set (allranges m))"
  shows "owns m' p a \<longleftrightarrow>
    (if range_contains er a \<and> range_contains rng a then p = nec else owns m p a)"
proof (cases "apart er rng")
  case True
  then have "\<not> (range_contains er a \<and> range_contains rng a)"
    using not_apart_iff[of er rng] ecr.wf_setD[OF wf er(1)] ok by blast
  then show ?thesis using m' True by (auto simp: owns_def split_set_def)
next
  case False
  note p = pieces_apart[OF ecr.wf_setD[OF wf er(1)] ok False]
  note oc = outer_contains[OF ecr.wf_setD[OF wf er(1)] ok False, of a]
  have out: "(\<exists>r \<in> set (outer_pieces rng er). ec_ptr r = p \<and> range_contains r a)
      \<longleftrightarrow> p = ec \<and> range_contains er a \<and> \<not> range_contains rng a"
    using oc p(1) er(2) by (auto simp: Bex_def)
  have inn: "ec_ptr (inner_piece nec rng er) = p \<and> range_contains (inner_piece nec rng er) a
      \<longleftrightarrow> p = nec \<and> range_contains er a \<and> range_contains rng a"
    using p(5)[of nec] inner_contains[of nec rng er a] by auto
  let ?rest = "\<exists>r \<in> set (allranges m) - {er}. ec_ptr r = p \<and> range_contains r a"
  have rest: "\<not> ?rest" if "range_contains er a"
    using wf_unique[OF wf _ er(1) _ that] by blast
  have "owns m p a \<longleftrightarrow> (p = ec \<and> range_contains er a) \<or> ?rest"
    using er by (auto simp: owns_def)
  moreover have "owns m' p a \<longleftrightarrow> (p = nec \<and> range_contains er a \<and> range_contains rng a)
      \<or> (p = ec \<and> range_contains er a \<and> \<not> range_contains rng a) \<or> ?rest"
    unfolding owns_def m' split_set_def using False out inn by (simp add: bex_Un)
  ultimately show ?thesis using rest by auto
qed

definition others :: "eqclassmgr \<Rightarrow> nat set \<Rightarrow> ecrange set" where
  "others m P = {r \<in> set (allranges m). ec_ptr r \<notin> P}"

lemma split_fold:
  assumes "ecr.wf_set (allranges m)" and "exact m ec" and "exact m nec" and "ec \<noteq> nec"
    and "set todo \<subseteq> {r \<in> set (allranges m). ec_ptr r = ec}" and "distinct todo"
    and ok: "range_ok rng"
  defines "m' \<equiv> fold (split_range ec nec rng) todo m"
  shows "ecr.wf_set (allranges m') \<and> exact m' ec \<and> exact m' nec
    \<and> (\<forall>q. q \<notin> {ec, nec} \<longrightarrow> ec_heap m' q = ec_heap m q)
    \<and> others m' {ec, nec} = others m {ec, nec}
    \<and> all_ecs m' = all_ecs m \<and> owned_ecs m' = owned_ecs m \<and> mgr_ports m' = mgr_ports m
    \<and> (\<forall>p a. owns m' p a \<longleftrightarrow>
         (if (\<exists>er \<in> set todo. range_contains er a) \<and> range_contains rng a then p = nec
          else owns m p a))"
  using assms(1-6) unfolding m'_def
proof (induction todo arbitrary: m)
  case Nil
  then show ?case by simp
next
  case (Cons er todo)
  let ?m = "split_range ec nec rng er m"
  have er: "er \<in> set (allranges m)" "ec_ptr er = ec" using Cons.prems by auto
  note st = split_step[OF Cons.prems(1-4) er ok]
  note p = pieces_apart[OF ecr.wf_setD[OF Cons.prems(1) er(1)] ok]
  have oth: "others ?m {ec, nec} = others m {ec, nec}"
    unfolding others_def st(2) split_set_def using p(1,5) er by auto
  have sub: "set todo \<subseteq> {r \<in> set (allranges ?m). ec_ptr r = ec}"
    using Cons.prems(5,6) by (auto simp: st(2) split_set_def)
  have heap: "\<forall>q. q \<notin> {ec, nec} \<longrightarrow> ec_heap ?m q = ec_heap m q" using st(5) by blast
  note ih = Cons.IH[OF st(1,3,4) Cons.prems(4) sub]
  have ow: "owns ?m q a \<longleftrightarrow>
      (if range_contains er a \<and> range_contains rng a then q = nec else owns m q a)" for q a
    by (rule owns_split[OF Cons.prems(1) er ok st(2)])
  show ?case using ih Cons.prems(6) oth heap st(6-8) ow by auto
qed

lemma owns_unique:
  assumes "ecr.wf_set (allranges m)" and "owns m p a" and "owns m q a"
  shows "p = q"
  using assms wf_unique[OF assms(1)] by (auto simp: owns_def)


section \<open>The invariant of the manager\<close>

text \<open>
  Ranges are ordered and disjoint, every range points to a live class, and a class some range
  points to holds exactly those ranges. A class no range points to can exist: see
  \<open>add_non_overlapped_ec\<close> below.
\<close>

definition class_ok :: "eqclassmgr \<Rightarrow> nat \<Rightarrow> bool" where
  "class_ok m p \<longleftrightarrow> (\<exists>c. ec_heap m p = Some c \<and> ecr.wf_set c \<and> c \<noteq> []
     \<and> ((\<exists>r \<in> set (allranges m). ec_ptr r = p) \<longrightarrow> set c = {r \<in> set (allranges m). ec_ptr r = p}))"

definition ecmgr_ok :: "eqclassmgr \<Rightarrow> bool" where
  "ecmgr_ok m \<longleftrightarrow> ecr.wf_set (allranges m) \<and> oset (all_ecs m) \<and> oset (owned_ecs m)
     \<and> set (owned_ecs m) \<subseteq> set (all_ecs m) \<and> dom (ec_heap m) = set (all_ecs m)
     \<and> ec_ptr ` set (allranges m) \<subseteq> set (all_ecs m)
     \<and> (\<forall>p \<in> set (all_ecs m). class_ok m p)"

definition fresh_alloc :: "(nat list \<Rightarrow> nat) \<Rightarrow> bool" where
  "fresh_alloc alloc \<longleftrightarrow> (\<forall>xs. alloc xs \<notin> set xs)"

lemma ecmgr_okD:
  assumes "ecmgr_ok m"
  shows "ecr.wf_set (allranges m)" "oset (all_ecs m)" "oset (owned_ecs m)"
    "set (owned_ecs m) \<subseteq> set (all_ecs m)" "dom (ec_heap m) = set (all_ecs m)"
    "ec_ptr ` set (allranges m) \<subseteq> set (all_ecs m)"
    "\<And>p. p \<in> set (all_ecs m) \<Longrightarrow> class_ok m p"
  using assms by (auto simp: ecmgr_ok_def)

lemma owns_all_ecs: "ecmgr_ok m \<Longrightarrow> owns m p a \<Longrightarrow> p \<in> set (all_ecs m)"
  using ecmgr_okD(6) by (auto simp: owns_def)

lemma exact_owned:
  assumes "ecmgr_ok m" and "owns m p a"
  shows "exact m p"
proof -
  have "\<exists>r \<in> set (allranges m). ec_ptr r = p" using assms(2) by (auto simp: owns_def)
  then show ?thesis
    using ecmgr_okD(7)[OF assms(1) owns_all_ecs[OF assms]] by (auto simp: class_ok_def exact_def)
qed

lemma exact_class_ok:
  assumes "exact m p" and "owns m p a"
  shows "class_ok m p"
  using assms by (force simp: exact_def class_ok_def owns_def)

lemma ecmgr_init_ok: "ecmgr_ok ecmgr_init"
  by (simp add: ecmgr_ok_def ecmgr_init_def)

lemma ecmgr_reset_ok: "ecmgr_ok m \<Longrightarrow> ecmgr_reset m = ecmgr_init"
proof -
  assume "ecmgr_ok m"
  then have "dom (ec_heap m) = set (all_ecs m)" by (rule ecmgr_okD(5))
  then have "ec_heap m |` (- set (all_ecs m)) = Map.empty"
    by (auto simp: restrict_map_def fun_eq_iff domIff)
  then show ?thesis by (simp add: ecmgr_reset_def ecmgr_init_def)
qed

lemma new_ec_exact:
  assumes "ecmgr_ok m" and "fresh_alloc alloc" and "new_ec alloc m = (nec, m1)"
  shows "nec \<notin> set (all_ecs m)" and "exact m1 nec" and "allranges m1 = allranges m"
    and "ec_heap m1 = (ec_heap m)(nec \<mapsto> [])" and "all_ecs m1 = all_ecs m"
    and "owned_ecs m1 = owned_ecs m" and "mgr_ports m1 = mgr_ports m"
    and "owns m1 p a = owns m p a" and "p \<noteq> nec \<Longrightarrow> exact m1 p = exact m p"
proof -
  have d: "nec = alloc (all_ecs m)" "m1 = m\<lparr>ec_heap := (ec_heap m)(nec \<mapsto> [])\<rparr>"
    using assms(3) by (auto simp: new_ec_def Let_def)
  show n: "nec \<notin> set (all_ecs m)" using assms(2) d(1) by (auto simp: fresh_alloc_def)
  show "exact m1 nec" using ecmgr_okD(6)[OF assms(1)] n by (auto simp: d(2) exact_def)
qed (use assms(3) in \<open>auto simp: new_ec_def Let_def owns_def exact_def\<close>)

lemma split_intersected:
  assumes ok: "ecmgr_ok m" and fr: "fresh_alloc alloc" and rok: "range_ok rng"
    and a: "owns m ec a" "range_contains rng a" and b: "owns m ec b" "\<not> range_contains rng b"
  shows "\<exists>nec m'. split_intersected_ec alloc ec rng owned m = Inr m' \<and> ecmgr_ok m'
    \<and> nec \<notin> set (all_ecs m) \<and> set (all_ecs m') = insert nec (set (all_ecs m))
    \<and> (\<forall>p a. owns m' p a \<longleftrightarrow>
         (if owns m ec a \<and> range_contains rng a then p = nec else owns m p a))
    \<and> set (owned_ecs m') = (if owned \<or> ec \<in> set (owned_ecs m) then {nec} else {}) \<union> set (owned_ecs m)
    \<and> mgr_ports m' = mgr_ports m"
proof -
  obtain nec m1 where n: "new_ec alloc m = (nec, m1)" by fastforce
  note nx = new_ec_exact[OF ok fr n]
  have ecm: "ec \<in> set (all_ecs m)" using owns_all_ecs[OF ok a(1)] .
  then have ne: "ec \<noteq> nec" using nx(1) by auto
  have ex: "exact m1 ec" using nx(9)[OF ne] exact_owned[OF ok a(1)] by simp
  then obtain c where c: "ec_heap m1 ec = Some c" "ecr.wf_set c"
      "set c = {r \<in> set (allranges m1). ec_ptr r = ec}"
    by (auto simp: exact_def)
  define m2 where "m2 = fold (split_range ec nec rng) c m1"
  have wf1: "ecr.wf_set (allranges m1)" using ecmgr_okD(1)[OF ok] nx(3) by simp
  have sub: "set c \<subseteq> {r \<in> set (allranges m1). ec_ptr r = ec}" using c(3) by simp
  note sf = split_fold[OF wf1 ex nx(2) ne sub ecr.wf_set_distinct[OF c(2)] rok, folded m2_def]
  have oc: "(\<exists>er \<in> set c. range_contains er x) \<longleftrightarrow> owns m ec x" for x
    using nx(3) c(3) by (auto simp: owns_def)
  have ow: "owns m2 p x \<longleftrightarrow>
      (if owns m ec x \<and> range_contains rng x then p = nec else owns m p x)" for p x
    using sf oc nx(8) by simp
  obtain nc where nc: "ec_heap m2 nec = Some nc" "set nc = {r \<in> set (allranges m2). ec_ptr r = nec}"
    using sf by (auto simp: exact_def)
  have "owns m2 nec a" using ow a by simp
  then have "nc \<noteq> []" using nc(2) by (auto simp: owns_def)
  define m3 where "m3 = m2\<lparr>all_ecs := oset_insert nec (all_ecs m2)\<rparr>"
  define m' where "m' = (if owned \<or> ec \<in> set (owned_ecs m3)
    then m3\<lparr>owned_ecs := oset_insert nec (owned_ecs m3)\<rparr> else m3)"
  have res: "split_intersected_ec alloc ec rng owned m = Inr m'"
    unfolding split_intersected_ec_def n using c(1) nc(1) \<open>nc \<noteq> []\<close>
    by (simp add: Let_def deref_ec_def ec_empty_def m'_def m3_def flip: m2_def)
  have same: "allranges m' = allranges m2" "ec_heap m' = ec_heap m2"
      "all_ecs m' = oset_insert nec (all_ecs m)" "mgr_ports m' = mgr_ports m"
      "owned_ecs m' = (if owned \<or> ec \<in> set (owned_ecs m) then oset_insert nec (owned_ecs m)
         else owned_ecs m)"
    using sf nx by (simp_all add: m'_def m3_def)
  have all: "set (all_ecs m') = insert nec (set (all_ecs m))"
    unfolding same using ecmgr_okD(2)[OF ok] by simp
  have own: "owns m' p x = owns m2 p x" "exact m' p = exact m2 p" for p x
    by (simp_all add: owns_def exact_def same(1,2))
  have "class_ok m' p" if pm: "p \<in> set (all_ecs m')" for p
  proof -
    consider "p = nec" | "p = ec" | "p \<notin> {ec, nec}" "p \<in> set (all_ecs m)"
      using pm unfolding all by blast
    then show ?thesis
    proof cases
      case 1
      have "exact m' nec" "owns m' nec a" using own sf \<open>owns m2 nec a\<close> by auto
      then show ?thesis unfolding 1 by (rule exact_class_ok)
    next
      case 2
      have "exact m2 ec" using sf by blast
      then have "exact m' ec" using own(2) by simp
      moreover have "owns m' ec b" using own(1) ow b by simp
      ultimately show ?thesis unfolding 2 by (rule exact_class_ok)
    next
      case 3
      have "{r \<in> set (allranges m2). ec_ptr r = p} = {r \<in> set (allranges m). ec_ptr r = p}"
        using sf 3(1) nx(3) by (auto simp: others_def set_eq_iff)
      moreover have "ec_heap m2 p = ec_heap m p" using sf 3(1) nx(4) by auto
      ultimately show ?thesis
        using ecmgr_okD(7)[OF ok 3(2)] unfolding class_ok_def same(1,2) by (auto simp: set_eq_iff)
    qed
  qed
  moreover have "dom (ec_heap m') = set (all_ecs m')"
  proof -
    have "ec_heap m2 q \<noteq> None \<longleftrightarrow> q \<in> insert nec (set (all_ecs m))" for q
      using sf nc(1) ecm ecmgr_okD(5)[OF ok] nx(4)
      by (cases "q = nec"; cases "q = ec") (auto simp: exact_def)
    then show ?thesis unfolding same(2) all by blast
  qed
  moreover have "ec_ptr r \<in> set (all_ecs m')" if "r \<in> set (allranges m')" for r
  proof (cases "ec_ptr r \<in> {ec, nec}")
    case True
    then show ?thesis using all ecm by auto
  next
    case False
    then have "r \<in> others m2 {ec, nec}" using that unfolding same(1) by (simp add: others_def)
    then have "r \<in> set (allranges m)" using sf nx(3) by (auto simp: others_def)
    then show ?thesis using all ecmgr_okD(6)[OF ok] by auto
  qed
  ultimately have "ecmgr_ok m'"
    unfolding ecmgr_ok_def
    using sf ecmgr_okD(2-4)[OF ok] all same by (auto simp del: fun_upd_apply)
  then show ?thesis
    using res nx(1) all ow own(1) same(4,5) ecmgr_okD(3)[OF ok] by (intro exI[of _ nec] exI[of _ m']) simp
qed

lemma wf_hd_last:
  assumes "ecr.wf_set c" and "r \<in> set c"
  shows "r_lb (hd c) \<le> r_lb r" and "r_ub r \<le> r_ub (last c)"
proof -
  have ne: "c \<noteq> []" using assms(2) by auto
  have lt: "r_lb x \<le> r_lb y \<and> r_ub x \<le> r_ub y" if "ecrange_less x y" "range_ok x" "range_ok y" for x y
    using that by (auto simp: ecrange_less_def range_ok_def)
  obtain h t where h: "c = h # t" using ne by (cases c) auto
  show "r_lb (hd c) \<le> r_lb r"
    using assms lt ecr.wf_setD[OF assms(1)] unfolding h by (auto simp: ecr.wf_set_Cons)
  obtain i l where l: "c = i @ [l]" using ne by (cases c rule: rev_cases) auto
  show "r_ub r \<le> r_ub (last c)"
    using assms lt ecr.wf_setD[OF assms(1)] unfolding l by (auto simp: ecr.wf_set_append)
qed

lemma ecrange_contains_ec_eq:
  assumes "ecr.wf_set c" and "c \<noteq> []"
  shows "ecrange_contains_ec rng c = Inr (\<forall>r \<in> set c. inside r rng)"
proof -
  have "r_lb rng \<le> r_lb (hd c) \<and> r_ub (last c) \<le> r_ub rng \<longleftrightarrow> (\<forall>r \<in> set c. inside r rng)"
    using wf_hd_last[OF assms(1)] assms(2) hd_in_set[OF assms(2)] last_in_set[OF assms(2)]
    by (auto simp: inside_def) (meson order_trans)+
  then show ?thesis using assms(2) by (simp add: ecrange_contains_ec_def)
qed

lemma three_way:
  assumes "ecr.wf_set xs" and "range_ok rng"
  shows "xs = filter (\<lambda>y. ecrange_less y rng) xs @ filter (\<lambda>y. \<not> apart y rng) xs
    @ filter (\<lambda>y. ecrange_less rng y) xs"
proof -
  let ?b = "filter (\<lambda>y. \<not> ecrange_less y rng) xs"
  have b: "ecr.wf_set ?b" by (rule ecr.wf_set_filter[OF assms(1)])
  have "sorted_wrt ecrange_less ?b" using b by (simp add: sorted_set_def)
  moreover have "\<not> ecrange_less rng y \<Longrightarrow> \<not> ecrange_less rng x"
    if "x \<in> set ?b" "y \<in> set ?b" "ecrange_less x y" for x y
    using that ecr.lt_trans[of rng x y] ecr.wf_setD[OF b] assms(2) by blast
  ultimately have s: "?b = filter (\<lambda>y. \<not> ecrange_less rng y) ?b @ filter (\<lambda>y. ecrange_less rng y) ?b"
    using takeWhile_eq_filter_sorted[of ecrange_less ?b "\<lambda>y. \<not> ecrange_less rng y"]
      takeWhile_dropWhile_id[of "\<lambda>y. \<not> ecrange_less rng y" ?b] by simp
  have e1: "filter (\<lambda>y. \<not> ecrange_less rng y) ?b = filter (\<lambda>y. \<not> apart y rng) xs"
    by (auto simp: apart_def intro!: filter_cong_ex)
  have e2: "filter (\<lambda>y. ecrange_less rng y) ?b = filter (\<lambda>y. ecrange_less rng y) xs"
    using ecr.lt_asym ecr.wf_setD[OF assms(1)] assms(2)
    by (auto intro!: filter_cong_ex)
  show ?thesis using ecr.lower_bound_split[OF assms] s unfolding e1 e2 by metis
qed

lemma scan_overlapping:
  assumes "\<forall>x \<in> set as. \<not> P x" and "\<forall>x \<in> set bs. P x" and "\<forall>x \<in> set cs. \<not> P x"
  shows "takeWhile P (dropWhile (\<lambda>x. \<not> P x) (as @ bs @ cs)) = bs"
    and "takeWhile P (bs @ cs) = bs" and "takeWhile P (rev as) = []"
proof -
  have c: "takeWhile P cs = []" using assms(3) by (cases cs) auto
  show 1: "takeWhile P (bs @ cs) = bs" using assms(2) c by (simp add: takeWhile_append2)
  have "dropWhile (\<lambda>x. \<not> P x) (as @ bs @ cs) = dropWhile (\<lambda>x. \<not> P x) (bs @ cs)"
    using assms(1) by (simp add: dropWhile_append2)
  moreover have "takeWhile P (dropWhile (\<lambda>x. \<not> P x) (bs @ cs)) = bs"
  proof (cases bs)
    case Nil
    then have "dropWhile (\<lambda>x. \<not> P x) (bs @ cs) = []"
      using assms(3) by (simp add: dropWhile_eq_Nil_conv)
    then show ?thesis using Nil by (metis takeWhile.simps(1))
  next
    case (Cons b bs')
    then show ?thesis using 1 assms(2) by simp
  qed
  ultimately show "takeWhile P (dropWhile (\<lambda>x. \<not> P x) (as @ bs @ cs)) = bs" by simp
  show "takeWhile P (rev as) = []"
    using assms(1) by (cases as rule: rev_cases) auto
qed

lemma overlapped_scan:
  assumes "ecr.wf_set xs" and "range_ok rng"
  shows "takeWhile (\<lambda>it. ecrange_eq it rng) (dropWhile (\<lambda>it. ecrange_neq it rng) xs)
      = filter (\<lambda>y. \<not> apart y rng) xs"
    and "takeWhile (\<lambda>r. ecrange_eq r rng) (lower_bound ecrange_less rng xs)
      = filter (\<lambda>y. \<not> apart y rng) xs"
    and "takeWhile (\<lambda>r. ecrange_eq r rng)
        (rev (take (length xs - length (lower_bound ecrange_less rng xs)) xs)) = []"
proof -
  let ?a = "filter (\<lambda>y. ecrange_less y rng) xs" and ?b = "filter (\<lambda>y. \<not> apart y rng) xs"
    and ?c = "filter (\<lambda>y. ecrange_less rng y) xs"
  note sc = scan_overlapping[of ?a "\<lambda>y. \<not> apart y rng" ?b ?c]
  have p: "\<forall>x \<in> set ?a. \<not> \<not> apart x rng" "\<forall>x \<in> set ?b. \<not> apart x rng"
      "\<forall>x \<in> set ?c. \<not> \<not> apart x rng"
    by (auto simp: apart_def)
  have xs: "?a @ ?b @ ?c = xs" using three_way[OF assms] by simp
  show "takeWhile (\<lambda>it. ecrange_eq it rng) (dropWhile (\<lambda>it. ecrange_neq it rng) xs) = ?b"
    using sc(1)[OF p] unfolding xs by (simp add: ecrange_eq_iff ecrange_neq_iff)
  have "?a @ filter (\<lambda>y. \<not> ecrange_less y rng) xs = xs"
    using ecr.lower_bound_split[OF assms] by simp
  then have lb: "lower_bound ecrange_less rng xs = ?b @ ?c"
    using xs ecr.bounds_filter(2)[OF assms] by (metis same_append_eq)
  show "takeWhile (\<lambda>r. ecrange_eq r rng) (lower_bound ecrange_less rng xs) = ?b"
    using sc(2)[OF p] by (simp add: lb ecrange_eq_iff)
  have "take (length xs - length (?b @ ?c)) xs = ?a"
    using xs by (metis append_eq_conv_conj diff_add_inverse2 length_append)
  then show "takeWhile (\<lambda>r. ecrange_eq r rng)
        (rev (take (length xs - length (lower_bound ecrange_less rng xs)) xs)) = []"
    using sc(3)[OF p] by (simp add: lb ecrange_eq_iff)
qed

lemma fold_insert_overlapped:
  assumes "oset acc"
  shows "oset (fold (insert_overlapped oo m) rs acc)
    \<and> set (fold (insert_overlapped oo m) rs acc)
      = set acc \<union> {ec_ptr r |r. r \<in> set rs \<and> (oo \<longrightarrow> ec_ptr r \<in> set (owned_ecs m))}"
  using assms
proof (induction rs arbitrary: acc)
  case Nil
  then show ?case by simp
next
  case (Cons r rs)
  have "oset (insert_overlapped oo m r acc)"
      "set (insert_overlapped oo m r acc) =
        (if oo \<longrightarrow> ec_ptr r \<in> set (owned_ecs m) then {ec_ptr r} else {}) \<union> set acc"
    using Cons.prems by (auto simp: insert_overlapped_def)
  then show ?case using Cons.IH[of "insert_overlapped oo m r acc"] by auto
qed

lemma get_overlapped_ecs_eq:
  assumes "ecr.wf_set (allranges m)" and "range_ok rng"
  shows "get_overlapped_ecs rng oo m =
    fold (insert_overlapped oo m) (filter (\<lambda>y. \<not> apart y rng) (allranges m)) []"
proof (cases "set_find ecrange_less rng (allranges m)")
  case None
  then have "filter (\<lambda>y. \<not> apart y rng) (allranges m) = []"
    using ecr.set_find_None_iff[OF assms] by (auto simp: apart_def filter_empty_conv)
  then show ?thesis using None by (simp add: get_overlapped_ecs_def)
next
  case (Some r)
  then show ?thesis
    using overlapped_scan[OF assms] by (simp add: get_overlapped_ecs_def Let_def)
qed

lemma get_overlapped_ecs_set:
  assumes "ecmgr_ok m" and "range_ok rng"
  shows "oset (get_overlapped_ecs rng oo m)
    \<and> set (get_overlapped_ecs rng oo m)
      = {p. (\<exists>a. range_contains rng a \<and> owns m p a) \<and> (oo \<longrightarrow> p \<in> set (owned_ecs m))}"
proof -
  have wf: "ecr.wf_set (allranges m)" using ecmgr_okD(1)[OF assms(1)] .
  have "\<not> apart r rng \<longleftrightarrow> (\<exists>a. range_contains rng a \<and> range_contains r a)"
    if "r \<in> set (allranges m)" for r
    using not_apart_iff[of r rng] ecr.wf_setD[OF wf that] assms(2) by blast
  then have "{ec_ptr r |r. r \<in> set (filter (\<lambda>y. \<not> apart y rng) (allranges m))
        \<and> (oo \<longrightarrow> ec_ptr r \<in> set (owned_ecs m))}
      = {p. (\<exists>a. range_contains rng a \<and> owns m p a) \<and> (oo \<longrightarrow> p \<in> set (owned_ecs m))}"
    by (fastforce simp: owns_def)
  then show ?thesis
    using fold_insert_overlapped[of "[]"] get_overlapped_ecs_eq[OF wf assms(2)] by simp
qed

text \<open>\<open>get_overlapped_ecs(range, owned_only)\<close> returns exactly the classes that have an address in
  the range, restricted to the owned ones on request: the walk backwards and forwards from the
  found range misses none.\<close>

theorem get_overlapped_ecs_spec:
  assumes "ecmgr_ok m" and "range_ok rng"
  shows "oset (get_overlapped_ecs rng oo m)
    \<and> set (get_overlapped_ecs rng oo m)
      = {p. (\<exists>a. range_contains rng a \<and> owns m p a) \<and> (oo \<longrightarrow> p \<in> set (owned_ecs m))}"
  by (rule get_overlapped_ecs_set[OF assms])

lemma find_ec_owns:
  assumes "ecmgr_ok m"
  shows "(find_ec a m = Inr p \<longleftrightarrow> owns m p a) \<and>
    (find_ec a m = Inl e \<longleftrightarrow>
      e = Runtime_error ''Cannot find the EC of '' \<and> (\<nexists>p. owns m p a))"
proof -
  have wf: "ecr.wf_set (allranges m)" using ecmgr_okD(1)[OF assms] .
  let ?r = "\<lparr>r_lb = a, r_ub = a, ec_ptr = 0\<rparr> :: ecrange"
  have ok: "range_ok ?r" by (simp add: range_ok_def)
  have ap: "apart ?r x \<longleftrightarrow> \<not> range_contains x a" if "x \<in> set (allranges m)" for x
    using not_apart_iff[OF ok ecr.wf_setD[OF wf that]] by (auto simp: range_contains_def)
  have f: "find_ec a m = (case set_find ecrange_less ?r (allranges m) of
       None \<Rightarrow> Inl (Runtime_error ''Cannot find the EC of '') | Some it \<Rightarrow> Inr (ec_ptr it))"
    by (simp add: find_ec_def new_ecrange_def mk_range_def)
  show ?thesis
  proof (cases "set_find ecrange_less ?r (allranges m)")
    case None
    then have "\<nexists>p. owns m p a"
      using ecr.set_find_None_iff[OF wf ok] ap by (auto simp: owns_def apart_def)
    then show ?thesis
      using None f by auto
  next
    case (Some r)
    then have "r \<in> set (allranges m)" "range_contains r a"
      using ecr.set_find_SomeD[OF wf ok Some] ap by (auto simp: apart_def)
    then have o: "owns m (ec_ptr r) a" by (auto simp: owns_def)
    have "owns m p a \<longleftrightarrow> ec_ptr r = p" for p using o owns_unique[OF wf o] by blast
    then show ?thesis using Some f by simp
  qed
qed

text \<open>\<open>find_ec(ip)\<close> returns the one class whose ranges contain the address, and
  raises its error exactly when no range covers it.\<close>

theorem find_ec_spec:
  assumes "ecmgr_ok m"
  shows "(find_ec a m = Inr p \<longleftrightarrow> owns m p a) \<and>
    (find_ec a m = Inl e \<longleftrightarrow>
      e = Runtime_error ''Cannot find the EC of '' \<and> (\<nexists>p. owns m p a))"
  by (rule find_ec_owns[OF assms])

section \<open>Filling the gaps\<close>

lemma unat_max_word: "unat (a :: ipv4) < 2 ^ 32"
  using unsigned_less[of a, where 'a = nat] by simp

lemma add_gap_Inr:
  assumes "l \<le> u"
  shows "add_gap nec l u m = Inr (insert_range \<lparr>r_lb = l, r_ub = u, ec_ptr = nec\<rparr>
    (upd_ec nec (add_range \<lparr>r_lb = l, r_ub = u, ec_ptr = nec\<rparr>) m))"
  using assms by (simp add: add_gap_def new_ecrange_def mk_range_def set_ec_def Let_def)

lemma add_gap_apart:
  assumes "ecr.wf_set (allranges m)" and "exact m nec" and "l \<le> u"
    and g: "g = \<lparr>r_lb = l, r_ub = u, ec_ptr = nec\<rparr>"
    and ap: "\<And>y. y \<in> set (allranges m) \<Longrightarrow> apart g y"
  shows "\<exists>m'. add_gap nec l u m = Inr m' \<and> ecr.wf_set (allranges m')
    \<and> set (allranges m') = insert g (set (allranges m)) \<and> exact m' nec
    \<and> (\<forall>q. q \<noteq> nec \<longrightarrow> ec_heap m' q = ec_heap m q)
    \<and> all_ecs m' = all_ecs m \<and> owned_ecs m' = owned_ecs m \<and> mgr_ports m' = mgr_ports m"
proof -
  have ok: "range_ok g" using assms(3) by (simp add: g range_ok_def)
  obtain c where c: "ec_heap m nec = Some c" "ecr.wf_set c"
      "set c = {r \<in> set (allranges m). ec_ptr r = nec}"
    using assms(2) by (auto simp: exact_def)
  define m' where "m' = insert_range g (upd_ec nec (add_range g) m)"
  have a: "ecr.wf_set (allranges m')" "set (allranges m') = insert g (set (allranges m))"
    using set_insert_apart[OF assms(1) ok ap] by (simp_all add: m'_def)
  have "apart g y" if "y \<in> set c" for y using ap that c(3) by simp
  from set_insert_apart[OF c(2) ok this]
  have "exact m' nec" using a c by (auto simp: exact_def m'_def add_range_def g)
  moreover have "add_gap nec l u m = Inr m'" unfolding m'_def g by (rule add_gap_Inr[OF assms(3)])
  ultimately show ?thesis using a by (intro exI[of _ m']) (simp add: m'_def)
qed

text \<open>The state of the loop: the cursor as a natural number \<open>L\<close>, so that \<open>L = 2 ^ 32\<close> is the
  cursor after an upper bound of 255.255.255.255, where the code's cursor is 0.\<close>

definition gap_inv ::
    "ecrange \<Rightarrow> nat \<Rightarrow> eqclassmgr \<Rightarrow> nat \<Rightarrow> ecrange list \<Rightarrow> eqclassmgr \<Rightarrow> bool" where
  "gap_inv rng nec m0 L its m \<longleftrightarrow>
     (ecr.wf_set (allranges m) \<and> exact m nec \<and> (\<forall>q. q \<noteq> nec \<longrightarrow> ec_heap m q = ec_heap m0 q)
      \<and> others m {nec} = set (allranges m0) \<and> all_ecs m = all_ecs m0
      \<and> owned_ecs m = owned_ecs m0 \<and> mgr_ports m = mgr_ports m0
      \<and> (\<forall>a. owns m nec a \<longrightarrow> range_contains rng a))
   \<and> (unat (r_lb rng) \<le> L \<and> L \<le> 2 ^ 32
      \<and> (L = 2 ^ 32 \<longrightarrow> its = [] \<and> (\<exists>y \<in> set (allranges m). \<not> apart y rng)))
   \<and> (ecr.wf_set its \<and> (\<forall>y \<in> set its. y \<in> set (allranges m) \<and> \<not> apart y rng)
      \<and> (\<forall>y \<in> set its. L \<le> unat (r_ub y))
      \<and> (\<forall>y \<in> set (allranges m). y \<in> set its \<or> apart y rng \<or> unat (r_ub y) < L)
      \<and> (\<forall>a. range_contains rng a \<and> unat a < L \<longrightarrow> (\<exists>p. owns m p a)))"

lemma gap_inv_advance:
  assumes inv: "gap_inv rng nec m0 L (it # its) m"
    and le: "unat (r_lb it) \<le> L"
  shows "gap_inv rng nec m0 (unat (r_ub it) + 1) its m"
proof -
  let ?L = "unat (r_ub it) + 1"
  have wf: "ecr.wf_set (allranges m)" and wfi: "ecr.wf_set (it # its)"
    and it: "it \<in> set (allranges m)" "\<not> apart it rng"
    and done_: "\<forall>y \<in> set (allranges m). y = it \<or> y \<in> set its \<or> apart y rng \<or> unat (r_ub y) < L"
    using inv by (auto simp: gap_inv_def)
  have itok: "range_ok it" using ecr.wf_setD[OF wf it(1)] .
  have b: "r_lb rng \<le> r_ub it" using it(2) by (auto simp: apart_def ecrange_less_def)
  have last: "its = []" if "?L = 2 ^ 32"
  proof (rule ccontr)
    assume "its \<noteq> []"
    then obtain y where "y \<in> set its" by (cases its) auto
    then have "r_ub it < r_lb y" using wfi by (auto simp: ecr.wf_set_Cons ecrange_less_def)
    then show False using that unat_max_word[of "r_lb y"] by (simp add: word_less_nat_alt)
  qed
  have L: "?L \<le> 2 ^ 32" using unat_max_word[of "r_ub it"] by simp
  have "L \<le> unat (r_ub it)" using inv by (simp add: gap_inv_def)
  then have lt: "unat (r_ub y) < ?L"
    if "y \<in> set (allranges m)" "y \<notin> set its" "\<not> apart y rng" for y
    using done_ that by fastforce
  have nx: "?L \<le> unat (r_ub y)" if "y \<in> set its" for y
  proof -
    have "r_ub it < r_lb y" using wfi that by (auto simp: ecr.wf_set_Cons ecrange_less_def)
    moreover have "r_lb y \<le> r_ub y"
      using ecr.wf_setD[OF wfi, of y] that by (simp add: range_ok_def)
    ultimately show ?thesis by (simp add: word_less_nat_alt word_le_nat_alt)
  qed
  have "\<exists>p. owns m p a" if "range_contains rng a" "unat a < ?L" for a
  proof (cases "unat a < unat (r_lb it)")
    case True
    then show ?thesis using inv le that by (auto simp: gap_inv_def)
  next
    case False
    then have "range_contains it a" using that(2) by (auto simp: range_contains_def word_le_nat_alt)
    then show ?thesis using it(1) by (auto simp: owns_def)
  qed
  then show ?thesis
    using inv lt nx L last b it wfi
    by (auto simp: gap_inv_def ecr.wf_set_Cons word_le_nat_alt)
qed


lemma gap_inv_fill:
  assumes inv: "gap_inv rng nec m0 L its m" and ok: "range_ok rng" and Llt: "L < 2 ^ 32"
    and u: "L \<le> unat (u :: ipv4)" "u \<le> r_ub rng" "\<And>y. y \<in> set its \<Longrightarrow> u < r_lb y"
  shows "\<exists>m'. add_gap nec (word_of_nat L) u m = Inr m' \<and> gap_inv rng nec m0 (unat u + 1) its m'"
proof -
  let ?l = "word_of_nat L :: ipv4"
  define g where "g = \<lparr>r_lb = ?l, r_ub = u, ec_ptr = nec\<rparr>"
  have ul: "unat ?l = L" using Llt by (simp add: unat_of_nat)
  have lu: "?l \<le> u" using u(1) ul by (simp add: word_le_nat_alt)
  have gin: "inside g rng"
    using inv u(2) ul by (auto simp: gap_inv_def inside_def g_def word_le_nat_alt)
  have "apart g y" if y: "y \<in> set (allranges m)" for y
  proof -
    consider "y \<in> set its" | "apart y rng" | "unat (r_ub y) < L"
      using inv y unfolding gap_inv_def by blast
    then show ?thesis
    proof cases
      case 1
      then show ?thesis using u(3) by (simp add: apart_def g_def ecrange_less_def)
    next
      case 2
      then show ?thesis using apart_inside[OF apart_sym gin] by simp
    next
      case 3
      then show ?thesis using ul by (simp add: apart_def g_def ecrange_less_def word_less_nat_alt)
    qed
  qed
  moreover have "ecr.wf_set (allranges m)" "exact m nec" using inv by (auto simp: gap_inv_def)
  ultimately obtain m' where m': "add_gap nec ?l u m = Inr m'" "ecr.wf_set (allranges m')"
      "set (allranges m') = insert g (set (allranges m))" "exact m' nec"
      "\<forall>q. q \<noteq> nec \<longrightarrow> ec_heap m' q = ec_heap m q"
      "all_ecs m' = all_ecs m" "owned_ecs m' = owned_ecs m" "mgr_ports m' = mgr_ports m"
    using add_gap_apart[OF _ _ lu g_def] by blast
  have ow: "owns m' p a \<longleftrightarrow> owns m p a \<or> (p = nec \<and> range_contains g a)" for p a
    by (auto simp: owns_def m'(3) g_def)
  have oth: "others m' {nec} = set (allranges m0)"
  proof -
    have "others m' {nec} = others m {nec}" by (auto simp: others_def m'(3) g_def)
    then show ?thesis using inv by (simp add: gap_inv_def)
  qed
  have sub: "range_contains rng a" if "range_contains g a" for a
    using gin that by (auto simp: inside_def range_contains_def)
  have cov: "\<exists>p. owns m' p a" if "range_contains rng a" "unat a < unat u + 1" for a
  proof (cases "unat a < L")
    case True
    then show ?thesis using inv that ow by (auto simp: gap_inv_def)
  next
    case False
    then have "range_contains g a" using that ul by (simp add: g_def range_contains_def word_le_nat_alt)
    then show ?thesis using ow by blast
  qed
  have "\<not> apart g rng" using gin lu by (auto simp: inside_def g_def apart_def ecrange_less_def)
  then have top: "unat u + 1 = 2 ^ 32 \<longrightarrow> its = [] \<and> (\<exists>y \<in> set (allranges m'). \<not> apart y rng)"
  proof (cases its)
    case Nil
    then show ?thesis using m'(3) \<open>\<not> apart g rng\<close> by auto
  next
    case (Cons y ys)
    then have "unat u < unat (r_lb y)" using u(3)[of y] by (simp add: word_less_nat_alt)
    then show ?thesis using unat_max_word[of "r_lb y"] by linarith
  qed
  have dn: "\<forall>y \<in> set (allranges m'). y \<in> set its \<or> apart y rng \<or> unat (r_ub y) < unat u + 1"
    using inv u(1) unfolding m'(3) by (auto simp: gap_inv_def g_def)
  have ahead: "unat u + 1 \<le> unat (r_ub y)" if "y \<in> set its" for y
  proof -
    have "r_lb y \<le> r_ub y"
      using inv that ecr.wf_setD by (fastforce simp: gap_inv_def range_ok_def)
    then show ?thesis using u(3)[OF that] by (simp add: word_less_nat_alt word_le_nat_alt)
  qed
  have "unat (r_lb rng) \<le> unat u + 1" "unat u + 1 \<le> 2 ^ 32"
    using inv u(1) unat_max_word[of u] by (auto simp: gap_inv_def)
  moreover have "\<forall>a. owns m' nec a \<longrightarrow> range_contains rng a"
    using ow sub inv by (auto simp: gap_inv_def)
  moreover have "all_ecs m' = all_ecs m0 \<and> owned_ecs m' = owned_ecs m0 \<and> mgr_ports m' = mgr_ports m0
      \<and> (\<forall>q. q \<noteq> nec \<longrightarrow> ec_heap m' q = ec_heap m0 q)"
    using inv m'(5-8) by (auto simp: gap_inv_def)
  moreover have "ecr.wf_set its \<and> (\<forall>y \<in> set its. y \<in> set (allranges m') \<and> \<not> apart y rng)"
    using inv m'(3) by (auto simp: gap_inv_def)
  ultimately have "gap_inv rng nec m0 (unat u + 1) its m'"
    unfolding gap_inv_def using m'(2,4) oth cov top dn ahead by blast
  then show ?thesis using m'(1) by blast
qed

lemma add_gaps_inv:
  assumes "gap_inv rng nec m0 L its m" and ok: "range_ok rng"
  shows "\<exists>L' m'. add_gaps nec its (word_of_nat L) m = Inr (word_of_nat L', m')
    \<and> gap_inv rng nec m0 L' [] m'"
  using assms(1)
proof (induction its arbitrary: L m)
  case Nil
  then show ?case by auto
next
  case (Cons it its)
  have L: "L < 2 ^ 32" using Cons.prems by (auto simp: gap_inv_def)
  then have ul: "unat (word_of_nat L :: ipv4) = L" by (simp add: unat_of_nat)
  have it: "\<not> apart it rng" "ecr.wf_set (it # its)" using Cons.prems by (auto simp: gap_inv_def)
  have step: "\<exists>L1 m1. (if word_of_nat L < r_lb it then add_gap nec (word_of_nat L) (r_lb it - 1) m
      else Inr m) = Inr m1 \<and> gap_inv rng nec m0 L1 (it # its) m1 \<and> unat (r_lb it) \<le> L1"
  proof (cases "word_of_nat L < r_lb it")
    case True
    have le: "a \<le> r_lb it - 1 \<longleftrightarrow> a < r_lb it" for a by (rule word_le_pred[OF True])
    have lt: "r_lb it - 1 < r_lb it" using le[of "r_lb it - 1"] by simp
    then have pred: "unat (r_lb it - 1) + 1 = unat (r_lb it)"
      by (metis True add.commute eq_diff_eq unat_minus_one unat_gt_0 word_not_simps(1) Suc_pred' plus_1_eq_Suc)
    have "L \<le> unat (r_lb it - 1)" using True pred ul by (simp add: word_less_nat_alt)
    moreover have "r_lb it - 1 \<le> r_ub rng"
      using lt it(1) by (auto simp: apart_def ecrange_less_def)
    moreover have "r_lb it - 1 < r_lb y" if "y \<in> set (it # its)" for y
      using wf_hd_last(1)[OF it(2) that] lt by auto
    ultimately obtain m1 where "add_gap nec (word_of_nat L) (r_lb it - 1) m = Inr m1"
        "gap_inv rng nec m0 (unat (r_lb it)) (it # its) m1"
      using gap_inv_fill[OF Cons.prems ok L, of "r_lb it - 1"] pred by auto
    then show ?thesis using True by auto
  next
    case False
    then show ?thesis using Cons.prems ul by (auto simp: word_less_nat_alt)
  qed
  then obtain L1 m1 where s: "(if word_of_nat L < r_lb it
        then add_gap nec (word_of_nat L) (r_lb it - 1) m else Inr m) = Inr m1"
      "gap_inv rng nec m0 L1 (it # its) m1" "unat (r_lb it) \<le> L1"
    by blast
  have e: "word_of_nat (unat (r_ub it) + 1) = r_ub it + 1" by simp
  show ?case
    using Cons.IH[OF gap_inv_advance[OF s(2,3)], unfolded e] s(1) by simp
qed

lemma others_ptr:
  assumes "others m' {nec} = set (allranges m)" and "p \<noteq> nec"
  shows "{r \<in> set (allranges m'). ec_ptr r = p} = {r \<in> set (allranges m). ec_ptr r = p}"
  using assms by (auto simp: others_def set_eq_iff)

text \<open>Coverage, the relation "in one class", and the addresses of owned classes: all that the
  rest of the program observes of the manager, up to the choice of pointers.\<close>

definition covered :: "eqclassmgr \<Rightarrow> ipv4 set" where
  "covered m = {a. \<exists>p. owns m p a}"

definition same_ec :: "eqclassmgr \<Rightarrow> (ipv4 \<times> ipv4) set" where
  "same_ec m = {(a, b). \<exists>p. owns m p a \<and> owns m p b}"

definition owned_addrs :: "eqclassmgr \<Rightarrow> ipv4 set" where
  "owned_addrs m = {a. \<exists>p \<in> set (owned_ecs m). owns m p a}"

definition addrs :: "'a ip_range_scheme \<Rightarrow> ipv4 set" where
  "addrs r = {a. range_contains r a}"

definition gap_done :: "ecrange \<Rightarrow> nat \<Rightarrow> eqclassmgr \<Rightarrow> eqclassmgr \<Rightarrow> bool" where
  "gap_done rng nec m m3 \<longleftrightarrow>
     ecr.wf_set (allranges m3) \<and> others m3 {nec} = set (allranges m)
     \<and> (\<forall>q. q \<noteq> nec \<longrightarrow> ec_heap m3 q = ec_heap m q) \<and> all_ecs m3 = all_ecs m
     \<and> owned_ecs m3 = owned_ecs m \<and> mgr_ports m3 = mgr_ports m
     \<and> (\<forall>a. owns m3 nec a \<longrightarrow> range_contains rng a)
     \<and> (\<forall>a. range_contains rng a \<longrightarrow> (\<exists>p. owns m3 p a))
     \<and> (exact m3 nec \<or> (class_ok m3 nec \<and> (\<nexists>r. r \<in> set (allranges m3) \<and> ec_ptr r = nec)))"

lemma gap_inv_done:
  assumes "gap_inv rng nec m L [] m3" and "\<And>a. range_contains rng a \<Longrightarrow> unat a < L"
  shows "gap_done rng nec m m3"
  using assms unfolding gap_inv_def gap_done_def by blast

lemma gap_wrapped:
  assumes inv: "gap_inv rng nec m (2 ^ 32) [] m2" and ok: "range_ok rng"
  shows "\<exists>m3. add_gap nec 0 (r_ub rng) m2 = Inr m3 \<and> gap_done rng nec m m3"
proof -
  define g where "g = \<lparr>r_lb = 0 :: ipv4, r_ub = r_ub rng, ec_ptr = nec\<rparr>"
  define m3 where "m3 = insert_range g (upd_ec nec (add_range g) m2)"
  have g: "range_ok g" by (simp add: g_def range_ok_def)
  have wf: "ecr.wf_set (allranges m2)" using inv by (simp add: gap_inv_def)
  have hit: "\<not> apart g y" if "\<not> apart y rng" for y
    using that by (auto simp: apart_def ecrange_less_def g_def)
  obtain y where "y \<in> set (allranges m2)" "\<not> apart y rng" using inv by (auto simp: gap_inv_def)
  then have ar: "allranges m3 = allranges m2"
    using set_insert_overlapping[OF wf g] hit by (simp add: m3_def)
  then have ow: "owns m3 p a = owns m2 p a" for p a by (simp add: owns_def)
  obtain c where c: "ec_heap m2 nec = Some c" "ecr.wf_set c"
      "set c = {r \<in> set (allranges m2). ec_ptr r = nec}"
    using inv by (auto simp: gap_inv_def exact_def)
  have h3: "ec_heap m3 nec = Some (add_range g c)" by (simp add: m3_def c(1))
  have "exact m3 nec \<or> (class_ok m3 nec \<and> (\<nexists>r. r \<in> set (allranges m3) \<and> ec_ptr r = nec))"
  proof (cases c)
    case Nil
    then have "add_range g c = [g]"
      by (simp add: add_range_def set_insert_def lower_bound_def)
    moreover have "\<nexists>r. r \<in> set (allranges m3) \<and> ec_ptr r = nec" using c(3) Nil ar by auto
    ultimately show ?thesis using h3 g by (auto simp: class_ok_def ecr.wf_set_Cons)
  next
    case (Cons r c')
    then have r: "r \<in> set c" by simp
    have "range_ok r" using ecr.wf_setD[OF c(2) r] .
    then have "range_contains r (r_lb r)" by (simp add: range_contains_def range_ok_def)
    then have "owns m2 nec (r_lb r)" using r c(3) by (auto simp: owns_def)
    then have "range_contains rng (r_lb r)" using inv by (auto simp: gap_inv_def)
    then have "\<not> apart r rng"
      using not_apart_iff[OF \<open>range_ok r\<close> ok] \<open>range_contains r (r_lb r)\<close> by blast
    then have "add_range g c = c"
      using set_insert_overlapping[OF c(2) g r hit] by (simp add: add_range_def)
    then have "exact m3 nec" using h3 c ar by (auto simp: exact_def)
    then show ?thesis ..
  qed
  moreover have "unat a < 2 ^ 32" for a :: ipv4 by (rule unat_max_word)
  ultimately have "gap_done rng nec m m3"
    using inv ow ar by (auto simp: gap_done_def gap_inv_def others_def m3_def)
  moreover have "add_gap nec 0 (r_ub rng) m2 = Inr m3"
    unfolding m3_def g_def by (rule add_gap_Inr) simp
  ultimately show ?thesis by blast
qed

lemma gap_inv_start:
  assumes ok: "ecmgr_ok m" and fr: "fresh_alloc alloc" and n: "new_ec alloc m = (nec, m1)"
  shows "gap_inv rng nec m (unat (r_lb rng)) (filter (\<lambda>y. \<not> apart y rng) (allranges m)) m1"
proof -
  note nx = new_ec_exact[OF ok fr n]
  let ?its = "filter (\<lambda>y. \<not> apart y rng) (allranges m)"
  have wf: "ecr.wf_set (allranges m)" by (rule ecmgr_okD(1)[OF ok])
  have p: "nec \<notin> ec_ptr ` set (allranges m)" using ecmgr_okD(6)[OF ok] nx(1) by auto
  have "\<not> owns m1 nec a" for a using p nx(8) by (auto simp: owns_def)
  moreover have "others m1 {nec} = set (allranges m)" using p nx(3) by (auto simp: others_def)
  moreover have "unat (r_lb rng) < 2 ^ 32" by (rule unat_max_word)
  moreover have "unat (r_lb rng) \<le> unat (r_ub y)" if "\<not> apart y rng" for y
    using that by (auto simp: apart_def ecrange_less_def word_le_nat_alt word_less_nat_alt)
  moreover have "\<not> unat a < unat (r_lb rng)" if "range_contains rng a" for a
    using that by (simp add: range_contains_def word_le_nat_alt)
  ultimately show "gap_inv rng nec m (unat (r_lb rng)) ?its m1"
    unfolding gap_inv_def using wf nx ecr.wf_set_filter[OF wf] by auto
qed

lemma add_gaps_done:
  assumes ok: "ecmgr_ok m" and fr: "fresh_alloc alloc" and rok: "range_ok rng"
    and n: "new_ec alloc m = (nec, m1)"
  shows "\<exists>l m2 m3. add_gaps nec (filter (\<lambda>y. \<not> apart y rng) (allranges m)) (r_lb rng) m1 = Inr (l, m2)
    \<and> (if l \<le> r_ub rng then add_gap nec l (r_ub rng) m2 else Inr m2) = Inr m3
    \<and> gap_done rng nec m m3"
proof -
  note nx = new_ec_exact[OF ok fr n]
  let ?its = "filter (\<lambda>y. \<not> apart y rng) (allranges m)"
  from add_gaps_inv[OF gap_inv_start[OF ok fr n] rok] obtain L m2 where
    g: "add_gaps nec ?its (r_lb rng) m1 = Inr (word_of_nat L, m2)" "gap_inv rng nec m L [] m2"
    by auto
  have "\<exists>m3. (if word_of_nat L \<le> r_ub rng then add_gap nec (word_of_nat L) (r_ub rng) m2 else Inr m2)
      = Inr m3 \<and> gap_done rng nec m m3"
  proof (cases "L = 2 ^ 32")
    case True
    have "(word_of_nat L :: ipv4) = 0" unfolding True by simp
    then show ?thesis using gap_wrapped[OF g(2)[unfolded True] rok] by simp
  next
    case False
    then have L: "L < 2 ^ 32" using g(2) by (simp add: gap_inv_def)
    then have ul: "unat (word_of_nat L :: ipv4) = L" by (simp add: unat_of_nat)
    show ?thesis
    proof (cases "word_of_nat L \<le> r_ub rng")
      case True
      then have "L \<le> unat (r_ub rng)" using ul by (simp add: word_le_nat_alt)
      from gap_inv_fill[OF g(2) rok L this] obtain m3 where
        "add_gap nec (word_of_nat L) (r_ub rng) m2 = Inr m3"
        "gap_inv rng nec m (unat (r_ub rng) + 1) [] m3"
        by auto
      moreover from this(2) have "gap_done rng nec m m3"
        by (rule gap_inv_done) (simp add: range_contains_def word_le_nat_alt)
      ultimately show ?thesis using True by simp
    next
      case False
      then have "gap_done rng nec m m2"
        using ul by (intro gap_inv_done[OF g(2)]) (auto simp: range_contains_def word_le_nat_alt)
      then show ?thesis using False by simp
    qed
  qed
  then show ?thesis using g(1) by auto
qed

lemma gap_done_owns:
  assumes ok: "ecmgr_ok m" and d: "gap_done rng nec m m3" and n: "nec \<notin> set (all_ecs m)"
  shows "owns m3 p a \<longleftrightarrow> owns m p a \<or> (p = nec \<and> range_contains rng a \<and> a \<notin> covered m)"
proof -
  have wf: "ecr.wf_set (allranges m3)" using d by (simp add: gap_done_def)
  have old: "owns m3 q a \<longleftrightarrow> owns m q a" if "q \<noteq> nec" for q
    using others_ptr[OF _ that, of m3 m] d by (auto simp: gap_done_def owns_def set_eq_iff)
  have "\<not> owns m nec a" using owns_all_ecs[OF ok] n by blast
  moreover have "owns m3 nec a \<longleftrightarrow> range_contains rng a \<and> a \<notin> covered m"
  proof
    assume o: "owns m3 nec a"
    then have "range_contains rng a" using d by (simp add: gap_done_def)
    moreover have "\<not> owns m q a" for q
      using owns_unique[OF wf o, of q] old[of q] \<open>\<not> owns m nec a\<close> by metis
    ultimately show "range_contains rng a \<and> a \<notin> covered m" by (simp add: covered_def)
  next
    assume "range_contains rng a \<and> a \<notin> covered m"
    then obtain q where "owns m3 q a" "\<not> owns m q a"
      using d by (auto simp: gap_done_def covered_def)
    then show "owns m3 nec a" using old[of q] by (cases "q = nec") auto
  qed
  ultimately show ?thesis using old by (cases "p = nec") auto
qed


lemma gap_done_class:
  assumes "gap_done rng nec m m3"
  obtains c where "ec_heap m3 nec = Some c" "ecr.wf_set c"
    "c = [] \<longrightarrow> (\<nexists>r. r \<in> set (allranges m3) \<and> ec_ptr r = nec)" "c \<noteq> [] \<longrightarrow> class_ok m3 nec"
proof -
  from assms consider "exact m3 nec"
    | "class_ok m3 nec" "\<nexists>r. r \<in> set (allranges m3) \<and> ec_ptr r = nec"
    by (auto simp: gap_done_def)
  then show thesis
  proof cases
    case 1
    then obtain c where c: "ec_heap m3 nec = Some c" "ecr.wf_set c"
        "set c = {r \<in> set (allranges m3). ec_ptr r = nec}"
      by (auto simp: exact_def)
    have "c = [] \<longrightarrow> (\<nexists>r. r \<in> set (allranges m3) \<and> ec_ptr r = nec)"
    proof
      assume "c = []"
      then have "{r \<in> set (allranges m3). ec_ptr r = nec} = {}" using c(3) by simp
      then show "\<nexists>r. r \<in> set (allranges m3) \<and> ec_ptr r = nec" by blast
    qed
    moreover have "c \<noteq> [] \<longrightarrow> class_ok m3 nec" using c by (simp add: class_ok_def)
    ultimately show thesis using that c by blast
  next
    case 2
    then show thesis using that by (auto simp: class_ok_def)
  qed
qed

lemma gap_done_frame:
  assumes "ecmgr_ok m" "gap_done rng nec m m3" "nec \<notin> set (all_ecs m)" "ec_heap m3 nec = Some c"
  shows "ec_ptr ` set (allranges m3) \<subseteq> insert nec (set (all_ecs m))"
    and "dom (ec_heap m3) = insert nec (set (all_ecs m))"
    and "all_ecs m3 = all_ecs m" "owned_ecs m3 = owned_ecs m" "mgr_ports m3 = mgr_ports m"
    and "ecr.wf_set (allranges m3)"
    and "p \<in> set (all_ecs m) \<Longrightarrow> ec_heap m' p = ec_heap m3 p \<Longrightarrow> allranges m' = allranges m3 \<Longrightarrow> class_ok m' p"
proof -
  have "others m3 {nec} = set (allranges m)" using assms(2) by (simp add: gap_done_def)
  then show "ec_ptr ` set (allranges m3) \<subseteq> insert nec (set (all_ecs m))"
    using ecmgr_okD(6)[OF assms(1)] by (auto simp: others_def)
  have "dom (ec_heap m3) = insert nec (dom (ec_heap m))"
    using assms(2,4) by (auto simp: gap_done_def dom_def)
  then show "dom (ec_heap m3) = insert nec (set (all_ecs m))" using ecmgr_okD(5)[OF assms(1)] by simp
  show "all_ecs m3 = all_ecs m" "owned_ecs m3 = owned_ecs m" "mgr_ports m3 = mgr_ports m"
      "ecr.wf_set (allranges m3)"
    using assms(2) by (auto simp: gap_done_def)
  show "class_ok m' p" if p: "p \<in> set (all_ecs m)" and h: "ec_heap m' p = ec_heap m3 p"
    and ar: "allranges m' = allranges m3"
  proof -
    have ne: "p \<noteq> nec" using p assms(3) by auto
    then have "ec_heap m' p = ec_heap m p" using assms(2) h by (auto simp: gap_done_def)
    then show ?thesis
      using ne ecmgr_okD(7)[OF assms(1) p] others_ptr[of m3 nec m p] assms(2)
      by (auto simp: class_ok_def gap_done_def ar set_eq_iff)
  qed
qed

lemma add_non_overlapped:
  assumes ok: "ecmgr_ok m" and fr: "fresh_alloc alloc" and rok: "range_ok rng"
  shows "\<exists>m' nec. add_non_overlapped_ec alloc rng owned m = Inr m' \<and> ecmgr_ok m'
    \<and> nec \<notin> set (all_ecs m)
    \<and> (\<forall>p a. owns m' p a \<longleftrightarrow> owns m p a \<or> (p = nec \<and> a \<in> addrs rng - covered m))
    \<and> (set (owned_ecs m') = set (owned_ecs m) \<union> (if owned then {nec} else {})
       \<or> set (owned_ecs m') = set (owned_ecs m) \<and> addrs rng \<subseteq> covered m)
    \<and> set (all_ecs m) \<subseteq> set (all_ecs m') \<and> mgr_ports m' = mgr_ports m"
proof -
  obtain nec m1 where n: "new_ec alloc m = (nec, m1)" by fastforce
  note nx = new_ec_exact[OF ok fr n]
  obtain l m2 m3 where g:
      "add_gaps nec (filter (\<lambda>y. \<not> apart y rng) (allranges m)) (r_lb rng) m1 = Inr (l, m2)"
      "(if l \<le> r_ub rng then add_gap nec l (r_ub rng) m2 else Inr m2) = Inr m3"
      "gap_done rng nec m m3"
    using add_gaps_done[OF ok fr rok n] by blast
  note ow = gap_done_owns[OF ok g(3) nx(1)]
  have wf: "ecr.wf_set (allranges m)" by (rule ecmgr_okD(1)[OF ok])
  obtain c where c: "ec_heap m3 nec = Some c" "ecr.wf_set c"
    "c = [] \<longrightarrow> (\<nexists>r. r \<in> set (allranges m3) \<and> ec_ptr r = nec)" "c \<noteq> [] \<longrightarrow> class_ok m3 nec"
    using gap_done_class[OF g(3)] by blast
  define m' where "m' = (if c = [] then m3\<lparr>ec_heap := (ec_heap m3)(nec := None)\<rparr>
    else let m4 = m3\<lparr>all_ecs := oset_insert nec (all_ecs m3)\<rparr>
         in if owned then m4\<lparr>owned_ecs := oset_insert nec (owned_ecs m4)\<rparr> else m4)"
  have res: "add_non_overlapped_ec alloc rng owned m = Inr m'"
    using g(1,2) c(1)
    by (simp add: add_non_overlapped_ec_def n overlapped_scan(1)[OF wf rok] nx(3) deref_ec_def
        ec_empty_def m'_def Let_def)
  have ar: "allranges m' = allranges m3" by (simp add: m'_def Let_def)
  have ow': "owns m' p a = owns m3 p a" for p a by (simp add: owns_def ar)
  note fr3 = gap_done_frame[OF ok g(3) nx(1) c(1)]
  have cls: "class_ok m' p" if p: "p \<in> set (all_ecs m)" for p
  proof (rule fr3(7)[OF p _ ar])
    have "p \<noteq> nec" using p nx(1) by auto
    then show "ec_heap m' p = ec_heap m3 p" by (simp add: m'_def Let_def)
  qed
  note ptrs = fr3(1) and dm = fr3(2) and same = fr3(3-6)
  note inv = ecmgr_okD[OF ok]
  have "ecmgr_ok m' \<and> (set (owned_ecs m') = set (owned_ecs m) \<union> (if owned then {nec} else {})
      \<or> set (owned_ecs m') = set (owned_ecs m) \<and> addrs rng \<subseteq> covered m)
    \<and> set (all_ecs m) \<subseteq> set (all_ecs m') \<and> mgr_ports m' = mgr_ports m"
  proof (cases "c = []")
    case True
    then have m': "m' = m3\<lparr>ec_heap := (ec_heap m3)(nec := None)\<rparr>" by (simp add: m'_def)
    have none: "nec \<notin> ec_ptr ` set (allranges m3)" using c(3) True by auto
    then have "\<not> owns m3 nec a" for a by (auto simp: owns_def)
    then have "addrs rng \<subseteq> covered m" using ow by (auto simp: addrs_def)
    moreover have "ec_ptr ` set (allranges m3) \<subseteq> set (all_ecs m)" using ptrs none by auto
    moreover have "dom (ec_heap m') = set (all_ecs m)" using dm nx(1) by (auto simp: m')
    ultimately show ?thesis
      using same inv(2-4) cls by (simp add: ecmgr_ok_def m')
  next
    case False
    have all: "set (all_ecs m') = insert nec (set (all_ecs m))" "oset (all_ecs m')"
      using False inv(2) same by (auto simp: m'_def Let_def)
    have own: "set (owned_ecs m') = set (owned_ecs m) \<union> (if owned then {nec} else {})"
        "oset (owned_ecs m')"
      using False inv(3) same by (auto simp: m'_def Let_def)
    have hp: "ec_heap m' = ec_heap m3" using False by (simp add: m'_def Let_def)
    have "class_ok m' nec" using c(4) False by (simp add: class_ok_def hp ar)
    then have "\<forall>p \<in> set (all_ecs m'). class_ok m' p" using cls all by auto
    moreover have "set (owned_ecs m') \<subseteq> set (all_ecs m')" using inv(4) all own by auto
    ultimately have "ecmgr_ok m'"
      unfolding ecmgr_ok_def using same(4) all own(2) ptrs dm by (simp add: ar hp)
    then show ?thesis using own all same(3) False by (auto simp: m'_def Let_def)
  qed
  then show ?thesis using res nx(1) ow ow' by (auto simp: addrs_def)
qed

section \<open>Adding a range: the contract\<close>

lemma add_overlapped_step:
  assumes ok: "ecmgr_ok m" and fr: "fresh_alloc alloc" and rok: "range_ok rng"
    and x: "owns m x a0" "a0 \<in> addrs rng"
  shows "\<exists>m'. add_overlapped alloc rng owned x m = Inr m' \<and> ecmgr_ok m'
    \<and> covered m' = covered m
    \<and> (\<forall>p a. p \<in> set (all_ecs m) \<longrightarrow> p \<noteq> x \<longrightarrow> owns m' p a = owns m p a)
    \<and> same_ec m' = {(a, b) \<in> same_ec m. owns m x a \<longrightarrow> (a \<in> addrs rng \<longleftrightarrow> b \<in> addrs rng)}
    \<and> owned_addrs m' = owned_addrs m \<union> (if owned then addrs rng \<inter> {a. owns m x a} else {})
    \<and> set (all_ecs m) \<subseteq> set (all_ecs m') \<and> mgr_ports m' = mgr_ports m"
proof -
  have wf: "ecr.wf_set (allranges m)" by (rule ecmgr_okD(1)[OF ok])
  have ex: "exact m x" by (rule exact_owned[OF ok x(1)])
  then obtain c where c: "ec_heap m x = Some c" "ecr.wf_set c"
      "set c = {r \<in> set (allranges m). ec_ptr r = x}"
    by (auto simp: exact_def)
  have "c \<noteq> []" using x(1) c(3) by (auto simp: owns_def)
  note ce = ecrange_contains_ec_eq[OF c(2) this, of rng]
  have ins: "(\<forall>r \<in> set c. inside r rng) \<longleftrightarrow> (\<forall>a. owns m x a \<longrightarrow> a \<in> addrs rng)"
    using c(3) inside_iff ecr.wf_setD[OF c(2)] by (fastforce simp: owns_def addrs_def)
  show ?thesis
  proof (cases "\<forall>a. owns m x a \<longrightarrow> a \<in> addrs rng")
    case True
    define m' where "m' = (if owned then m\<lparr>owned_ecs := oset_insert x (owned_ecs m)\<rparr> else m)"
    have res: "add_overlapped alloc rng owned x m = Inr m'"
      using c(1) ce ins True by (simp add: add_overlapped_def deref_ec_def m'_def)
    have ow: "owns m' p a = owns m p a" for p a by (simp add: owns_def m'_def)
    have f: "covered m' = covered m" "same_ec m' = same_ec m" by (simp_all add: covered_def same_ec_def ow)
    have os: "set (owned_ecs m') = set (owned_ecs m) \<union> (if owned then {x} else {})"
      using ecmgr_okD(3)[OF ok] by (auto simp: m'_def)
    have "ecmgr_ok m'"
      using ok owns_all_ecs[OF ok x(1)] by (auto simp: m'_def ecmgr_ok_def class_ok_def)
    moreover have "same_ec m = {(a, b) \<in> same_ec m. owns m x a \<longrightarrow> (a \<in> addrs rng \<longleftrightarrow> b \<in> addrs rng)}"
      using True owns_unique[OF wf] by (auto simp: same_ec_def)
    moreover have "owned_addrs m' = owned_addrs m \<union> (if owned then addrs rng \<inter> {a. owns m x a} else {})"
      using True os by (auto simp: owned_addrs_def ow)
    ultimately show ?thesis using res f ow by (auto simp: m'_def)
  next
    case False
    then obtain b0 where b0: "owns m x b0" "\<not> range_contains rng b0" by (auto simp: addrs_def)
    have a0: "range_contains rng a0" using x(2) by (simp add: addrs_def)
    obtain nec m' where m': "split_intersected_ec alloc x rng owned m = Inr m'" "ecmgr_ok m'"
        "nec \<notin> set (all_ecs m)" "set (all_ecs m') = insert nec (set (all_ecs m))"
        "\<forall>p a. owns m' p a \<longleftrightarrow> (if owns m x a \<and> range_contains rng a then p = nec else owns m p a)"
        "set (owned_ecs m') = (if owned \<or> x \<in> set (owned_ecs m) then {nec} else {}) \<union> set (owned_ecs m)"
        "mgr_ports m' = mgr_ports m"
      using split_intersected[OF ok fr rok x(1) a0 b0] by blast
    have res: "add_overlapped alloc rng owned x m = Inr m'"
      using c(1) ce ins False m'(1) by (simp add: add_overlapped_def deref_ec_def)
    have nn: "\<not> owns m nec a" for a using owns_all_ecs[OF ok] m'(3) by blast
    have u: "p = q" if "owns m p a" "owns m q a" for p q a using owns_unique[OF wf that] .
    have "covered m' = covered m" using m'(5) by (auto simp: covered_def)
    moreover have "owns m' p a = owns m p a" if "p \<in> set (all_ecs m)" "p \<noteq> x" for p a
      using m'(3,5) that u[of x a p] by auto
    moreover have "same_ec m' = {(a, b) \<in> same_ec m. owns m x a \<longrightarrow> (a \<in> addrs rng \<longleftrightarrow> b \<in> addrs rng)}"
      using m'(5) nn u unfolding same_ec_def addrs_def by (auto split: if_splits) metis+
    moreover have "owned_addrs m' = owned_addrs m \<union> (if owned then addrs rng \<inter> {a. owns m x a} else {})"
    proof -
      have nec: "nec \<notin> set (owned_ecs m)" using ecmgr_okD(4)[OF ok] m'(3) by blast
      show ?thesis
        using m'(5) nn u nec unfolding owned_addrs_def m'(6) addrs_def
        by (auto split: if_splits) metis
    qed
    ultimately show ?thesis using res m'(2,4,7) by (intro exI[of _ m']) auto
  qed
qed


lemma add_overlapped_all:
  assumes "ecmgr_ok m" and fr: "fresh_alloc alloc" and rok: "range_ok rng" and "distinct xs"
    and "\<And>x. x \<in> set xs \<Longrightarrow> \<exists>a \<in> addrs rng. owns m x a"
  shows "\<exists>m'. foldR (add_overlapped alloc rng owned) xs m = Inr m' \<and> ecmgr_ok m'
    \<and> covered m' = covered m
    \<and> same_ec m' = {(a, b) \<in> same_ec m.
         \<forall>x \<in> set xs. owns m x a \<longrightarrow> (a \<in> addrs rng \<longleftrightarrow> b \<in> addrs rng)}
    \<and> owned_addrs m' = owned_addrs m
         \<union> (if owned then addrs rng \<inter> {a. \<exists>x \<in> set xs. owns m x a} else {})
    \<and> set (all_ecs m) \<subseteq> set (all_ecs m') \<and> mgr_ports m' = mgr_ports m"
  using assms(1,4,5)
proof (induction xs arbitrary: m)
  case Nil
  then show ?case by simp
next
  case (Cons x xs)
  obtain a0 where "owns m x a0" "a0 \<in> addrs rng" using Cons.prems(3)[of x] by auto
  from add_overlapped_step[OF Cons.prems(1) fr rok this] obtain m1 where m1:
      "add_overlapped alloc rng owned x m = Inr m1" "ecmgr_ok m1" "covered m1 = covered m"
      "\<forall>p a. p \<in> set (all_ecs m) \<longrightarrow> p \<noteq> x \<longrightarrow> owns m1 p a = owns m p a"
      "same_ec m1 = {(a, b) \<in> same_ec m. owns m x a \<longrightarrow> (a \<in> addrs rng \<longleftrightarrow> b \<in> addrs rng)}"
      "owned_addrs m1 = owned_addrs m \<union> (if owned then addrs rng \<inter> {a. owns m x a} else {})"
      "set (all_ecs m) \<subseteq> set (all_ecs m1)" "mgr_ports m1 = mgr_ports m"
    by blast
  have keep: "owns m1 y a = owns m y a" if "y \<in> set xs" for y a
  proof -
    have "y \<in> set (all_ecs m)" using Cons.prems(3)[of y] that owns_all_ecs[OF Cons.prems(1)] by auto
    then show ?thesis using m1(4) Cons.prems(2) that by auto
  qed
  have d: "distinct xs" using Cons.prems(2) by simp
  have hit: "\<exists>a \<in> addrs rng. owns m1 y a" if "y \<in> set xs" for y
    using Cons.prems(3)[of y] that keep by auto
  obtain m' where m': "foldR (add_overlapped alloc rng owned) xs m1 = Inr m'" "ecmgr_ok m'"
      "covered m' = covered m1"
      "same_ec m' = {(a, b) \<in> same_ec m1.
         \<forall>x \<in> set xs. owns m1 x a \<longrightarrow> (a \<in> addrs rng \<longleftrightarrow> b \<in> addrs rng)}"
      "owned_addrs m' = owned_addrs m1
         \<union> (if owned then addrs rng \<inter> {a. \<exists>x \<in> set xs. owns m1 x a} else {})"
      "set (all_ecs m1) \<subseteq> set (all_ecs m')" "mgr_ports m' = mgr_ports m1"
    using Cons.IH[OF m1(2) d hit] by blast
  have "same_ec m' = {(a, b) \<in> same_ec m.
         \<forall>x \<in> set (x # xs). owns m x a \<longrightarrow> (a \<in> addrs rng \<longleftrightarrow> b \<in> addrs rng)}"
    unfolding m'(4) m1(5) using keep by auto
  moreover have "owned_addrs m' = owned_addrs m
      \<union> (if owned then addrs rng \<inter> {a. \<exists>x \<in> set (x # xs). owns m x a} else {})"
    unfolding m'(5) m1(6) using keep by auto
  ultimately show ?case using m1(1,3,7,8) m'(1-3,6,7) by auto
qed

text \<open>The abstract manager: the covered addresses, an equivalence on them, and the owned
  addresses. Adding a range cuts the classes along it and adds one class for what was not
  covered.\<close>

type_synonym ec_spec = "ipv4 set \<times> (ipv4 \<times> ipv4) set \<times> ipv4 set"

definition ec_abs :: "eqclassmgr \<Rightarrow> ec_spec" where
  "ec_abs m = (covered m, same_ec m, owned_addrs m)"

definition spec_add_ec :: "ipv4 set \<Rightarrow> bool \<Rightarrow> ec_spec \<Rightarrow> ec_spec" where
  "spec_add_ec R owned = (\<lambda>(C, E, W).
     (C \<union> R, {(a, b) \<in> E. a \<in> R \<longleftrightarrow> b \<in> R} \<union> (R - C) \<times> (R - C), if owned then W \<union> R else W))"

lemma add_ec_contract:
  assumes ok: "ecmgr_ok m" and fr: "fresh_alloc alloc" and rok: "range_ok rng"
  shows "\<exists>m'. add_ec alloc rng owned m = Inr m' \<and> ecmgr_ok m'
    \<and> ec_abs m' = spec_add_ec (addrs rng) owned (ec_abs m)
    \<and> set (all_ecs m) \<subseteq> set (all_ecs m') \<and> mgr_ports m' = mgr_ports m"
proof -
  let ?xs = "get_overlapped_ecs rng False m" and ?R = "addrs rng" and ?C = "covered m"
  have xs: "distinct ?xs" "set ?xs = {p. \<exists>a. a \<in> ?R \<and> owns m p a}"
    using get_overlapped_ecs_set[OF ok rok, of False] oset_distinct by (auto simp: addrs_def)
  have "\<exists>a \<in> ?R. owns m x a" if "x \<in> set ?xs" for x using xs(2) that by auto
  from add_overlapped_all[OF ok fr rok xs(1) this] obtain m1 where m1:
      "foldR (add_overlapped alloc rng owned) ?xs m = Inr m1" "ecmgr_ok m1" "covered m1 = ?C"
      "same_ec m1 = {(a, b) \<in> same_ec m.
         \<forall>x \<in> set ?xs. owns m x a \<longrightarrow> (a \<in> ?R \<longleftrightarrow> b \<in> ?R)}"
      "owned_addrs m1 = owned_addrs m
         \<union> (if owned then ?R \<inter> {a. \<exists>x \<in> set ?xs. owns m x a} else {})"
      "set (all_ecs m) \<subseteq> set (all_ecs m1)" "mgr_ports m1 = mgr_ports m"
    by blast
  obtain m' nec where m': "add_non_overlapped_ec alloc rng owned m1 = Inr m'" "ecmgr_ok m'"
      "nec \<notin> set (all_ecs m1)"
      "\<forall>p a. owns m' p a \<longleftrightarrow> owns m1 p a \<or> (p = nec \<and> a \<in> ?R - covered m1)"
      "set (owned_ecs m') = set (owned_ecs m1) \<union> (if owned then {nec} else {})
       \<or> set (owned_ecs m') = set (owned_ecs m1) \<and> ?R \<subseteq> covered m1"
      "set (all_ecs m1) \<subseteq> set (all_ecs m')" "mgr_ports m' = mgr_ports m1"
    using add_non_overlapped[OF m1(2) fr rok] by blast
  have nn: "\<not> owns m1 nec a" for a using owns_all_ecs[OF m1(2)] m'(3) by blast
  have cut: "same_ec m1 = {(a, b) \<in> same_ec m. a \<in> ?R \<longleftrightarrow> b \<in> ?R}"
  proof -
    have "(\<forall>x \<in> set ?xs. owns m x a \<longrightarrow> (a \<in> ?R \<longleftrightarrow> b \<in> ?R)) \<longleftrightarrow> (a \<in> ?R \<longleftrightarrow> b \<in> ?R)"
      if ab: "(a, b) \<in> same_ec m" for a b
    proof -
      obtain p where "owns m p a" "owns m p b" using ab by (auto simp: same_ec_def)
      then show ?thesis unfolding xs(2) by blast
    qed
    then show ?thesis unfolding m1(4) by blast
  qed
  have "a \<in> covered m' \<longleftrightarrow> a \<in> covered m1 \<or> a \<in> ?R" for a
    using m'(4) unfolding covered_def by blast
  then have "covered m' = ?C \<union> ?R" using m1(3) by auto
  moreover have "same_ec m' = same_ec m1 \<union> (?R - ?C) \<times> (?R - ?C)"
    using m'(4) nn unfolding m1(3) by (auto simp: same_ec_def)
  moreover have "owned_addrs m' = (if owned then owned_addrs m \<union> ?R else owned_addrs m)"
  proof -
    have "nec \<notin> set (owned_ecs m1)" using ecmgr_okD(4)[OF m1(2)] m'(3) by blast
    then have "owned_addrs m' = owned_addrs m1 \<union> (if owned then ?R - ?C else {})"
      using m'(4,5) nn unfolding m1(3) by (auto simp: owned_addrs_def)
    moreover have "owned_addrs m1 = owned_addrs m \<union> (if owned then ?R \<inter> ?C else {})"
      unfolding m1(5) using xs(2) by (auto simp: covered_def)
    ultimately show ?thesis by auto
  qed
  ultimately have "ec_abs m' = spec_add_ec ?R owned (ec_abs m)"
    by (simp add: ec_abs_def spec_add_ec_def cut)
  then show ?thesis using m1(1,6,7) m'(1,2,6,7) by (auto simp: add_ec_def)
qed

text \<open>C3. \<open>add_ec\<close> implements the abstract manager: it never fails, keeps the invariant, cuts
  every class along the new range, puts the addresses not covered before into one new class,
  and, on request, makes every class inside the range owned.\<close>

theorem add_ec_refines:
  assumes "ecmgr_ok m" and "fresh_alloc alloc" and "range_ok rng"
  shows "\<exists>m'. add_ec alloc rng owned m = Inr m' \<and> ecmgr_ok m'
    \<and> ec_abs m' = spec_add_ec (addrs rng) owned (ec_abs m)"
  using add_ec_contract[OF assms] by blast

definition sum_alloc :: "nat list \<Rightarrow> nat" where
  "sum_alloc xs = Suc (sum_list xs)"

lemma sum_alloc_fresh: "fresh_alloc sum_alloc"
proof -
  have "x \<le> sum_list xs" if "x \<in> set xs" for x and xs :: "nat list"
    using that member_le_sum_list by auto
  then have "Suc (sum_list xs) \<notin> set xs" for xs by (metis Suc_n_not_le_n)
  then show ?thesis by (auto simp: fresh_alloc_def sum_alloc_def)
qed

theorem add_ec_refines_witness:
  "\<exists>m1 m2. add_ec sum_alloc \<lparr>r_lb = 0x0A000000, r_ub = 0x0AFFFFFF, ec_ptr = 0\<rparr> False ecmgr_init = Inr m1
     \<and> add_ec sum_alloc \<lparr>r_lb = 0x0A010000, r_ub = 0x0A01FFFF, ec_ptr = 0\<rparr> True m1 = Inr m2
     \<and> (0x0A000001, 0x0AFF0000) \<in> same_ec m2 \<and> (0x0A000001, 0x0A010000) \<notin> same_ec m2
     \<and> 0x0A010000 \<in> owned_addrs m2"
proof -
  let ?a = "\<lparr>r_lb = 0x0A000000, r_ub = 0x0AFFFFFF, ec_ptr = 0\<rparr> :: ecrange"
  let ?b = "\<lparr>r_lb = 0x0A010000, r_ub = 0x0A01FFFF, ec_ptr = 0\<rparr> :: ecrange"
  have ok: "range_ok ?a" "range_ok ?b" by (simp_all add: range_ok_def)
  obtain m1 where m1: "add_ec sum_alloc ?a False ecmgr_init = Inr m1" "ecmgr_ok m1"
      "ec_abs m1 = spec_add_ec (addrs ?a) False (ec_abs ecmgr_init)"
    using add_ec_refines[OF ecmgr_init_ok sum_alloc_fresh ok(1)] by blast
  obtain m2 where m2: "add_ec sum_alloc ?b True m1 = Inr m2"
      "ec_abs m2 = spec_add_ec (addrs ?b) True (ec_abs m1)"
    using add_ec_refines[OF m1(2) sum_alloc_fresh ok(2)] by blast
  have i: "ec_abs ecmgr_init = ({}, {}, {})"
    by (simp add: ec_abs_def covered_def same_ec_def owned_addrs_def owns_def ecmgr_init_def)
  have s: "same_ec m2 = {(a, b) \<in> addrs ?a \<times> addrs ?a. a \<in> addrs ?b \<longleftrightarrow> b \<in> addrs ?b}
        \<union> (addrs ?b - addrs ?a) \<times> (addrs ?b - addrs ?a)"
      "owned_addrs m2 = addrs ?b"
    using m2(2) unfolding m1(3) i by (auto simp: ec_abs_def spec_add_ec_def)
  have "(0x0A000001, 0x0AFF0000) \<in> same_ec m2 \<and> (0x0A000001, 0x0A010000) \<notin> same_ec m2
     \<and> 0x0A010000 \<in> owned_addrs m2"
    unfolding s by (simp add: addrs_def range_contains_def)
  then show ?thesis using m1(1) m2(1) by blast
qed

theorem get_overlapped_ecs_spec_witness:
  "\<exists>m. add_ec sum_alloc \<lparr>r_lb = 0x0A000000, r_ub = 0x0AFFFFFF, ec_ptr = 0\<rparr> False ecmgr_init = Inr m
     \<and> set (get_overlapped_ecs \<lparr>r_lb = 0x0AFF0000, r_ub = 0x0B000000, ec_ptr = 0\<rparr> False m) \<noteq> {}"
proof -
  let ?a = "\<lparr>r_lb = 0x0A000000, r_ub = 0x0AFFFFFF, ec_ptr = 0\<rparr> :: ecrange"
  let ?b = "\<lparr>r_lb = 0x0AFF0000, r_ub = 0x0B000000, ec_ptr = 0\<rparr> :: ecrange"
  have ok: "range_ok ?a" "range_ok ?b" by (simp_all add: range_ok_def)
  obtain m where m: "add_ec sum_alloc ?a False ecmgr_init = Inr m" "ecmgr_ok m"
      "ec_abs m = spec_add_ec (addrs ?a) False (ec_abs ecmgr_init)"
    using add_ec_contract[OF ecmgr_init_ok sum_alloc_fresh ok(1)] by blast
  have "0x0AFF0000 \<in> covered m"
    using m(3) by (auto simp: ec_abs_def spec_add_ec_def addrs_def range_contains_def)
  then obtain p where "owns m p 0x0AFF0000" by (auto simp: covered_def)
  moreover have "range_contains ?b 0x0AFF0000" by (simp add: range_contains_def)
  ultimately have "p \<in> set (get_overlapped_ecs ?b False m)"
    using get_overlapped_ecs_spec[OF m(2) ok(2), of False] by blast
  then show ?thesis using m(1) by auto
qed

theorem find_ec_spec_witness:
  "\<exists>m p. add_ec sum_alloc \<lparr>r_lb = 0x0A000000, r_ub = 0x0AFFFFFF, ec_ptr = 0\<rparr> False ecmgr_init = Inr m
     \<and> find_ec 0x0A000001 m = Inr p
     \<and> find_ec 0x0B000001 m = Inl (Runtime_error ''Cannot find the EC of '')"
proof -
  let ?a = "\<lparr>r_lb = 0x0A000000, r_ub = 0x0AFFFFFF, ec_ptr = 0\<rparr> :: ecrange"
  have ok: "range_ok ?a" by (simp add: range_ok_def)
  obtain m where m: "add_ec sum_alloc ?a False ecmgr_init = Inr m" "ecmgr_ok m"
      "ec_abs m = spec_add_ec (addrs ?a) False (ec_abs ecmgr_init)"
    using add_ec_contract[OF ecmgr_init_ok sum_alloc_fresh ok] by blast
  have c: "covered m = addrs ?a"
    using m(3) by (auto simp: ec_abs_def spec_add_ec_def covered_def owns_def ecmgr_init_def)
  have "0x0A000001 \<in> covered m" "0x0B000001 \<notin> covered m"
    unfolding c by (simp_all add: addrs_def range_contains_def)
  then show ?thesis using find_ec_spec[OF m(2)] m(1) by (auto simp: covered_def)
qed

text \<open>
  The cursor of \<open>add_non_overlapped_ec\<close> wraps to 0.0.0.0 after a range that ends at
  255.255.255.255. When the new range is already covered, the code then creates a class for
  \<open>[0.0.0.0, ub]\<close> that no range points to.
\<close>

lemma gap_loop_wraps:
  assumes inv: "gap_inv rng nec m L [] m2" and sub: "addrs rng \<subseteq> covered m"
    and top: "r \<in> set (allranges m)" "\<not> apart r rng" "r_ub r = - 1"
    and n: "nec \<notin> set (all_ecs m)" and ok: "ecmgr_ok m"
  shows "L = 2 ^ 32" and "ec_heap m2 nec = Some []" and "r \<in> set (allranges m2)"
    and "\<And>a. \<not> owns m2 nec a"
proof -
  have oth: "others m2 {nec} = set (allranges m)" using inv by (simp add: gap_inv_def)
  then show r: "r \<in> set (allranges m2)" using top(1) by (auto simp: others_def)
  then have "unat (r_ub r) < L" using inv top(2) by (auto simp: gap_inv_def)
  moreover have "unat (- 1 :: ipv4) = 2 ^ 32 - 1" by (simp add: unsigned_minus_1_eq_mask mask_eq_exp_minus_1)
  moreover have "L \<le> 2 ^ 32" using inv by (simp add: gap_inv_def)
  ultimately show "L = 2 ^ 32" using top(3) by simp
  show none: "\<not> owns m2 nec a" for a
  proof
    assume o: "owns m2 nec a"
    then have "a \<in> covered m" using inv sub by (auto simp: gap_inv_def addrs_def)
    then obtain q where q: "owns m q a" by (auto simp: covered_def)
    then have "q \<noteq> nec" using owns_all_ecs[OF ok q] n by auto
    then have "owns m2 q a" using q others_ptr[OF oth] by (auto simp: owns_def set_eq_iff)
    then show False using owns_unique[of m2 q a nec] o \<open>q \<noteq> nec\<close> inv by (auto simp: gap_inv_def)
  qed
  obtain c where c: "ec_heap m2 nec = Some c" "ecr.wf_set c"
      "set c = {r \<in> set (allranges m2). ec_ptr r = nec}"
    using inv by (auto simp: gap_inv_def exact_def)
  have "c = []"
  proof (rule ccontr)
    assume "c \<noteq> []"
    then have h: "hd c \<in> set c" by simp
    then have "range_contains (hd c) (r_lb (hd c))"
      using ecr.wf_setD[OF c(2) h] by (simp add: range_contains_def range_ok_def)
    then show False using none c(3) h by (auto simp: owns_def)
  qed
  then show "ec_heap m2 nec = Some []" using c(1) by simp
qed

text \<open>Adding a range that is already covered and overlaps a range ending at 255.255.255.255
  (a second default route, for example) creates a class for \<open>[0.0.0.0, ub]\<close> that is counted in
  \<open>_all_ecs\<close> but owns no address: the cursor \<open>lb = ub + 1\<close> has wrapped to 0.\<close>

theorem covered_top_range_adds_stray_class:
  assumes ok: "ecmgr_ok m" and fr: "fresh_alloc alloc" and rok: "range_ok rng"
    and sub: "addrs rng \<subseteq> covered m"
    and top: "r \<in> set (allranges m)" "\<not> apart r rng" "r_ub r = - 1"
  shows "\<exists>m' p. add_non_overlapped_ec alloc rng owned m = Inr m' \<and> p \<notin> set (all_ecs m)
    \<and> set (all_ecs m') = insert p (set (all_ecs m))
    \<and> ec_heap m' p = Some [\<lparr>r_lb = 0, r_ub = r_ub rng, ec_ptr = p\<rparr>] \<and> (\<forall>a. \<not> owns m' p a)"
proof -
  obtain nec m1 where n: "new_ec alloc m = (nec, m1)" by fastforce
  note nx = new_ec_exact[OF ok fr n]
  define g where "g = \<lparr>r_lb = 0 :: ipv4, r_ub = r_ub rng, ec_ptr = nec\<rparr>"
  have wf: "ecr.wf_set (allranges m)" by (rule ecmgr_okD(1)[OF ok])
  obtain L m2 where L: "add_gaps nec (filter (\<lambda>y. \<not> apart y rng) (allranges m)) (r_lb rng) m1
        = Inr (word_of_nat L, m2)" "gap_inv rng nec m L [] m2"
    using add_gaps_inv[OF gap_inv_start[OF ok fr n] rok] by auto
  note w = gap_loop_wraps[OF L(2) sub top nx(1) ok]
  have l0: "(word_of_nat L :: ipv4) = 0" unfolding w(1) by simp
  define m3 where "m3 = insert_range g (upd_ec nec (add_range g) m2)"
  have "range_ok g" "\<not> apart g r"
    using top(2) by (auto simp: g_def range_ok_def apart_def ecrange_less_def)
  then have ar: "allranges m3 = allranges m2"
    using set_insert_overlapping[OF _ _ w(3)] L(2) by (simp add: m3_def gap_inv_def)
  have h: "ec_heap m3 nec = Some [g]"
    by (simp add: m3_def w(2) add_range_def set_insert_def lower_bound_def)
  have "add_gap nec 0 (r_ub rng) m2 = Inr m3" unfolding m3_def g_def by (rule add_gap_Inr) simp
  then obtain m' where m': "add_non_overlapped_ec alloc rng owned m = Inr m'"
      "allranges m' = allranges m3" "ec_heap m' = ec_heap m3"
      "all_ecs m' = oset_insert nec (all_ecs m3)"
    using L(1) h
    by (simp add: add_non_overlapped_ec_def n overlapped_scan(1)[OF wf rok] nx(3) deref_ec_def
        ec_empty_def Let_def l0 split: if_splits)
  have "all_ecs m3 = all_ecs m" using L(2) by (simp add: m3_def gap_inv_def)
  then have "set (all_ecs m') = insert nec (set (all_ecs m))"
    using ecmgr_okD(2)[OF ok] m'(4) by simp
  moreover have "\<not> owns m' nec a" for a using w(4)[of a] by (simp add: owns_def m'(2) ar)
  moreover have "ec_heap m' nec = Some [\<lparr>r_lb = 0, r_ub = r_ub rng, ec_ptr = nec\<rparr>]"
    using h by (simp add: m'(3) g_def)
  ultimately show ?thesis using m'(1) nx(1) by blast
qed

theorem covered_top_range_adds_stray_class_witness:
  "\<exists>m m' p. add_ec sum_alloc \<lparr>r_lb = 0, r_ub = - 1, ec_ptr = 0\<rparr> False ecmgr_init = Inr m
     \<and> add_non_overlapped_ec sum_alloc \<lparr>r_lb = 0, r_ub = - 1, ec_ptr = 0\<rparr> False m = Inr m'
     \<and> p \<in> set (all_ecs m') \<and> ec_heap m' p = Some [\<lparr>r_lb = 0, r_ub = - 1, ec_ptr = p\<rparr>]
     \<and> (\<forall>a. \<not> owns m' p a)"
proof -
  let ?a = "\<lparr>r_lb = 0, r_ub = - 1, ec_ptr = 0\<rparr> :: ecrange"
  have ok: "range_ok ?a" by (simp add: range_ok_def)
  obtain m where m: "add_ec sum_alloc ?a False ecmgr_init = Inr m" "ecmgr_ok m"
      "ec_abs m = spec_add_ec (addrs ?a) False (ec_abs ecmgr_init)"
    using add_ec_contract[OF ecmgr_init_ok sum_alloc_fresh ok] by blast
  have cov: "covered m = UNIV"
    using m(3) by (auto simp: ec_abs_def spec_add_ec_def addrs_def range_contains_def)
  then have "- 1 \<in> covered m" by simp
  then obtain r where r: "r \<in> set (allranges m)" "range_contains r (- 1)"
    by (auto simp: covered_def owns_def)
  have "r_ub r = - 1" using r(2) by (simp add: range_contains_def word_order.extremum_unique)
  moreover have "\<not> apart r ?a" by (simp add: apart_def ecrange_less_def)
  ultimately show ?thesis
    using covered_top_range_adds_stray_class[OF m(2) sum_alloc_fresh ok _ r(1), of False] cov m(1)
    by fastforce
qed

text \<open>Addresses of a range that has been added stay together: the classes never straddle it.\<close>

definition split_by :: "eqclassmgr \<Rightarrow> ipv4 set \<Rightarrow> bool" where
  "split_by m R \<longleftrightarrow> R \<subseteq> covered m \<and> (\<forall>(a, b) \<in> same_ec m. a \<in> R \<longleftrightarrow> b \<in> R)"

lemma add_ec_split:
  assumes "ec_abs m' = spec_add_ec R owned (ec_abs m)"
  shows "split_by m' R" and "split_by m S \<Longrightarrow> split_by m' S"
    and "covered m' = covered m \<union> R"
proof -
  have c: "covered m' = covered m \<union> R"
    and s: "same_ec m' = {(a, b) \<in> same_ec m. a \<in> R \<longleftrightarrow> b \<in> R} \<union> (R - covered m) \<times> (R - covered m)"
    using assms by (auto simp: ec_abs_def spec_add_ec_def)
  show "covered m' = covered m \<union> R" by (rule c)
  show "split_by m' R" unfolding split_by_def c s by auto
  show "split_by m S \<Longrightarrow> split_by m' S" unfolding split_by_def c s by auto
qed

lemma class_members:
  assumes "ecmgr_ok m" and "ec_heap m p = Some c" and "owns m p a"
  shows "r \<in> set c \<Longrightarrow> range_contains r b \<Longrightarrow> owns m p b"
    and "owns m p b \<Longrightarrow> \<exists>r \<in> set c. range_contains r b"
    and "c \<noteq> []" and "\<And>r. r \<in> set c \<Longrightarrow> range_ok r"
proof -
  obtain c' where "ec_heap m p = Some c'" "ecr.wf_set c'"
      "set c' = {r \<in> set (allranges m). ec_ptr r = p}"
    using exact_owned[OF assms(1,3)] by (auto simp: exact_def)
  then have c: "ecr.wf_set c" "set c = {r \<in> set (allranges m). ec_ptr r = p}"
    using assms(2) by auto
  show "r \<in> set c \<Longrightarrow> range_contains r b \<Longrightarrow> owns m p b"
    and "owns m p b \<Longrightarrow> \<exists>r \<in> set c. range_contains r b"
    using c by (auto simp: owns_def)
  show "c \<noteq> []" using assms(3) c by (auto simp: owns_def)
  show "\<And>r. r \<in> set c \<Longrightarrow> range_ok r" using ecr.wf_setD[OF c(1)] .
qed

lemma representative_owned:
  assumes "ecmgr_ok m" and "ec_heap m p = Some c" and "owns m p a"
  shows "\<exists>b. representative_addr c = Inr b \<and> owns m p b"
proof -
  note cm = class_members[OF assms]
  obtain r rs where c: "c = r # rs" using cm(3) by (cases c) auto
  have "range_ok r" using cm(4)[of r] c by simp
  then have "owns m p (r_lb r)" using cm(1)[of r] c by (simp add: range_contains_def range_ok_def)
  then show ?thesis using c by (simp add: representative_addr_def)
qed

end
