(* ===== verification/Routing.thy ===== *)
theory Routing
  imports EqClasses
begin

text \<open>
  Routes and routing tables: \<open>Route\<close> (\<open>src/route.cpp\<close>) and \<open>RoutingTable\<close>
  (\<open>src/routingtable.cpp\<close>). A table is the list of its routes in the order of the multiset:
  longer prefixes first, then by network address. Operations that return an iterator return its
  position, the length of the list standing for \<open>end()\<close>.
\<close>

section \<open>Routes\<close>

record route =
  rt_network :: ip_network
  rt_next_hop :: ipv4
  rt_egress_intf :: string
  rt_adm_dist :: int

definition mk_route :: "ip_network \<Rightarrow> route" where
  "mk_route net = \<lparr>rt_network = net, rt_next_hop = 0, rt_egress_intf = [], rt_adm_dist = 255\<rparr>"

definition route_to_string :: "route \<Rightarrow> string" where
  "route_to_string r =
     interface_to_string (rt_network r) @ '' --> '' @
     (if rt_egress_intf r = [] then ipv4_to_string (rt_next_hop r) else rt_egress_intf r)"

definition has_same_path :: "route \<Rightarrow> route \<Rightarrow> bool" where
  "has_same_path this other \<longleftrightarrow>
     (if rt_egress_intf this = []
      then rt_network this = rt_network other \<and> rt_next_hop this = rt_next_hop other
      else rt_network this = rt_network other \<and> rt_egress_intf this = rt_egress_intf other)"

definition relevant_step ::
    "route \<Rightarrow> ecrange \<Rightarrow> bool \<times> bool \<Rightarrow> (bool \<times> bool) result" where
  "relevant_step r rng = (\<lambda>(fully_contained, has_been_set).
     if has_been_set then
       (if network_contains_range (rt_network r) rng \<noteq> fully_contained
        then Inl (Runtime_error ''Route splits an EC'')
        else Inr (fully_contained, has_been_set))
     else Inr (network_contains_range (rt_network r) rng, True))"

definition relevant_to_ec :: "route \<Rightarrow> eqclass \<Rightarrow> bool result" where
  "relevant_to_ec r ec =
     bindR (foldR (relevant_step r) ec (False, False)) (\<lambda>(fully_contained, _). Inr fully_contained)"

definition route_less :: "route \<Rightarrow> route \<Rightarrow> bool" where
  "route_less a b \<longleftrightarrow>
     (if ip_prefix (rt_network a) > ip_prefix (rt_network b) then True
      else if ip_prefix (rt_network a) < ip_prefix (rt_network b) then False
      else ip_value (rt_network a) < ip_value (rt_network b))"

definition route_le :: "route \<Rightarrow> route \<Rightarrow> bool" where
  "route_le a b \<longleftrightarrow>
     (if ip_prefix (rt_network a) > ip_prefix (rt_network b) then True
      else if ip_prefix (rt_network a) < ip_prefix (rt_network b) then False
      else ip_value (rt_network a) \<le> ip_value (rt_network b))"

definition route_greater :: "route \<Rightarrow> route \<Rightarrow> bool" where
  "route_greater a b \<longleftrightarrow>
     (if ip_prefix (rt_network a) > ip_prefix (rt_network b) then False
      else if ip_prefix (rt_network a) < ip_prefix (rt_network b) then True
      else ip_value (rt_network a) > ip_value (rt_network b))"

definition route_ge :: "route \<Rightarrow> route \<Rightarrow> bool" where
  "route_ge a b \<longleftrightarrow>
     (if ip_prefix (rt_network a) > ip_prefix (rt_network b) then False
      else if ip_prefix (rt_network a) < ip_prefix (rt_network b) then True
      else ip_value (rt_network a) \<ge> ip_value (rt_network b))"

definition route_eq :: "route \<Rightarrow> route \<Rightarrow> bool" where
  "route_eq a b \<longleftrightarrow> rt_network a = rt_network b"

section \<open>Tables\<close>

type_synonym rib = "route list"

definition rib_to_string :: "rib \<Rightarrow> string" where
  "rib_to_string t = ''RIB:'' @ concat (map (\<lambda>r. CHR 0x0A # CHR 0x09 # route_to_string r) t)"

definition multiset_insert :: "route \<Rightarrow> rib \<Rightarrow> nat \<times> rib" where
  "multiset_insert r t =
     (length t - length (upper_bound route_less r t), mset_insert route_less r t)"

definition rib_insert :: "route \<Rightarrow> rib \<Rightarrow> nat \<times> rib" where
  "rib_insert r t =
     (let (first, last) = equal_range route_less r t in
      if last - first > 0 then
        if rt_adm_dist (t ! first) < rt_adm_dist r then (length t, t)
        else if rt_adm_dist (t ! first) > rt_adm_dist r then
          multiset_insert r (take first t @ drop last t)
        else
          (case find (\<lambda>i. has_same_path (t ! i) r) [first..<last] of
             Some i \<Rightarrow> (i, t)
           | None \<Rightarrow> multiset_insert r t)
      else multiset_insert r t)"

definition rib_update :: "route \<Rightarrow> rib \<Rightarrow> nat \<times> rib" where
  "rib_update r t = multiset_insert r (set_erase route_less r t)"

definition rib_erase :: "route \<Rightarrow> rib \<Rightarrow> nat \<times> rib" where
  "rib_erase r t = (let t' = set_erase route_less r t in (length t - length t', t'))"

definition rib_erase_at :: "nat \<Rightarrow> rib \<Rightarrow> rib result" where
  "rib_erase_at i t = (if i < length t then Inr (take i t @ drop (Suc i) t) else Inl Undefined_behaviour)"

definition rib_clear :: "rib \<Rightarrow> rib" where
  "rib_clear t = []"

definition rib_lookup_net :: "rib \<Rightarrow> ip_network \<Rightarrow> nat \<times> nat" where
  "rib_lookup_net t net = equal_range route_less (mk_route net) t"

definition rib_lookup :: "rib \<Rightarrow> ipv4 \<Rightarrow> nat \<times> nat" where
  "rib_lookup t dst =
     (case find (\<lambda>r. network_contains (rt_network r) dst) t of
        Some r \<Rightarrow> equal_range route_less r t
      | None \<Rightarrow> (length t, length t))"

definition rib_count_net :: "rib \<Rightarrow> ip_network \<Rightarrow> nat" where
  "rib_count_net t net = (let (a, b) = equal_range route_less (mk_route net) t in b - a)"

definition rib_count :: "rib \<Rightarrow> route \<Rightarrow> nat" where
  "rib_count t r = (let (a, b) = equal_range route_less r t in b - a)"

section \<open>The order of routes\<close>

interpretation rt: weak_ordered "\<lambda>_. True" route_less
  by unfold_locales (auto simp: route_less_def split: if_splits)

lemma route_equiv_iff:
  "\<not> route_less a b \<and> \<not> route_less b a \<longleftrightarrow> rt_network a = rt_network b"
  by (auto simp: route_less_def split: if_splits)

lemma route_order_coherent:
  "route_le a b \<longleftrightarrow> \<not> route_less b a" "route_greater a b \<longleftrightarrow> route_less b a"
  "route_ge a b \<longleftrightarrow> \<not> route_less a b"
  unfolding route_less_def route_le_def route_greater_def route_ge_def by auto

lemma route_eq_coherent: "route_eq a b \<longleftrightarrow> route_le a b \<and> route_ge a b"
  using route_equiv_iff[of b a] by (auto simp: route_order_coherent route_eq_def)

lemma less_network:
  "route_less a b \<Longrightarrow> rt_network a \<noteq> rt_network b"
  "route_less a b \<Longrightarrow> rt_network b \<noteq> rt_network a"
  using route_equiv_iff[of a b] by auto

definition rib_sorted :: "rib \<Rightarrow> bool" where
  "rib_sorted t \<longleftrightarrow> sorted_mset (\<lambda>_. True) route_less t"

lemma rib_sorted_filter: "rib_sorted t \<Longrightarrow> rib_sorted (filter P t)"
  by (auto simp: rib_sorted_def sorted_mset_def sorted_wrt_filter_mono list_all_iff)

lemma rib_range_eq:
  assumes "rib_sorted t"
  shows "iter_range (equal_range route_less r t) t = filter (\<lambda>x. rt_network x = rt_network r) t"
  using rt.equal_range_filter[OF assms[unfolded rib_sorted_def], of r] route_equiv_iff
  by (auto intro: filter_cong_ex)

lemma rib_three_way:
  assumes "rib_sorted t"
  shows "t = filter (\<lambda>x. route_less x r) t @ filter (\<lambda>x. rt_network x = rt_network r) t
    @ filter (\<lambda>x. route_less r x) t"
proof -
  have "filter (\<lambda>y. \<not> route_less y r \<and> \<not> route_less r y) t = filter (\<lambda>x. rt_network x = rt_network r) t"
    using route_equiv_iff by (intro filter_cong_ex) blast
  then show ?thesis using rt.mset_three_way[OF assms[unfolded rib_sorted_def], of r] by metis
qed

lemma rib_bounds:
  assumes "rib_sorted t"
  shows "fst (equal_range route_less r t) = length (filter (\<lambda>x. route_less x r) t)"
    and "snd (equal_range route_less r t) =
      length (filter (\<lambda>x. route_less x r) t) + length (filter (\<lambda>x. rt_network x = rt_network r) t)"
proof -
  let ?a = "filter (\<lambda>x. route_less x r) t" and ?b = "filter (\<lambda>x. rt_network x = rt_network r) t"
    and ?c = "filter (\<lambda>x. route_less r x) t"
  have len: "length t = length ?a + length ?b + length ?c"
    using arg_cong[OF rib_three_way[OF assms, of r], of length] by simp
  have "length t = length ?a + length (filter (\<lambda>y. \<not> route_less y r) t)"
    by (simp add: sum_length_filter_compl)
  then show "fst (equal_range route_less r t) = length ?a"
    "snd (equal_range route_less r t) = length ?a + length ?b"
    using rt.mset_bounds_filter[OF assms[unfolded rib_sorted_def], of r] len
    by (auto simp: equal_range_def)
qed

lemma multiset_insert_props:
  assumes "rib_sorted t"
  shows "rib_sorted (snd (multiset_insert r t))" "set (snd (multiset_insert r t)) = insert r (set t)"
  using rt.mset_insert_sorted[of t r] rt.mset_insert_set[of r t] assms
  by (auto simp: multiset_insert_def rib_sorted_def)

section \<open>Insertion\<close>

text \<open>The routes of one network, and what \<open>insert\<close> does to them.\<close>

definition routes_for :: "ip_network \<Rightarrow> rib \<Rightarrow> route list" where
  "routes_for n t = filter (\<lambda>x. rt_network x = n) t"

definition uniform_dist :: "rib \<Rightarrow> bool" where
  "uniform_dist t \<longleftrightarrow> (\<forall>x \<in> set t. \<forall>y \<in> set t. rt_network x = rt_network y \<longrightarrow> rt_adm_dist x = rt_adm_dist y)"

lemma multiset_insert_split:
  assumes "\<forall>y \<in> set as. \<not> route_less r y" and "\<forall>y \<in> set bs. route_less r y"
  shows "multiset_insert r (as @ bs) = (length as, as @ r # bs)"
proof -
  have "takeWhile (\<lambda>y. \<not> route_less r y) (as @ bs) = as" "dropWhile (\<lambda>y. \<not> route_less r y) (as @ bs) = bs"
    using assms by (cases bs; simp add: takeWhile_append2 dropWhile_append2)+
  then show ?thesis by (simp add: multiset_insert_def mset_insert_def upper_bound_def)
qed

lemma find_nth_segment:
  "find (\<lambda>i. P ((as @ xs @ bs) ! i)) [length as..<length as + length xs] =
    (if \<exists>x \<in> set xs. P x then Some (length as + length (takeWhile (\<lambda>x. \<not> P x) xs)) else None)"
proof (induction xs arbitrary: as)
  case (Cons x xs)
  have "(as @ (x # xs) @ bs) ! length as = x" by simp
  moreover have "[length as..<length as + length (x # xs)] = length as # [length (as @ [x])..<length (as @ [x]) + length xs]"
    by (subst upt_rec) simp
  ultimately show ?case using Cons.IH[of "as @ [x]"] by simp
qed simp

text \<open>The table after an insertion, between the routes before and after those of the network.\<close>

lemma rib_insert_form:
  fixes r :: route and t :: rib
  assumes s: "rib_sorted t"
  defines "lo \<equiv> filter (\<lambda>x. route_less x r) t" and "ex \<equiv> routes_for (rt_network r) t"
    and "hi \<equiv> filter (\<lambda>x. route_less r x) t"
  shows "t = lo @ ex @ hi"
    and "rib_insert r t =
     (if ex = [] \<or> rt_adm_dist r < rt_adm_dist (hd ex) then (length lo, lo @ r # hi)
      else if rt_adm_dist (hd ex) < rt_adm_dist r then (length t, t)
      else if \<exists>x \<in> set ex. has_same_path x r
        then (length lo + length (takeWhile (\<lambda>x. \<not> has_same_path x r) ex), t)
      else (length lo + length ex, lo @ ex @ r # hi))"
proof -
  show t: "t = lo @ ex @ hi"
    using rib_three_way[OF s, of r] by (simp add: lo_def ex_def hi_def routes_for_def)
  have er: "equal_range route_less r t = (length lo, length lo + length ex)"
    using rib_bounds[OF s, of r] by (simp add: prod_eq_iff lo_def ex_def routes_for_def)
  have b: "\<forall>y \<in> set lo. \<not> route_less r y" "\<forall>y \<in> set ex. \<not> route_less r y" "\<forall>y \<in> set hi. route_less r y"
    using rt.lt_asym[of _ r] less_network[of r] by (auto simp: lo_def ex_def hi_def routes_for_def)
  have ins: "multiset_insert r t = (length lo + length ex, lo @ ex @ r # hi)"
      "multiset_insert r (lo @ hi) = (length lo, lo @ r # hi)"
    using multiset_insert_split[of "lo @ ex" r hi] multiset_insert_split[of lo r hi] b
    by (auto simp: t[symmetric])
  have cut: "take (length lo) t @ drop (length lo + length ex) t = lo @ hi" by (subst (1 2) t) simp
  have hd0: "ex \<noteq> [] \<Longrightarrow> t ! length lo = hd ex" by (subst t) (cases ex; simp)
  have f: "find (\<lambda>i. has_same_path (t ! i) r) [length lo..<length lo + length ex] =
      (if \<exists>x \<in> set ex. has_same_path x r
       then Some (length lo + length (takeWhile (\<lambda>x. \<not> has_same_path x r) ex)) else None)"
    using find_nth_segment[of "\<lambda>x. has_same_path x r" lo ex hi] t by simp
  show "rib_insert r t =
     (if ex = [] \<or> rt_adm_dist r < rt_adm_dist (hd ex) then (length lo, lo @ r # hi)
      else if rt_adm_dist (hd ex) < rt_adm_dist r then (length t, t)
      else if \<exists>x \<in> set ex. has_same_path x r
        then (length lo + length (takeWhile (\<lambda>x. \<not> has_same_path x r) ex), t)
      else (length lo + length ex, lo @ ex @ r # hi))"
    unfolding rib_insert_def er using hd0 by (cases "ex = []") (simp_all add: f cut ins)
qed

lemma route_less_network:
  "rt_network x = rt_network y \<Longrightarrow> route_less x z = route_less y z"
  "rt_network x = rt_network y \<Longrightarrow> route_less z x = route_less z y"
  by (simp_all add: route_less_def)

text \<open>Any routes of one distance can take the place of those of a network.\<close>

lemma rib_replace:
  fixes r :: route and t :: rib
  assumes "rib_sorted t" and "uniform_dist t"
  defines "lo \<equiv> filter (\<lambda>x. route_less x r) t" and "hi \<equiv> filter (\<lambda>x. route_less r x) t"
  assumes ys: "\<And>x. x \<in> set ys \<Longrightarrow> rt_network x = rt_network r \<and> rt_adm_dist x = d"
  shows "rib_sorted (lo @ ys @ hi)" and "uniform_dist (lo @ ys @ hi)"
    and "routes_for (rt_network r) (lo @ ys @ hi) = ys"
proof -
  have net: "rt_network x \<noteq> rt_network r" if "x \<in> set lo \<union> set hi" for x
    using that less_network by (auto simp: lo_def hi_def)
  have "sorted_wrt (\<lambda>x y. \<not> route_less y x) lo" "sorted_wrt (\<lambda>x y. \<not> route_less y x) hi"
    using assms(1) by (simp_all add: rib_sorted_def sorted_mset_def lo_def hi_def sorted_wrt_filter_mono)
  moreover have "sorted_wrt (\<lambda>x y. \<not> route_less y x) ys"
    using ys by (auto simp: sorted_wrt_iff_nth_less route_less_network[of "ys ! _" r] rt.lt_irrefl)
  moreover have "\<not> route_less y x" if "x \<in> set lo" "y \<in> set ys \<union> set hi" for x y
  proof -
    have x: "route_less x r" using that(1) by (simp add: lo_def)
    have "rt_network y = rt_network r \<or> route_less r y" using that(2) ys by (auto simp: hi_def)
    then show ?thesis
      using x rt.lt_asym[OF _ _ x] rt.lt_trans[of x r y] rt.lt_asym[of y x] route_less_network(1)[of y r x] by blast
  qed
  moreover have "\<not> route_less y x" if "x \<in> set ys" "y \<in> set hi" for x y
  proof -
    have "route_less r y" using that(2) by (simp add: hi_def)
    moreover have "rt_network x = rt_network r" using that(1) ys by blast
    ultimately show ?thesis using rt.lt_asym[of y r] route_less_network(2)[of x r y] by blast
  qed
  ultimately show "rib_sorted (lo @ ys @ hi)"
    by (auto simp: rib_sorted_def sorted_mset_def sorted_wrt_append list_all_iff)
  have "rt_adm_dist x = rt_adm_dist y" if "x \<in> set lo \<union> set hi" "y \<in> set lo \<union> set hi" "rt_network x = rt_network y" for x y
    using that assms(2) by (auto simp: uniform_dist_def lo_def hi_def)
  moreover have "set (lo @ ys @ hi) = (set lo \<union> set hi) \<union> set ys" by auto
  ultimately show "uniform_dist (lo @ ys @ hi)" unfolding uniform_dist_def using net ys by (metis Un_iff)
  show "routes_for (rt_network r) (lo @ ys @ hi) = ys"
    using net ys by (simp add: routes_for_def filter_empty_conv filter_id_conv)
qed

lemma uniform_hd:
  assumes "uniform_dist t" "x \<in> set (routes_for n t)"
  shows "rt_adm_dist x = rt_adm_dist (hd (routes_for n t))"
proof -
  have "hd (routes_for n t) \<in> set (routes_for n t)" using assms(2) by (intro hd_in_set) auto
  then show ?thesis using assms by (auto simp: uniform_dist_def routes_for_def)
qed

text \<open>C35. \<open>RoutingTable::insert\<close> on a table whose routes of one network have one administrative
  distance. A route with a larger distance than the routes of its network is ignored and the
  end iterator returned. One with the same distance as an existing route with the same path is
  not added, and the iterator of the first such route is returned. Otherwise it is put, and
  found, behind the routes of its network with the same distance; those with a larger distance are
  removed. All other routes keep their places, the order and the uniform distance are preserved,
  and the routes of the network have the least distance of the route and those before.\<close>

theorem rib_insert_spec:
  assumes "rib_sorted t" and "uniform_dist t" and "rib_insert r t = (i, t')"
  shows "rib_sorted t' \<and> uniform_dist t' \<and>
    (let old = routes_for (rt_network r) t; before = filter (\<lambda>x. route_less x r) t;
         same = filter (\<lambda>x. rt_adm_dist x = rt_adm_dist r) old in
     (if \<exists>x \<in> set old. rt_adm_dist x < rt_adm_dist r then t' = t \<and> i = length t
      else if \<exists>x \<in> set same. has_same_path x r
      then t' = t \<and> i = length before + length (takeWhile (\<lambda>x. \<not> has_same_path x r) old)
      else t' = before @ same @ r # filter (\<lambda>x. route_less r x) t \<and> i = length before + length same) \<and>
     (\<forall>x \<in> set (routes_for (rt_network r) t'). \<forall>y \<in> insert r (set old). rt_adm_dist x \<le> rt_adm_dist y))"
proof -
  define ex lo hi same where "ex = routes_for (rt_network r) t" and "lo = filter (\<lambda>x. route_less x r) t"
    and "hi = filter (\<lambda>x. route_less r x) t" and "same = filter (\<lambda>x. rt_adm_dist x = rt_adm_dist r) ex"
  note form = rib_insert_form[OF assms(1), of r, folded ex_def lo_def hi_def]
  have u: "rt_network x = rt_network r \<and> rt_adm_dist x = rt_adm_dist (hd ex)" if "x \<in> set ex" for x
    using uniform_hd[OF assms(2)] that by (auto simp: ex_def routes_for_def)
  note put = rib_replace[OF assms(1,2), of _ r, folded lo_def hi_def]
  have keep: "rib_sorted t" "uniform_dist t" "routes_for (rt_network r) t = ex" by (simp_all add: assms ex_def)
  consider (less) "ex \<noteq> []" "rt_adm_dist (hd ex) < rt_adm_dist r"
    | (path) "ex \<noteq> []" "rt_adm_dist (hd ex) = rt_adm_dist r" "\<exists>x \<in> set ex. has_same_path x r"
    | (equal) "ex \<noteq> []" "rt_adm_dist (hd ex) = rt_adm_dist r" "\<not> (\<exists>x \<in> set ex. has_same_path x r)"
    | (greater) "ex = [] \<or> rt_adm_dist r < rt_adm_dist (hd ex)" by fastforce
  then have "(if \<exists>x \<in> set ex. rt_adm_dist x < rt_adm_dist r then t' = t \<and> i = length t
      else if \<exists>x \<in> set same. has_same_path x r
      then t' = t \<and> i = length lo + length (takeWhile (\<lambda>x. \<not> has_same_path x r) ex)
      else t' = lo @ same @ r # hi \<and> i = length lo + length same)
    \<and> (t' = t \<and> ex \<noteq> [] \<and> rt_adm_dist (hd ex) \<le> rt_adm_dist r
      \<or> t' = lo @ (same @ [r]) @ hi \<and> (\<forall>x \<in> set ex. rt_adm_dist r \<le> rt_adm_dist x))"
  proof cases
    case less
    then show ?thesis using form(2) assms(3) hd_in_set[OF less(1)] by auto
  next
    case path
    then have e: "\<forall>x \<in> set ex. rt_adm_dist x = rt_adm_dist r" using u by metis
    then have "same = ex" by (simp add: same_def filter_id_conv)
    then show ?thesis using path form(2) assms(3) e by auto
  next
    case equal
    then have e: "\<forall>x \<in> set ex. rt_adm_dist x = rt_adm_dist r" using u by metis
    then have "same = ex" by (simp add: same_def filter_id_conv)
    then show ?thesis using equal form(2) assms(3) e by auto
  next
    case greater
    then have e: "\<forall>x \<in> set ex. rt_adm_dist r < rt_adm_dist x" using u by (metis empty_iff list.set(1))
    then have "same = []" by (auto simp: same_def filter_empty_conv)
    then show ?thesis using greater form(2) assms(3) e by (auto dest: order.strict_implies_order)
  qed
  moreover have "rib_sorted t' \<and> uniform_dist t'
      \<and> (\<forall>x \<in> set (routes_for (rt_network r) t'). \<forall>y \<in> insert r (set ex). rt_adm_dist x \<le> rt_adm_dist y)"
    using calculation
  proof (elim conjE disjE)
    assume "t' = t" "rt_adm_dist (hd ex) \<le> rt_adm_dist r"
    then show ?thesis using keep u by auto
  next
    assume t': "t' = lo @ (same @ [r]) @ hi" and le: "\<forall>x \<in> set ex. rt_adm_dist r \<le> rt_adm_dist x"
    have ys: "rt_network x = rt_network r \<and> rt_adm_dist x = rt_adm_dist r" if "x \<in> set (same @ [r])" for x
      using that u by (auto simp: same_def)
    have p: "rib_sorted t'" "uniform_dist t'" "routes_for (rt_network r) t' = same @ [r]"
      unfolding t' by (rule put, erule ys)+
    have "rt_adm_dist x \<le> rt_adm_dist y" if "x \<in> set (same @ [r])" "y \<in> insert r (set ex)" for x y
      using ys[OF that(1)] that(2) le by auto
    then show ?thesis using p by simp
  qed
  ultimately show ?thesis
    unfolding Let_def ex_def[symmetric] lo_def[symmetric] hi_def[symmetric] same_def[symmetric] by blast
qed

theorem rib_insert_spec_witness:
  "let n = \<lparr>ip_value = 0x0A000000, ip_prefix = 8\<rparr>;
       r1 = \<lparr>rt_network = n, rt_next_hop = 1, rt_egress_intf = [], rt_adm_dist = 110\<rparr>;
       r2 = \<lparr>rt_network = n, rt_next_hop = 2, rt_egress_intf = [], rt_adm_dist = 1\<rparr>
   in rib_insert r2 [r1] = (0, [r2]) \<and> uniform_dist [r2]"
proof -
  let ?n = "\<lparr>ip_value = 0x0A000000, ip_prefix = 8\<rparr> :: ip_network"
  let ?r1 = "\<lparr>rt_network = ?n, rt_next_hop = 1, rt_egress_intf = [], rt_adm_dist = 110\<rparr>"
  let ?r2 = "\<lparr>rt_network = ?n, rt_next_hop = 2, rt_egress_intf = [], rt_adm_dist = 1\<rparr>"
  have i: "rib_insert ?r2 [?r1] = (0, [?r2])"
    by (simp add: rib_insert_def equal_range_def lower_bound_def upper_bound_def route_less_def
        multiset_insert_def mset_insert_def)
  have "rib_sorted [?r1]" "uniform_dist [?r1]"
    by (simp_all add: rib_sorted_def sorted_mset_def uniform_dist_def)
  from rib_insert_spec[OF this i] show ?thesis using i by simp
qed

section \<open>Lookup\<close>

definition rib_valid :: "rib \<Rightarrow> bool" where
  "rib_valid t \<longleftrightarrow> list_all (\<lambda>r. valid_network (rt_network r)) t"

lemma same_prefix_same_network:
  assumes "valid_network m" and "valid_network n" and "ip_prefix m = ip_prefix n"
    and "network_contains m a" and "network_contains n a"
  shows "m = n"
proof -
  let ?h = "host_bits m"
  have h: "host_bits n = ?h" using assms(3) by (simp add: host_bits_def)
  have "unat (ip_value m) div 2 ^ ?h = unat (ip_value n) div 2 ^ ?h"
    using assms(4,5) network_contains_div[OF assms(1), of a] network_contains_div[OF assms(2), of a] h
    by simp
  moreover have "unat (ip_value m) mod 2 ^ ?h = 0" "unat (ip_value n) mod 2 ^ ?h = 0"
    using valid_network_mod[OF assms(1)] valid_network_mod[OF assms(2)] h by simp_all
  ultimately have "unat (ip_value m) = unat (ip_value n)"
    by (metis add.right_neutral mult_div_mod_eq)
  then show ?thesis using assms(3) by (simp add: word_unat_eq_iff)
qed

text \<open>C34. \<open>RoutingTable::lookup(addr)\<close> is longest-prefix match: the range it returns is exactly
  the routes whose network contains the address and has the greatest prefix length among those
  that do.\<close>

theorem rib_lookup_longest_prefix:
  assumes "rib_sorted t" and "rib_valid t"
  shows "set (iter_range (rib_lookup t a) t) =
    {r \<in> set t. network_contains (rt_network r) a
       \<and> (\<forall>s \<in> set t. network_contains (rt_network s) a
            \<longrightarrow> ip_prefix (rt_network s) \<le> ip_prefix (rt_network r))}"
proof (cases "find (\<lambda>r. network_contains (rt_network r) a) t")
  case None
  then have "rib_lookup t a = (length t, length t)" by (simp add: rib_lookup_def)
  then show ?thesis using None by (auto simp: iter_range_def find_None_iff)
next
  case (Some r)
  then obtain i where i: "i < length t" "network_contains (rt_network r) a" "r = t ! i"
      "\<forall>j < i. \<not> network_contains (rt_network (t ! j)) a"
    by (auto simp: find_Some_iff)
  have valid: "valid_network (rt_network x)" if "x \<in> set t" for x
    using assms(2) that by (auto simp: rib_valid_def list_all_iff)
  have r: "r \<in> set t" using i by simp
  have longest: "ip_prefix (rt_network s) \<le> ip_prefix (rt_network r)"
    if sa: "s \<in> set t" "network_contains (rt_network s) a" for s
  proof -
    obtain j where j: "j < length t" "s = t ! j" using sa(1) by (auto simp: in_set_conv_nth)
    then have "i \<le> j" using i(4) sa(2) by (metis not_less)
    have "\<not> route_less s r"
    proof (cases "i = j")
      case True
      then show ?thesis using j i rt.lt_irrefl by simp
    next
      case False
      then show ?thesis
        using assms(1) \<open>i \<le> j\<close> j i unfolding rib_sorted_def sorted_mset_def
        by (metis (mono_tags, lifting) order_le_neq_trans sorted_wrt_nth_less)
    qed
    then show ?thesis by (auto simp: route_less_def split: if_splits)
  qed
  have "rt_network s = rt_network r"
    if "s \<in> set t" "network_contains (rt_network s) a"
      "ip_prefix (rt_network r) \<le> ip_prefix (rt_network s)" for s
    using same_prefix_same_network[OF valid[OF that(1)] valid[OF r]] that longest i(2)
    by (meson order_antisym)
  then show ?thesis
    using rib_range_eq[OF assms(1), of r] longest r i(2) Some
    by (auto simp: rib_lookup_def)
qed

theorem rib_lookup_longest_prefix_witness:
  "let r1 = mk_route \<lparr>ip_value = 0x0A010000, ip_prefix = 16\<rparr>;
       r2 = mk_route \<lparr>ip_value = 0x0A000000, ip_prefix = 8\<rparr>
   in set (iter_range (rib_lookup [r1, r2] 0x0A010001) [r1, r2]) = {r1}"
proof -
  let ?r1 = "mk_route \<lparr>ip_value = 0x0A010000, ip_prefix = 16\<rparr>"
  let ?r2 = "mk_route \<lparr>ip_value = 0x0A000000, ip_prefix = 8\<rparr>"
  have "rib_sorted [?r1, ?r2]" "rib_valid [?r1, ?r2]"
    by (simp_all add: rib_sorted_def sorted_mset_def route_less_def mk_route_def rib_valid_def
        valid_network_def prefix_ok_def is_network_def host_mask_def)
  note l = rib_lookup_longest_prefix[OF this, of "0x0A010001"]
  have "network_contains (rt_network ?r1) 0x0A010001" "network_contains (rt_network ?r2) 0x0A010001"
    by (simp_all add: mk_route_def network_contains_def network_addr_def broadcast_addr_def host_mask_def)
  moreover have "ip_prefix (rt_network ?r1) = 16" "ip_prefix (rt_network ?r2) = 8"
    by (simp_all add: mk_route_def)
  ultimately have "set (iter_range (rib_lookup [?r1, ?r2] 0x0A010001) [?r1, ?r2]) = {?r1}"
    unfolding l by auto
  then show ?thesis unfolding Let_def .
qed

text \<open>The lookup depends on the address only through the networks that contain it.\<close>

lemma rib_lookup_cong:
  assumes "\<And>r. r \<in> set t \<Longrightarrow> network_contains (rt_network r) a \<longleftrightarrow> network_contains (rt_network r) b"
  shows "rib_lookup t a = rib_lookup t b"
proof -
  have "find (\<lambda>r. network_contains (rt_network r) a) t = find (\<lambda>r. network_contains (rt_network r) b) t"
    using assms by (intro find_cong) auto
  then show ?thesis by (simp add: rib_lookup_def)
qed

lemma rib_update_keeps:
  assumes "rib_sorted t"
  shows "rib_sorted (snd (rib_update r t))"
    and "set (snd (rib_update r t)) = insert r {x \<in> set t. rt_network x \<noteq> rt_network r}"
proof -
  have s: "rib_sorted (set_erase route_less r t)"
    using rt.mset_erase_sorted[OF assms[unfolded rib_sorted_def]] by (simp add: rib_sorted_def)
  show "rib_sorted (snd (rib_update r t))"
    and "set (snd (rib_update r t)) = insert r {x \<in> set t. rt_network x \<noteq> rt_network r}"
    using multiset_insert_props[OF s] rt.mset_erase_filter[OF assms[unfolded rib_sorted_def], of r]
      route_equiv_iff[of _ r]
    by (auto simp: rib_update_def)
qed

section \<open>Routes and classes\<close>

lemma relevant_fold:
  "foldR (relevant_step r) ec (b, True) =
     (if \<forall>x \<in> set ec. network_contains_range (rt_network r) x = b then Inr (b, True)
      else Inl (Runtime_error ''Route splits an EC''))"
  by (induction ec) (auto simp: relevant_step_def)

lemma relevant_to_ec_eq:
  assumes "ec \<noteq> []" and "\<And>x. x \<in> set ec \<Longrightarrow> network_contains_range (rt_network r) x = b"
  shows "relevant_to_ec r ec = Inr b"
proof -
  obtain x xs where ec: "ec = x # xs" using assms(1) by (cases ec) auto
  then have "relevant_step r x (False, False) = Inr (b, True)"
    using assms(2) by (simp add: relevant_step_def)
  then show ?thesis using assms(2) ec by (simp add: relevant_to_ec_def relevant_fold)
qed

definition net_addrs :: "ip_network \<Rightarrow> ipv4 set" where
  "net_addrs n = {a. network_contains n a}"

lemma net_addrs_range: "net_addrs n = addrs (ecrange_of_network n)"
  by (auto simp: net_addrs_def addrs_def network_contains_def range_contains_def ecrange_of_network_def)

text \<open>Once a route's network has been added to the class manager, \<open>relevant_to_ec\<close> never
  raises its error \<open>Route splits an EC\<close>: it tells whether the class lies inside the network.\<close>

theorem relevant_to_ec_no_error:
  assumes ok: "ecmgr_ok m" and split: "split_by m (net_addrs (rt_network r))"
    and c: "ec_heap m p = Some c" "owns m p a"
  shows "relevant_to_ec r c = Inr (network_contains (rt_network r) a)"
proof (rule relevant_to_ec_eq)
  note cm = class_members[OF ok c]
  show "c \<noteq> []" by (rule cm(3))
  fix x assume x: "x \<in> set c"
  have xok: "range_ok x" by (rule cm(4)[OF x])
  then have ends: "range_contains x (r_lb x)" "range_contains x (r_ub x)"
    by (auto simp: range_contains_def range_ok_def)
  have iff: "network_contains (rt_network r) b \<longleftrightarrow> network_contains (rt_network r) a"
    if "range_contains x b" for b
    using split cm(1)[OF x that] c(2) by (auto simp: split_by_def same_ec_def net_addrs_def)
  show "network_contains_range (rt_network r) x = network_contains (rt_network r) a"
    using iff[OF ends(1)] iff[OF ends(2)] xok
    by (auto simp: network_contains_range_def network_contains_def range_ok_def)
qed

theorem relevant_to_ec_no_error_witness:
  "\<exists>m p c. add_ec sum_alloc (ecrange_of_network \<lparr>ip_value = 0x0A000000, ip_prefix = 8\<rparr>) False ecmgr_init
       = Inr m \<and> ec_heap m p = Some c
     \<and> relevant_to_ec (mk_route \<lparr>ip_value = 0x0A000000, ip_prefix = 8\<rparr>) c = Inr True"
proof -
  let ?n = "\<lparr>ip_value = 0x0A000000, ip_prefix = 8\<rparr> :: ip_network"
  have c: "network_contains ?n 0x0A000001"
    by (simp add: network_contains_def network_addr_def broadcast_addr_def host_mask_def)
  have ok: "range_ok (ecrange_of_network ?n)"
    by (simp add: range_ok_def ecrange_of_network_def network_addr_def broadcast_addr_def host_mask_def)
  obtain m where m: "add_ec sum_alloc (ecrange_of_network ?n) False ecmgr_init = Inr m" "ecmgr_ok m"
      "ec_abs m = spec_add_ec (net_addrs ?n) False (ec_abs ecmgr_init)"
    using add_ec_contract[OF ecmgr_init_ok sum_alloc_fresh ok] unfolding net_addrs_range by blast
  have "0x0A000001 \<in> covered m" unfolding add_ec_split(3)[OF m(3)] using c by (simp add: net_addrs_def)
  then obtain p where p: "owns m p 0x0A000001" by (auto simp: covered_def)
  obtain e where e: "ec_heap m p = Some e" using exact_owned[OF m(2) p] unfolding exact_def by blast
  have r: "rt_network (mk_route ?n) = ?n" by (simp add: mk_route_def)
  have "split_by m (net_addrs (rt_network (mk_route ?n)))"
    using add_ec_split(1)[OF m(3)] r by simp
  from relevant_to_ec_no_error[OF m(2) this e p] show ?thesis using m(1) e c r by auto
qed

end
