(* ===== verification/Topology.thy ===== *)
theory Topology
  imports Routing "HOL-Library.Product_Lexorder"
begin

text \<open>
  The network: \<open>Interface\<close>, \<open>Node\<close>, \<open>Link\<close>, \<open>L2_LAN\<close>, \<open>FIB\<close> and \<open>Network\<close>
  (\<open>src/interface.cpp\<close>, \<open>src/node.cpp\<close>, \<open>src/link.cpp\<close>, \<open>src/l2-lan.cpp\<close>, \<open>src/fib.cpp\<close>,
  \<open>src/network.cpp\<close>), with the configuration part of \<open>Middlebox\<close>. Pointers to interfaces,
  nodes and LANs are natural numbers, 0 being the null pointer; the objects live in the three
  maps of the record \<open>net_heap\<close>. Sets ordered by pointers are lists in pointer order.
\<close>

section \<open>Interfaces\<close>

record interface =
  if_name :: string
  if_ipv4 :: ip_interface
  if_switchport :: bool

definition switchport_error :: "interface \<Rightarrow> 'a \<Rightarrow> 'a result" where
  "switchport_error i x =
     (if if_switchport i then Inl (Runtime_error ''Switchport: '') else Inr x)"

definition if_prefix_length :: "interface \<Rightarrow> int result" where
  "if_prefix_length i = switchport_error i (ip_prefix (if_ipv4 i))"

definition if_addr :: "interface \<Rightarrow> ipv4 result" where
  "if_addr i = switchport_error i (ip_value (if_ipv4 i))"

definition if_mask :: "interface \<Rightarrow> ipv4 result" where
  "if_mask i = switchport_error i (interface_mask (if_ipv4 i))"

definition if_network :: "interface \<Rightarrow> ip_network result" where
  "if_network i = bindR (switchport_error i ()) (\<lambda>_. interface_network (if_ipv4 i))"

definition is_l2 :: "interface \<Rightarrow> bool" where
  "is_l2 i \<longleftrightarrow> if_switchport i"

section \<open>Forwarding tables\<close>

datatype fib_ipnh = FIB_IPNH (l3_node: nat) (l3_intf: nat) (l2_node: nat) (l2_intf: nat)

definition ipnh_less :: "fib_ipnh \<Rightarrow> fib_ipnh \<Rightarrow> bool" where
  "ipnh_less a b \<longleftrightarrow>
     (if l3_node a < l3_node b then True
      else if l3_node a > l3_node b then False
      else if l3_intf a < l3_intf b then True
      else if l3_intf a > l3_intf b then False
      else if l2_node a < l2_node b then True
      else if l2_node a > l2_node b then False
      else l2_intf a < l2_intf b)"

definition ipnh_eq :: "fib_ipnh \<Rightarrow> fib_ipnh \<Rightarrow> bool" where
  "ipnh_eq a b \<longleftrightarrow> l3_node a = l3_node b \<and> l3_intf a = l3_intf b
     \<and> l2_node a = l2_node b \<and> l2_intf a = l2_intf b"

instantiation fib_ipnh :: linorder
begin

definition less_fib_ipnh :: "fib_ipnh \<Rightarrow> fib_ipnh \<Rightarrow> bool" where
  "less_fib_ipnh a b \<longleftrightarrow> ipnh_less a b"

definition less_eq_fib_ipnh :: "fib_ipnh \<Rightarrow> fib_ipnh \<Rightarrow> bool" where
  "less_eq_fib_ipnh a b \<longleftrightarrow> \<not> ipnh_less b a"

instance
proof
  fix x y z :: fib_ipnh
  show "x < y \<longleftrightarrow> x \<le> y \<and> \<not> y \<le> x"
    by (auto simp: less_fib_ipnh_def less_eq_fib_ipnh_def ipnh_less_def split: if_splits)
  show "x \<le> x" by (simp add: less_eq_fib_ipnh_def ipnh_less_def)
  show "x \<le> y \<Longrightarrow> y \<le> z \<Longrightarrow> x \<le> z"
    by (auto simp: less_eq_fib_ipnh_def ipnh_less_def split: if_splits)
  show "x \<le> y \<Longrightarrow> y \<le> x \<Longrightarrow> x = y"
    by (cases x; cases y) (auto simp: less_eq_fib_ipnh_def ipnh_less_def split: if_splits)
  show "x \<le> y \<or> y \<le> x" by (auto simp: less_eq_fib_ipnh_def ipnh_less_def)
qed

end

text \<open>\<open>FIB\<close>: a map ordered by node pointers to sets of next hops.\<close>

type_synonym fib = "(nat \<times> fib_ipnh list) list"

definition set_ipnhs :: "nat \<Rightarrow> fib_ipnh list \<Rightarrow> fib \<Rightarrow> fib" where
  "set_ipnhs node nhs f = omap_put node nhs f"

definition add_ipnh :: "nat \<Rightarrow> fib_ipnh \<Rightarrow> fib \<Rightarrow> fib" where
  "add_ipnh node nh f =
     omap_put node (oset_insert nh (case map_of f node of None \<Rightarrow> [] | Some s \<Rightarrow> s)) f"

definition fib_lookup :: "fib \<Rightarrow> nat \<Rightarrow> fib_ipnh list result" where
  "fib_lookup f node = (case map_of f node of None \<Rightarrow> Inl Out_of_range | Some s \<Rightarrow> Inr s)"

section \<open>Nodes\<close>

record l2_lan =
  lan_tbl :: "(nat \<times> (nat \<times> nat) list) list"
  l2_endpoints :: "(nat \<times> nat) list"
  l3_endpoints :: "(ipv4 \<times> nat \<times> nat) list"

record middlebox_conf =
  mb_packets_per_injection :: int
  ec_ip_prefixes :: "ip_network list"
  ec_ip_addrs :: "ipv4 list"
  ec_ports :: "16 word list"

record node =
  nd_name :: string
  nd_intfs :: "string \<rightharpoonup> nat"
  nd_intfs_l3 :: "(ipv4 \<times> nat) list"
  nd_intfs_l2 :: "nat list"
  nd_rib :: rib
  nd_l2_peers :: "string \<rightharpoonup> nat \<times> nat"
  nd_l2_lans :: "nat \<rightharpoonup> nat"
  nd_middlebox :: "middlebox_conf option"   \<comment> \<open>\<open>None\<close> for a plain \<open>Node\<close>\<close>

record net_heap =
  intf_heap :: "nat \<rightharpoonup> interface"
  node_heap :: "nat \<rightharpoonup> node"
  lan_heap :: "nat \<rightharpoonup> l2_lan"

definition derefR :: "(nat \<rightharpoonup> 'a) \<Rightarrow> nat \<Rightarrow> 'a result" where
  "derefR h p = (case h p of None \<Rightarrow> Inl Undefined_behaviour | Some x \<Rightarrow> Inr x)"

definition add_interface :: "net_heap \<Rightarrow> nat \<Rightarrow> node \<Rightarrow> node result" where
  "add_interface h ip nd =
     bindR (derefR (intf_heap h) ip) (\<lambda>i.
     if nd_intfs nd (if_name i) \<noteq> None then Inl (Runtime_error ''Duplicate interface name: '')
     else
       let nd1 = nd\<lparr>nd_intfs := (nd_intfs nd)(if_name i \<mapsto> ip)\<rparr> in
       if is_l2 i then Inr (nd1\<lparr>nd_intfs_l2 := oset_insert ip (nd_intfs_l2 nd1)\<rparr>)
       else
         bindR (if_addr i) (\<lambda>a.
         let (inserted, l3) = omap_insert a ip (nd_intfs_l3 nd1) in
         if \<not> inserted then Inl (Runtime_error ''Duplicate interface IP: '')
         else
           bindR (if_network i) (\<lambda>net.
           let r = \<lparr>rt_network = net, rt_next_hop = a, rt_egress_intf = if_name i, rt_adm_dist = 0\<rparr>
           in Inr (nd1\<lparr>nd_intfs_l3 := l3, nd_rib := snd (rib_insert r (nd_rib nd1))\<rparr>))))"

definition has_ip :: "node \<Rightarrow> ipv4 \<Rightarrow> bool" where
  "has_ip nd a \<longleftrightarrow> map_of (nd_intfs_l3 nd) a \<noteq> None"

definition is_l3_only :: "node \<Rightarrow> bool" where
  "is_l3_only nd \<longleftrightarrow> nd_intfs_l2 nd = []"

definition is_emulated :: "node \<Rightarrow> bool" where
  "is_emulated nd \<longleftrightarrow> nd_middlebox nd \<noteq> None"

definition get_interface :: "node \<Rightarrow> string \<Rightarrow> nat result" where
  "get_interface nd n =
     (case nd_intfs nd n of
        None \<Rightarrow> Inl (Runtime_error '' doesn't have interface '') | Some i \<Rightarrow> Inr i)"

definition get_interface_addr :: "node \<Rightarrow> ipv4 \<Rightarrow> nat result" where
  "get_interface_addr nd a =
     (case map_of (nd_intfs_l3 nd) a of
        None \<Rightarrow> Inl (Runtime_error '' doesn't own '') | Some i \<Rightarrow> Inr i)"

definition loopback_intf :: "node \<Rightarrow> nat" where
  "loopback_intf nd =
     (case nd_intfs nd ''lo'' of Some i \<Rightarrow> i
      | None \<Rightarrow>
        (case map_of (nd_intfs_l3 nd) 0x7F000001 of Some i \<Rightarrow> i
         | None \<Rightarrow>
           (case nd_intfs_l3 nd of (a, i) # _ \<Rightarrow> i
            | [] \<Rightarrow> (case nd_intfs_l2 nd of i # _ \<Rightarrow> i | [] \<Rightarrow> 0))))"

definition get_peer :: "node \<Rightarrow> string \<Rightarrow> nat \<times> nat" where
  "get_peer nd n = (case nd_l2_peers nd n of None \<Rightarrow> (0, 0) | Some p \<Rightarrow> p)"

definition add_peer :: "string \<Rightarrow> nat \<Rightarrow> nat \<Rightarrow> node \<Rightarrow> node result" where
  "add_peer n node intf nd =
     (case nd_l2_peers nd n of
        Some _ \<Rightarrow> Inl (Runtime_error ''Two peers on interface: '')
      | None \<Rightarrow> Inr (nd\<lparr>nd_l2_peers := (nd_l2_peers nd)(n \<mapsto> (node, intf))\<rparr>))"

definition mapped_to_l2lan :: "node \<Rightarrow> nat \<Rightarrow> bool" where
  "mapped_to_l2lan nd i \<longleftrightarrow> nd_l2_lans nd i \<noteq> None"

definition set_l2lan :: "nat \<Rightarrow> nat \<Rightarrow> node \<Rightarrow> node" where
  "set_l2lan i lan nd = nd\<lparr>nd_l2_lans := (nd_l2_lans nd)(i \<mapsto> lan)\<rparr>"

definition get_l2lan :: "node \<Rightarrow> nat \<Rightarrow> nat result" where
  "get_l2lan nd i = (case nd_l2_lans nd i of None \<Rightarrow> Inl Out_of_range | Some l \<Rightarrow> Inr l)"

definition find_l3_endpoint :: "l2_lan \<Rightarrow> ipv4 \<Rightarrow> nat \<times> nat" where
  "find_l3_endpoint lan a = (case map_of (l3_endpoints lan) a of None \<Rightarrow> (0, 0) | Some p \<Rightarrow> p)"

definition get_ipnh :: "net_heap \<Rightarrow> node \<Rightarrow> string \<Rightarrow> ipv4 \<Rightarrow> fib_ipnh result" where
  "get_ipnh h nd egress dst =
     (let (pn, pi) = get_peer nd egress in
      if pn \<noteq> 0 then
        bindR (derefR (intf_heap h) pi) (\<lambda>i.
        if \<not> is_l2 i then Inr (FIB_IPNH pn pi pn pi)
        else
          bindR (derefR (node_heap h) pn) (\<lambda>peer.
          bindR (get_l2lan peer pi) (\<lambda>l.
          bindR (derefR (lan_heap h) l) (\<lambda>lan.
          let (n3, i3) = find_l3_endpoint lan dst in
          if n3 \<noteq> 0 then Inr (FIB_IPNH n3 i3 pn pi) else Inr (FIB_IPNH 0 0 0 0)))))
      else Inr (FIB_IPNH 0 0 0 0))"

text \<open>
  \<open>get_ipnhs\<close>: \<open>rib\<close> is the table looked up (the argument, or the node's own when that is
  null), \<open>seen\<close> the set \<open>looked_up_ips\<close> shared by the recursive calls, and the first argument
  bounds the depth of the recursion.
\<close>

fun get_ipnhs_rec ::
    "nat \<Rightarrow> net_heap \<Rightarrow> nat \<Rightarrow> node \<Rightarrow> rib \<Rightarrow> ipv4 \<Rightarrow> ipv4 list \<Rightarrow> (fib_ipnh list \<times> ipv4 list) result"
where
  "get_ipnhs_rec 0 h self nd rib dst seen = Inl Out_of_fuel"
| "get_ipnhs_rec (Suc n) h self nd rib dst seen =
     (if dst \<in> set seen then Inr ([], seen)
      else
        foldR (\<lambda>r (next_hops, seen).
            if rt_egress_intf r = [] then
              bindR (get_ipnhs_rec n h self nd rib (rt_next_hop r) seen) (\<lambda>(nhs, seen').
              Inr (fold oset_insert nhs next_hops, seen'))
            else if has_ip nd dst then
              Inr (oset_insert (FIB_IPNH self 0 self 0) next_hops, seen)
            else
              bindR (get_ipnh h nd (rt_egress_intf r) dst) (\<lambda>nh.
              Inr (if l3_node nh \<noteq> 0 then oset_insert nh next_hops else next_hops, seen)))
          (iter_range (rib_lookup rib dst) rib) ([], dst # seen))"

definition ipnhs_fuel :: "rib \<Rightarrow> nat" where
  "ipnhs_fuel rib = length rib + 2"

text \<open>The call without the optional set, dispatched on the class of the node: a middlebox
  returns the empty set.\<close>

definition get_ipnhs :: "net_heap \<Rightarrow> nat \<Rightarrow> ipv4 \<Rightarrow> rib option \<Rightarrow> fib_ipnh list result" where
  "get_ipnhs h self dst rib =
     bindR (derefR (node_heap h) self) (\<lambda>nd.
     if is_emulated nd then Inr []
     else
       let t = (case rib of None \<Rightarrow> nd_rib nd | Some t \<Rightarrow> t)
       in bindR (get_ipnhs_rec (ipnhs_fuel t) h self nd t dst []) (\<lambda>(nhs, _). Inr nhs))"

section \<open>Layer-2 LANs\<close>

definition empty_lan :: l2_lan where
  "empty_lan = \<lparr>lan_tbl = [], l2_endpoints = [], l3_endpoints = []\<rparr>"

definition tbl_insert :: "nat \<Rightarrow> nat \<times> nat \<Rightarrow> l2_lan \<Rightarrow> l2_lan" where
  "tbl_insert node peer lan =
     lan\<lparr>lan_tbl := omap_put node
       (oset_insert peer (case map_of (lan_tbl lan) node of None \<Rightarrow> [] | Some s \<Rightarrow> s)) (lan_tbl lan)\<rparr>"

fun collect_intfs :: "nat \<Rightarrow> net_heap \<Rightarrow> nat \<Rightarrow> l2_lan \<Rightarrow> l2_lan result" where
  "collect_intfs 0 h node lan = Inl Out_of_fuel"
| "collect_intfs (Suc n) h node lan =
     bindR (derefR (node_heap h) node) (\<lambda>nd.
     foldR (\<lambda>intf lan.
         if (node, intf) \<notin> set (l2_endpoints lan) then
           let lan1 = lan\<lparr>l2_endpoints := oset_insert (node, intf) (l2_endpoints lan)\<rparr> in
           bindR (derefR (intf_heap h) intf) (\<lambda>i.
           let (pn, pi) = get_peer nd (if_name i) in
           if pn \<noteq> 0 then
             let lan2 = tbl_insert node (pn, pi) lan1 in
             bindR (derefR (intf_heap h) pi) (\<lambda>p.
             if \<not> is_l2 p then
               bindR (if_addr p) (\<lambda>a.
               Inr (lan2\<lparr>l3_endpoints := omap_put a (pn, pi) (l3_endpoints lan2)\<rparr>))
             else if (pn, pi) \<notin> set (l2_endpoints lan2) then collect_intfs n h pn lan2
             else Inr lan2)
           else Inr lan1)
         else Inr lan)
       (nd_intfs_l2 nd) lan)"

definition mk_l2_lan :: "nat \<Rightarrow> net_heap \<Rightarrow> nat \<Rightarrow> l2_lan result" where
  "mk_l2_lan fuel h node = collect_intfs fuel h node empty_lan"

definition l2_lan_eq :: "l2_lan \<Rightarrow> l2_lan \<Rightarrow> bool" where
  "l2_lan_eq a b \<longleftrightarrow> lan_tbl a = lan_tbl b"

section \<open>Links\<close>

record link =
  ln_node1 :: nat
  ln_node2 :: nat
  ln_intf1 :: nat
  ln_intf2 :: nat

definition link_less :: "link \<Rightarrow> link \<Rightarrow> bool" where
  "link_less a b \<longleftrightarrow>
     (if ln_node1 a < ln_node1 b then True
      else if ln_node1 a > ln_node1 b then False
      else if ln_intf1 a < ln_intf1 b then True
      else if ln_intf1 a > ln_intf1 b then False
      else if ln_node2 a < ln_node2 b then True
      else if ln_node2 a > ln_node2 b then False
      else if ln_intf2 a < ln_intf2 b then True
      else if ln_intf2 a > ln_intf2 b then False
      else False)"

definition link_greater :: "link \<Rightarrow> link \<Rightarrow> bool" where
  "link_greater a b \<longleftrightarrow>
     (if ln_node1 a > ln_node1 b then True
      else if ln_node1 a < ln_node1 b then False
      else if ln_intf1 a > ln_intf1 b then True
      else if ln_intf1 a < ln_intf1 b then False
      else if ln_node2 a > ln_node2 b then True
      else if ln_node2 a < ln_node2 b then False
      else if ln_intf2 a > ln_intf2 b then True
      else if ln_intf2 a < ln_intf2 b then False
      else False)"

definition link_eq :: "link \<Rightarrow> link \<Rightarrow> bool" where
  "link_eq a b \<longleftrightarrow> ln_node1 a = ln_node1 b \<and> ln_intf1 a = ln_intf1 b
     \<and> ln_node2 a = ln_node2 b \<and> ln_intf2 a = ln_intf2 b"

interpretation ln: weak_ordered "\<lambda>_. True" link_less
  by unfold_locales (auto simp: link_less_def split: if_splits)

section \<open>The network\<close>

text \<open>\<open>_nodes\<close>, \<open>_mbs\<close> and \<open>l2_lans\<close> are unordered containers: lists in iteration order,
  about which nothing is assumed. \<open>_links\<close> is ordered by \<open>LinkCompare\<close>.\<close>

record network =
  net_nodes :: "(string \<times> nat) list"
  net_links :: "link list"
  net_mbs :: "nat list"
  net_l2_lans :: "nat list"
  net_objs :: net_heap

definition network_init :: network where
  "network_init = \<lparr>net_nodes = [], net_links = [], net_mbs = [], net_l2_lans = [],
     net_objs = \<lparr>intf_heap = Map.empty, node_heap = Map.empty, lan_heap = Map.empty\<rparr>\<rparr>"

definition upd_node :: "nat \<Rightarrow> (node \<Rightarrow> node result) \<Rightarrow> net_heap \<Rightarrow> net_heap result" where
  "upd_node p f h =
     bindR (derefR (node_heap h) p) (\<lambda>nd.
     bindR (f nd) (\<lambda>nd'. Inr (h\<lparr>node_heap := (node_heap h)(p \<mapsto> nd')\<rparr>)))"

definition add_node :: "nat \<Rightarrow> network \<Rightarrow> network result" where
  "add_node p net =
     bindR (derefR (node_heap (net_objs net)) p) (\<lambda>nd.
     case map_of (net_nodes net) (nd_name nd) of
       Some _ \<Rightarrow> Inl (Runtime_error ''Duplicate node: '')
     | None \<Rightarrow> Inr (net\<lparr>net_nodes := (nd_name nd, p) # net_nodes net\<rparr>))"

definition add_link :: "link \<Rightarrow> network \<Rightarrow> network result" where
  "add_link l net =
     (if set_count link_less l (net_links net) then Inr net
      else
        let h = net_objs net in
        bindR (derefR (intf_heap h) (ln_intf1 l)) (\<lambda>i1.
        bindR (upd_node (ln_node1 l) (add_peer (if_name i1) (ln_node2 l) (ln_intf2 l)) h) (\<lambda>h1.
        bindR (derefR (intf_heap h1) (ln_intf2 l)) (\<lambda>i2.
        bindR (upd_node (ln_node2 l) (add_peer (if_name i2) (ln_node1 l) (ln_intf1 l)) h1) (\<lambda>h2.
        Inr (net\<lparr>net_links := set_insert link_less l (net_links net), net_objs := h2\<rparr>))))))"

definition add_middlebox :: "nat \<Rightarrow> network \<Rightarrow> network result" where
  "add_middlebox p net =
     (if p \<in> set (net_mbs net) then Inl (Runtime_error ''Duplicate middlebox: '')
      else Inr (net\<lparr>net_mbs := p # net_mbs net\<rparr>))"

text \<open>\<open>new L2_LAN\<close> takes its address \<open>p\<close> as an argument; an equal LAN in the set is reused.\<close>

definition grow_and_set_l2_lan :: "nat \<Rightarrow> nat \<Rightarrow> nat \<Rightarrow> network \<Rightarrow> network result" where
  "grow_and_set_l2_lan fuel p node net =
     bindR (mk_l2_lan fuel (net_objs net) node) (\<lambda>lan.
     let h = net_objs net;
         same = (\<lambda>q. case lan_heap h q of None \<Rightarrow> False | Some l \<Rightarrow> l2_lan_eq l lan)
     in
     bindR (case find same (net_l2_lans net) of
          Some q \<Rightarrow> bindR (derefR (lan_heap h) q) (\<lambda>l. Inr (q, l, h, net_l2_lans net))
        | None \<Rightarrow> Inr (p, lan, h\<lparr>lan_heap := (lan_heap h)(p \<mapsto> lan)\<rparr>, p # net_l2_lans net))
       (\<lambda>(q, l, h1, lans).
     bindR (foldR (\<lambda>(node, intf). upd_node node (\<lambda>nd. Inr (set_l2lan intf q nd))) (l2_endpoints l) h1)
       (\<lambda>h2.
     bindR (foldR (\<lambda>(a, node, intf). upd_node node (\<lambda>nd. Inr (set_l2lan intf q nd))) (l3_endpoints l) h2)
       (\<lambda>h3. Inr (net\<lparr>net_l2_lans := lans, net_objs := h3\<rparr>)))))"

definition network_reset :: "network \<Rightarrow> network" where
  "network_reset net =
     net\<lparr>net_nodes := [], net_mbs := [], net_links := [], net_l2_lans := [],
       net_objs := (net_objs net)
         \<lparr>node_heap := node_heap (net_objs net) |` (- snd ` set (net_nodes net)),
          lan_heap := lan_heap (net_objs net) |` (- set (net_l2_lans net))\<rparr>\<rparr>"

section \<open>Next hops: termination and the addresses looked up\<close>

text \<open>\<open>via rib dst ip\<close>: the lookup of \<open>dst\<close> leads to the lookup of \<open>ip\<close> through routes without an
  egress interface.\<close>

inductive via :: "rib \<Rightarrow> ipv4 \<Rightarrow> ipv4 \<Rightarrow> bool" for rib :: rib and dst :: ipv4 where
  via_refl: "via rib dst dst"
| via_step: "via rib dst ip \<Longrightarrow> r \<in> set (iter_range (rib_lookup rib ip) rib) \<Longrightarrow>
    rt_egress_intf r = [] \<Longrightarrow> via rib dst (rt_next_hop r)"

inductive_cases via_cases: "via rib dst ip"

text \<open>The next hops an address contributes itself, by its connected routes.\<close>

definition direct_nhs :: "net_heap \<Rightarrow> nat \<Rightarrow> node \<Rightarrow> rib \<Rightarrow> ipv4 \<Rightarrow> fib_ipnh set" where
  "direct_nhs h self nd rib ip =
     {nh. \<exists>r \<in> set (iter_range (rib_lookup rib ip) rib). rt_egress_intf r \<noteq> []
        \<and> (if has_ip nd ip then nh = FIB_IPNH self 0 self 0
           else get_ipnh h nd (rt_egress_intf r) ip = Inr nh \<and> l3_node nh \<noteq> 0)}"

definition ipnh_total :: "net_heap \<Rightarrow> node \<Rightarrow> rib \<Rightarrow> bool" where
  "ipnh_total h nd rib \<longleftrightarrow>
     (\<forall>r \<in> set rib. \<forall>ip. rt_egress_intf r \<noteq> [] \<longrightarrow> is_ok (get_ipnh h nd (rt_egress_intf r) ip))"

definition lookup_ips :: "rib \<Rightarrow> ipv4 \<Rightarrow> ipv4 set" where
  "lookup_ips rib dst = insert dst (rt_next_hop ` set rib)"

definition looked_up :: "net_heap \<Rightarrow> nat \<Rightarrow> node \<Rightarrow> rib \<Rightarrow> ipv4 \<Rightarrow> ipv4 set \<Rightarrow> ipv4 set \<Rightarrow> fib_ipnh list \<Rightarrow> bool"
where
  "looked_up h self nd rib dst s0 s nhs \<longleftrightarrow> s0 \<subseteq> s \<and> oset nhs
     \<and> set nhs = (\<Union>ip \<in> s - s0. direct_nhs h self nd rib ip)
     \<and> (\<forall>ip \<in> s - s0. via rib dst ip)
     \<and> (\<forall>ip \<in> s - s0. \<forall>r \<in> set (iter_range (rib_lookup rib ip) rib).
          rt_egress_intf r = [] \<longrightarrow> rt_next_hop r \<in> s)"

lemma iter_range_subset: "set (iter_range p xs) \<subseteq> set xs"
  by (auto simp: iter_range_def dest: in_set_takeD in_set_dropD)

lemma fold_oset_insert:
  assumes "oset acc"
  shows "oset (fold oset_insert xs acc) \<and> set (fold oset_insert xs acc) = set acc \<union> set xs"
  using assms by (induction xs arbitrary: acc) auto

lemma via_trans: "via rib b c \<Longrightarrow> via rib a b \<Longrightarrow> via rib a c"
  by (induction rule: via.induct) (auto intro: via.intros)

text \<open>One route's contribution to the next hops of \<open>ip\<close>.\<close>

definition contrib :: "net_heap \<Rightarrow> nat \<Rightarrow> node \<Rightarrow> ipv4 \<Rightarrow> route list \<Rightarrow> fib_ipnh set" where
  "contrib h self nd ip rs = {nh. \<exists>r \<in> set rs. rt_egress_intf r \<noteq> []
        \<and> (if has_ip nd ip then nh = FIB_IPNH self 0 self 0
           else get_ipnh h nd (rt_egress_intf r) ip = Inr nh \<and> l3_node nh \<noteq> 0)}"

definition route_step ::
  "(ipv4 \<Rightarrow> ipv4 list \<Rightarrow> (fib_ipnh list \<times> ipv4 list) result) \<Rightarrow> net_heap \<Rightarrow> nat \<Rightarrow> node \<Rightarrow> ipv4 \<Rightarrow> route
    \<Rightarrow> fib_ipnh list \<times> ipv4 list \<Rightarrow> (fib_ipnh list \<times> ipv4 list) result" where
  "route_step rec h self nd dst r = (\<lambda>(next_hops, seen).
      if rt_egress_intf r = [] then
        bindR (rec (rt_next_hop r) seen) (\<lambda>(nhs, seen').
        Inr (fold oset_insert nhs next_hops, seen'))
      else if has_ip nd dst then
        Inr (oset_insert (FIB_IPNH self 0 self 0) next_hops, seen)
      else
        bindR (get_ipnh h nd (rt_egress_intf r) dst) (\<lambda>nh.
        Inr (if l3_node nh \<noteq> 0 then oset_insert nh next_hops else next_hops, seen)))"

lemma get_ipnhs_rec_Suc:
  "get_ipnhs_rec (Suc n) h self nd rib dst seen =
     (if dst \<in> set seen then Inr ([], seen)
      else foldR (route_step (get_ipnhs_rec n h self nd rib) h self nd dst)
             (iter_range (rib_lookup rib dst) rib) ([], dst # seen))"
  by (simp add: route_step_def[abs_def])

lemma routes_fold:
  assumes rec: "\<And>ip s. S0 \<subseteq> set s \<Longrightarrow> set s \<subseteq> U \<Longrightarrow> ip \<in> U \<Longrightarrow> \<exists>nhs s'. rec ip s = Inr (nhs, s')
      \<and> looked_up h self nd rib ip (set s) (set s') nhs \<and> ip \<in> set s' \<and> set s' \<subseteq> U"
    and rs: "set rs \<subseteq> set (iter_range (rib_lookup rib dst) rib)"
    and U: "\<And>r. r \<in> set rib \<Longrightarrow> rt_next_hop r \<in> U"
    and tot: "ipnh_total h nd rib"
    and "oset acc" and "S0 \<subseteq> set s" and "set s \<subseteq> U"
  shows "\<exists>acc' s'. foldR (route_step rec h self nd dst) rs (acc, s) = Inr (acc', s')
    \<and> oset acc' \<and> set s \<subseteq> set s' \<and> set s' \<subseteq> U
    \<and> set acc' = set acc \<union> contrib h self nd dst rs \<union> (\<Union>ip \<in> set s' - set s. direct_nhs h self nd rib ip)
    \<and> (\<forall>ip \<in> set s' - set s. via rib dst ip)
    \<and> (\<forall>ip \<in> set s' - set s. \<forall>r \<in> set (iter_range (rib_lookup rib ip) rib).
          rt_egress_intf r = [] \<longrightarrow> rt_next_hop r \<in> set s')
    \<and> (\<forall>r \<in> set rs. rt_egress_intf r = [] \<longrightarrow> rt_next_hop r \<in> set s')"
  using rs assms(5-7)
proof (induction rs arbitrary: acc s)
  case Nil
  then show ?case by (auto simp: contrib_def)
next
  case (Cons r rs)
  have rin: "r \<in> set (iter_range (rib_lookup rib dst) rib)" using Cons.prems(1) by simp
  have rrib: "r \<in> set rib" using rin iter_range_subset[of "rib_lookup rib dst" rib] by blast
  have "\<exists>acc1 s1. route_step rec h self nd dst r (acc, s) = Inr (acc1, s1) \<and> oset acc1
    \<and> set s \<subseteq> set s1 \<and> set s1 \<subseteq> U
    \<and> set acc1 = set acc \<union> contrib h self nd dst [r] \<union> (\<Union>ip \<in> set s1 - set s. direct_nhs h self nd rib ip)
    \<and> (\<forall>ip \<in> set s1 - set s. via rib dst ip)
    \<and> (\<forall>ip \<in> set s1 - set s. \<forall>r \<in> set (iter_range (rib_lookup rib ip) rib).
          rt_egress_intf r = [] \<longrightarrow> rt_next_hop r \<in> set s1)
    \<and> (rt_egress_intf r = [] \<longrightarrow> rt_next_hop r \<in> set s1)"
  proof (cases "rt_egress_intf r = []")
    case True
    note rc = rec[OF Cons.prems(3,4) U[OF rrib]]
    obtain nhs s1 where s1: "rec (rt_next_hop r) s = Inr (nhs, s1)"
        "looked_up h self nd rib (rt_next_hop r) (set s) (set s1) nhs" "rt_next_hop r \<in> set s1" "set s1 \<subseteq> U"
      using rc by (elim exE conjE)
    have "via rib dst (rt_next_hop r)" using via_step[OF via_refl rin True] .
    then have v: "\<forall>ip \<in> set s1 - set s. via rib dst ip"
      using s1(2) via_trans[OF _ \<open>via rib dst (rt_next_hop r)\<close>] unfolding looked_up_def by simp
    have c: "contrib h self nd dst [r] = {}" using True by (simp add: contrib_def)
    have f: "route_step rec h self nd dst r (acc, s) = Inr (fold oset_insert nhs acc, s1)"
      using True s1(1) by (simp add: route_step_def)
    have st: "set (fold oset_insert nhs acc) = set acc \<union> contrib h self nd dst [r]
        \<union> (\<Union>ip \<in> set s1 - set s. direct_nhs h self nd rib ip)"
      using s1(2) fold_oset_insert[OF Cons.prems(2), of nhs] unfolding c looked_up_def by simp
    have "set s \<subseteq> set s1" "\<forall>ip \<in> set s1 - set s. \<forall>r \<in> set (iter_range (rib_lookup rib ip) rib).
          rt_egress_intf r = [] \<longrightarrow> rt_next_hop r \<in> set s1"
      using s1(2) unfolding looked_up_def by simp_all
    note cl = this
    have o: "oset (fold oset_insert nhs acc)"
      using fold_oset_insert[OF Cons.prems(2), of nhs] by simp
    have n: "rt_egress_intf r = [] \<longrightarrow> rt_next_hop r \<in> set s1" using s1(3) by simp
    show ?thesis
      by (rule exI[of _ "fold oset_insert nhs acc"], rule exI[of _ s1],
          intro conjI f o st v cl s1(4) n)
  next
    case False
    show ?thesis
    proof (cases "has_ip nd dst")
      case True
      then show ?thesis using False Cons.prems by (simp add: route_step_def contrib_def)
    next
      case hf: False
      obtain nh where nh: "get_ipnh h nd (rt_egress_intf r) dst = Inr nh"
        using tot rrib False by (auto simp: ipnh_total_def is_ok_iff)
      then show ?thesis using False hf Cons.prems by (simp add: route_step_def contrib_def) auto
    qed
  qed
  then obtain acc1 s1 where a: "route_step rec h self nd dst r (acc, s) = Inr (acc1, s1)" "oset acc1"
    "set s \<subseteq> set s1" "set s1 \<subseteq> U"
    "set acc1 = set acc \<union> contrib h self nd dst [r] \<union> (\<Union>ip \<in> set s1 - set s. direct_nhs h self nd rib ip)"
    "\<forall>ip \<in> set s1 - set s. via rib dst ip"
    "\<forall>ip \<in> set s1 - set s. \<forall>r \<in> set (iter_range (rib_lookup rib ip) rib).
          rt_egress_intf r = [] \<longrightarrow> rt_next_hop r \<in> set s1"
    "rt_egress_intf r = [] \<longrightarrow> rt_next_hop r \<in> set s1"
    by blast
  have "set rs \<subseteq> set (iter_range (rib_lookup rib dst) rib)" "S0 \<subseteq> set s1"
    using Cons.prems a(3) by auto
  from Cons.IH[OF this(1) a(2) this(2) a(4)] obtain acc' s' where b:
    "foldR (route_step rec h self nd dst) rs (acc1, s1) = Inr (acc', s')"
    "oset acc'" "set s1 \<subseteq> set s'" "set s' \<subseteq> U"
    "set acc' = set acc1 \<union> contrib h self nd dst rs \<union> (\<Union>ip \<in> set s' - set s1. direct_nhs h self nd rib ip)"
    "\<forall>ip \<in> set s' - set s1. via rib dst ip"
    "\<forall>ip \<in> set s' - set s1. \<forall>r \<in> set (iter_range (rib_lookup rib ip) rib).
          rt_egress_intf r = [] \<longrightarrow> rt_next_hop r \<in> set s'"
    "\<forall>r \<in> set rs. rt_egress_intf r = [] \<longrightarrow> rt_next_hop r \<in> set s'"
    by blast
  have diff: "set s' - set s = (set s1 - set s) \<union> (set s' - set s1)" using a(3) b(3) by blast
  have con: "contrib h self nd dst (r # rs) = contrib h self nd dst [r] \<union> contrib h self nd dst rs"
    by (auto simp: contrib_def)
  have acc': "set acc' = set acc \<union> contrib h self nd dst (r # rs)
      \<union> (\<Union>ip \<in> set s' - set s. direct_nhs h self nd rib ip)"
    unfolding b(5) a(5) con diff by blast
  have f: "foldR (route_step rec h self nd dst) (r # rs) (acc, s) = Inr (acc', s')"
    using a(1) b(1) by simp
  have "set s \<subseteq> set s'" using a(3) b(3) by blast
  moreover have "\<forall>ip \<in> set s' - set s. via rib dst ip" unfolding diff using a(6) b(6) by blast
  moreover have "\<forall>ip \<in> set s' - set s. \<forall>r \<in> set (iter_range (rib_lookup rib ip) rib).
          rt_egress_intf r = [] \<longrightarrow> rt_next_hop r \<in> set s'"
    unfolding diff using a(7) b(3,7) by blast
  moreover have "\<forall>r \<in> set (r # rs). rt_egress_intf r = [] \<longrightarrow> rt_next_hop r \<in> set s'"
    using a(8) b(3,8) by auto
  ultimately show ?case using f b(2,4) acc' by blast
qed

lemma get_ipnhs_rec_spec:
  assumes fin: "finite U" and U: "\<And>r. r \<in> set rib \<Longrightarrow> rt_next_hop r \<in> U"
    and tot: "ipnh_total h nd rib"
    and "card (U - set s) < n" and "dst \<in> U" and "set s \<subseteq> U"
  shows "\<exists>nhs s'. get_ipnhs_rec n h self nd rib dst s = Inr (nhs, s')
      \<and> looked_up h self nd rib dst (set s) (set s') nhs \<and> dst \<in> set s' \<and> set s' \<subseteq> U"
  using assms(4-6)
proof (induction n arbitrary: dst s)
  case 0
  then show ?case by simp
next
  case (Suc n)
  show ?case
  proof (cases "dst \<in> set s")
    case True
    then show ?thesis using Suc.prems(3) by (simp add: get_ipnhs_rec_Suc looked_up_def)
  next
    case False
    let ?rs = "iter_range (rib_lookup rib dst) rib"
    let ?S0 = "insert dst (set s)"
    have rec: "\<exists>nhs t'. get_ipnhs_rec n h self nd rib ip t = Inr (nhs, t')
        \<and> looked_up h self nd rib ip (set t) (set t') nhs \<and> ip \<in> set t' \<and> set t' \<subseteq> U"
      if t: "?S0 \<subseteq> set t" "set t \<subseteq> U" "ip \<in> U" for ip t
    proof -
      have "U - set t \<subset> U - set s" using False Suc.prems(2) t by blast
      then have "card (U - set t) < card (U - set s)"
        using fin by (intro psubset_card_mono) auto
      then have "card (U - set t) < n" using Suc.prems(1) by simp
      from Suc.IH[OF this t(3,2)] show ?thesis .
    qed
    have "set ?rs \<subseteq> set ?rs" "oset []" "?S0 \<subseteq> set (dst # s)" "set (dst # s) \<subseteq> U"
      using Suc.prems by auto
    from routes_fold[where rec = "get_ipnhs_rec n h self nd rib" and ?S0.0 = ?S0,
        OF rec this(1) U tot this(2-4)]
    obtain nhs s' where r: "foldR (route_step (get_ipnhs_rec n h self nd rib) h self nd dst) ?rs ([], dst # s)
        = Inr (nhs, s')" "oset nhs" "set (dst # s) \<subseteq> set s'" "set s' \<subseteq> U"
      "set nhs = set [] \<union> contrib h self nd dst ?rs \<union> (\<Union>ip \<in> set s' - set (dst # s). direct_nhs h self nd rib ip)"
      "\<forall>ip \<in> set s' - set (dst # s). via rib dst ip"
      "\<forall>ip \<in> set s' - set (dst # s). \<forall>r \<in> set (iter_range (rib_lookup rib ip) rib).
          rt_egress_intf r = [] \<longrightarrow> rt_next_hop r \<in> set s'"
      "\<forall>r \<in> set ?rs. rt_egress_intf r = [] \<longrightarrow> rt_next_hop r \<in> set s'"
      by blast
    have new: "set s' - set s = insert dst (set s' - set (dst # s))" using r(3) False by auto
    have "contrib h self nd dst ?rs = direct_nhs h self nd rib dst"
      by (simp add: contrib_def direct_nhs_def)
    then have "set nhs = (\<Union>ip \<in> set s' - set s. direct_nhs h self nd rib ip)"
      unfolding new r(5) by auto
    moreover have "\<forall>ip \<in> set s' - set s. via rib dst ip"
      unfolding new using r(6) via_refl by blast
    moreover have "\<forall>ip \<in> set s' - set s. \<forall>r \<in> set (iter_range (rib_lookup rib ip) rib).
          rt_egress_intf r = [] \<longrightarrow> rt_next_hop r \<in> set s'"
      unfolding new using r(7,8) by blast
    moreover have "set s \<subseteq> set s'" "dst \<in> set s'" using r(3) by auto
    ultimately have "looked_up h self nd rib dst (set s) (set s') nhs"
      unfolding looked_up_def using r(2) by blast
    moreover have "get_ipnhs_rec (Suc n) h self nd rib dst s = Inr (nhs, s')"
      using r(1) False by (simp only: get_ipnhs_rec_Suc if_False)
    ultimately show ?thesis using r(4) \<open>dst \<in> set s'\<close> by blast
  qed
qed

lemma get_ipnhs_rec_total:
  assumes "ipnh_total h nd rib"
  shows "\<exists>nhs seen. get_ipnhs_rec (ipnhs_fuel rib) h self nd rib dst [] = Inr (nhs, seen)
    \<and> oset nhs \<and> set seen = {ip. via rib dst ip}
    \<and> set nhs = (\<Union>ip \<in> {ip. via rib dst ip}. direct_nhs h self nd rib ip)"
proof -
  let ?U = "lookup_ips rib dst"
  have "card (rt_next_hop ` set rib) \<le> length rib"
    by (meson card_image_le card_length finite_set order_trans)
  then have "card ?U \<le> Suc (length rib)"
    using card_insert_le_m1[of "Suc (length rib)" "rt_next_hop ` set rib" dst]
    by (simp add: lookup_ips_def card_insert_if)
  then have c: "card (?U - set []) < ipnhs_fuel rib" by (simp add: ipnhs_fuel_def)
  have U: "finite ?U" "\<And>r. r \<in> set rib \<Longrightarrow> rt_next_hop r \<in> ?U" "dst \<in> ?U" "set [] \<subseteq> ?U"
    by (auto simp: lookup_ips_def)
  obtain nhs s' where r: "get_ipnhs_rec (ipnhs_fuel rib) h self nd rib dst [] = Inr (nhs, s')"
      "looked_up h self nd rib dst (set []) (set s') nhs" "dst \<in> set s'"
    using get_ipnhs_rec_spec[OF U(1,2) assms c U(3,4)] by blast
  have "ip \<in> set s'" if "via rib dst ip" for ip
    using that
  proof (induction rule: via.induct)
    case (via_step ip r)
    then show ?case using r(2) by (auto simp: looked_up_def)
  qed (rule r(3))
  then have "set s' = {ip. via rib dst ip}" using r(2) by (auto simp: looked_up_def)
  then show ?thesis using r(1,2) by (auto simp: looked_up_def)
qed

text \<open>C36. \<open>Node::get_ipnhs\<close> terminates on every routing table, cyclic next hops included, within a
  recursion depth of two more than the number of routes, and returns exactly the next hops of
  the connected routes of the addresses that the lookup leads to.\<close>

theorem get_ipnhs_rec_complete:
  assumes "ipnh_total h nd rib"
  shows "\<exists>nhs seen. get_ipnhs_rec (ipnhs_fuel rib) h self nd rib dst [] = Inr (nhs, seen)
    \<and> set seen = {ip. via rib dst ip}
    \<and> set nhs = (\<Union>ip \<in> {ip. via rib dst ip}. direct_nhs h self nd rib ip)"
proof -
  obtain nhs seen where "get_ipnhs_rec (ipnhs_fuel rib) h self nd rib dst [] = Inr (nhs, seen)"
      "set seen = {ip. via rib dst ip}"
      "set nhs = (\<Union>ip \<in> {ip. via rib dst ip}. direct_nhs h self nd rib ip)"
    using get_ipnhs_rec_total[OF assms] by metis
  then show ?thesis by (intro exI conjI)
qed

theorem get_ipnhs_rec_complete_witness:
  "let r = \<lparr>rt_network = \<lparr>ip_value = 0x0A000000, ip_prefix = 8\<rparr>, rt_next_hop = 0x0A000001,
            rt_egress_intf = [], rt_adm_dist = 1\<rparr>;
       h = \<lparr>intf_heap = Map.empty, node_heap = Map.empty, lan_heap = Map.empty\<rparr>;
       nd = \<lparr>nd_name = ''r1'', nd_intfs = Map.empty, nd_intfs_l3 = [], nd_intfs_l2 = [], nd_rib = [r],
             nd_l2_peers = Map.empty, nd_l2_lans = Map.empty, nd_middlebox = None\<rparr>
   in \<exists>seen. get_ipnhs_rec (ipnhs_fuel [r]) h 1 nd [r] 0x0A000005 [] = Inr ([], seen)"
proof -
  let ?r = "\<lparr>rt_network = \<lparr>ip_value = 0x0A000000, ip_prefix = 8\<rparr>, rt_next_hop = 0x0A000001,
            rt_egress_intf = [], rt_adm_dist = 1\<rparr>"
  let ?h = "\<lparr>intf_heap = Map.empty, node_heap = Map.empty, lan_heap = Map.empty\<rparr>"
  let ?nd = "\<lparr>nd_name = ''r1'', nd_intfs = Map.empty, nd_intfs_l3 = [], nd_intfs_l2 = [], nd_rib = [?r],
             nd_l2_peers = Map.empty, nd_l2_lans = Map.empty, nd_middlebox = None\<rparr>"
  have "ipnh_total ?h ?nd [?r]" by (simp add: ipnh_total_def)
  from get_ipnhs_rec_complete[OF this, of 1 "0x0A000005"] obtain nhs seen where
      r: "get_ipnhs_rec (ipnhs_fuel [?r]) ?h 1 ?nd [?r] 0x0A000005 [] = Inr (nhs, seen)"
      "set nhs = (\<Union>ip \<in> {ip. via [?r] 0x0A000005 ip}. direct_nhs ?h 1 ?nd [?r] ip)"
    by blast
  have "direct_nhs ?h 1 ?nd [?r] ip = {}" for ip
    using iter_range_subset[of "rib_lookup [?r] ip" "[?r]"] by (auto simp: direct_nhs_def)
  then have "nhs = []" using r(2) by simp
  then show ?thesis unfolding Let_def using r(1) by blast
qed

section \<open>LANs: termination and completeness\<close>

text \<open>The connected peer of an L2 interface, and the wiring a parsed configuration has: peers exist,
  and a switchport peer is one of its node's L2 interfaces.\<close>

definition lan_peer :: "net_heap \<Rightarrow> nat \<Rightarrow> nat \<Rightarrow> (nat \<times> nat) option" where
  "lan_peer h n i =
     (case (node_heap h n, intf_heap h i) of
        (Some nd, Some x) \<Rightarrow>
          let p = get_peer nd (if_name x) in if fst p \<noteq> 0 then Some p else None
      | _ \<Rightarrow> None)"

definition l2_intfs :: "net_heap \<Rightarrow> nat \<Rightarrow> nat set" where
  "l2_intfs h n = (case node_heap h n of None \<Rightarrow> {} | Some nd \<Rightarrow> set (nd_intfs_l2 nd))"

definition l2_port :: "net_heap \<Rightarrow> nat \<Rightarrow> bool" where
  "l2_port h i \<longleftrightarrow> (case intf_heap h i of None \<Rightarrow> False | Some x \<Rightarrow> if_switchport x)"

definition l3_addr :: "net_heap \<Rightarrow> nat \<Rightarrow> ipv4 option" where
  "l3_addr h i = (case intf_heap h i of None \<Rightarrow> None
     | Some x \<Rightarrow> if if_switchport x then None else Some (ip_value (if_ipv4 x)))"

definition wired :: "net_heap \<Rightarrow> bool" where
  "wired h \<longleftrightarrow> (\<forall>n. \<forall>i \<in> l2_intfs h n. intf_heap h i \<noteq> None
     \<and> (\<forall>pn pi. lan_peer h n i = Some (pn, pi) \<longrightarrow>
          node_heap h pn \<noteq> None \<and> intf_heap h pi \<noteq> None \<and> (l2_port h pi \<longrightarrow> pi \<in> l2_intfs h pn)))"

inductive lan_reach :: "net_heap \<Rightarrow> nat \<Rightarrow> nat \<times> nat \<Rightarrow> bool" for h :: net_heap and node :: nat where
  lan_own: "i \<in> l2_intfs h node \<Longrightarrow> lan_reach h node (node, i)"
| lan_hop: "lan_reach h node (n, i) \<Longrightarrow> lan_peer h n i = Some (pn, pi) \<Longrightarrow> l2_port h pi \<Longrightarrow>
    j \<in> l2_intfs h pn \<Longrightarrow> lan_reach h node (pn, j)"

lemma lan_reach_trans:
  assumes "lan_reach h pn e" and "lan_reach h node (n, i)" and "lan_peer h n i = Some (pn, pi)"
    and "l2_port h pi"
  shows "lan_reach h node e"
  using assms(1)
proof (induction rule: lan_reach.induct)
  case (lan_own i)
  then show ?case by (rule lan_reach.lan_hop[OF assms(2-4)])
next
  case (lan_hop n i pn pi j)
  show ?case by (rule lan_reach.lan_hop[OF lan_hop.IH lan_hop.hyps(2-4)])
qed

definition l3_of :: "net_heap \<Rightarrow> (nat \<times> nat) set \<Rightarrow> ipv4 set" where
  "l3_of h E = {a. \<exists>n i pn pi. (n, i) \<in> E \<and> lan_peer h n i = Some (pn, pi) \<and> l3_addr h pi = Some a}"

text \<open>What a call of \<open>collect_intfs\<close> adds to the LAN, \<open>cur\<close> being a node still in progress.\<close>

definition lan_done :: "net_heap \<Rightarrow> nat option \<Rightarrow> (nat \<times> nat) set \<Rightarrow> nat \<Rightarrow> nat \<Rightarrow> bool" where
  "lan_done h cur E n i \<longleftrightarrow>
     (Some n \<noteq> cur \<longrightarrow> (\<forall>j \<in> l2_intfs h n. (n, j) \<in> E))
     \<and> (\<forall>pn pi. lan_peer h n i = Some (pn, pi) \<longrightarrow> l2_port h pi \<longrightarrow> (pn, pi) \<in> E)"

lemma lan_done_mono: "lan_done h cur E n i \<Longrightarrow> E \<subseteq> F \<Longrightarrow> lan_done h cur F n i"
  unfolding lan_done_def by blast

lemma l3_of_empty [simp]: "l3_of h {} = {}"
  by (simp add: l3_of_def)

definition lan_grows :: "net_heap \<Rightarrow> nat \<Rightarrow> nat option \<Rightarrow> l2_lan \<Rightarrow> l2_lan \<Rightarrow> bool" where
  "lan_grows h node cur s t \<longleftrightarrow>
     oset (l2_endpoints t) \<and> set (l2_endpoints s) \<subseteq> set (l2_endpoints t)
     \<and> (\<forall>e \<in> set (l2_endpoints t) - set (l2_endpoints s). lan_reach h node e)
     \<and> (\<forall>n i. (n, i) \<in> set (l2_endpoints t) - set (l2_endpoints s) \<longrightarrow>
          lan_done h cur (set (l2_endpoints t)) n i)
     \<and> dom (map_of (l3_endpoints t)) = dom (map_of (l3_endpoints s))
         \<union> l3_of h (set (l2_endpoints t) - set (l2_endpoints s))"

lemma l3_of_Un: "l3_of h (A \<union> B) = l3_of h A \<union> l3_of h B"
  by (auto simp: l3_of_def)

lemma l3_of_insert: "l3_of h (insert e A) = l3_of h {e} \<union> l3_of h A"
  by (auto simp: l3_of_def)

lemma l3_of_single:
  "l3_of h {(n, i)} = (case lan_peer h n i of None \<Rightarrow> {} | Some (pn, pi) \<Rightarrow> set_option (l3_addr h pi))"
  by (auto simp: l3_of_def split: option.splits)

definition intf_step ::
  "(nat \<Rightarrow> l2_lan \<Rightarrow> l2_lan result) \<Rightarrow> net_heap \<Rightarrow> nat \<Rightarrow> node \<Rightarrow> nat \<Rightarrow> l2_lan \<Rightarrow> l2_lan result" where
  "intf_step rec h node nd intf lan =
         (if (node, intf) \<notin> set (l2_endpoints lan) then
           let lan1 = lan\<lparr>l2_endpoints := oset_insert (node, intf) (l2_endpoints lan)\<rparr> in
           bindR (derefR (intf_heap h) intf) (\<lambda>i.
           let (pn, pi) = get_peer nd (if_name i) in
           if pn \<noteq> 0 then
             let lan2 = tbl_insert node (pn, pi) lan1 in
             bindR (derefR (intf_heap h) pi) (\<lambda>p.
             if \<not> is_l2 p then
               bindR (if_addr p) (\<lambda>a.
               Inr (lan2\<lparr>l3_endpoints := omap_put a (pn, pi) (l3_endpoints lan2)\<rparr>))
             else if (pn, pi) \<notin> set (l2_endpoints lan2) then rec pn lan2
             else Inr lan2)
           else Inr lan1)
         else Inr lan)"

lemma collect_intfs_Suc:
  "collect_intfs (Suc n) h node lan =
     bindR (derefR (node_heap h) node) (\<lambda>nd. foldR (intf_step (collect_intfs n h) h node nd) (nd_intfs_l2 nd) lan)"
  by (simp add: intf_step_def[abs_def])

lemma lan_grows_trans:
  assumes "lan_grows h node cur s t" and "lan_grows h node cur t u"
  shows "lan_grows h node cur s u"
proof -
  let ?E = "\<lambda>l. set (l2_endpoints l)"
  have d: "?E u - ?E s = (?E t - ?E s) \<union> (?E u - ?E t)"
    using assms by (auto simp: lan_grows_def)
  have sub: "?E t \<subseteq> ?E u" "?E s \<subseteq> ?E t" using assms by (auto simp: lan_grows_def)
  have "\<forall>n i. (n, i) \<in> ?E u - ?E s \<longrightarrow> lan_done h cur (?E u) n i"
    unfolding d using assms lan_done_mono[OF _ sub(1)] unfolding lan_grows_def by blast
  moreover have "\<forall>e \<in> ?E u - ?E s. lan_reach h node e"
    unfolding d using assms unfolding lan_grows_def by blast
  moreover have "dom (map_of (l3_endpoints u)) = dom (map_of (l3_endpoints s)) \<union> l3_of h (?E u - ?E s)"
    unfolding d l3_of_Un using assms unfolding lan_grows_def by (simp add: Un_assoc)
  ultimately show ?thesis using assms sub unfolding lan_grows_def by simp
qed

lemma tbl_insert_simps [simp]:
  "l2_endpoints (tbl_insert n p lan) = l2_endpoints lan"
  "l3_endpoints (tbl_insert n p lan) = l3_endpoints lan"
  by (simp_all add: tbl_insert_def)

lemma intf_step_grows:
  assumes w: "wired h" and nd: "node_heap h node = Some nd" and i: "intf \<in> set (nd_intfs_l2 nd)"
    and o: "oset (l2_endpoints s)"
    and rec: "\<And>pn t. node_heap h pn \<noteq> None \<Longrightarrow> oset (l2_endpoints t) \<Longrightarrow> (node, intf) \<notin> set (l2_endpoints s) \<Longrightarrow>
        set (l2_endpoints t) = insert (node, intf) (set (l2_endpoints s)) \<Longrightarrow>
        \<exists>u. rec pn t = Inr u \<and> lan_grows h pn None t u \<and> (\<forall>j \<in> l2_intfs h pn. (pn, j) \<in> set (l2_endpoints u))"
  shows "\<exists>t. intf_step rec h node nd intf s = Inr t \<and> lan_grows h node (Some node) s t
    \<and> (node, intf) \<in> set (l2_endpoints t)"
proof (cases "(node, intf) \<in> set (l2_endpoints s)")
  case True
  then show ?thesis using o by (auto simp: intf_step_def lan_grows_def)
next
  case False
  let ?E = "\<lambda>l. set (l2_endpoints l)"
  have li: "intf \<in> l2_intfs h node" using nd i by (simp add: l2_intfs_def)
  then obtain x where x: "intf_heap h intf = Some x" using w unfolding wired_def by blast
  have own: "lan_reach h node (node, intf)" using lan_own[OF li] .
  have dd: "insert (node, intf) (?E s) - ?E s = {(node, intf)}" using False by auto
  define s1 where "s1 = s\<lparr>l2_endpoints := oset_insert (node, intf) (l2_endpoints s)\<rparr>"
  have s1: "oset (l2_endpoints s1)" "?E s1 = insert (node, intf) (?E s)" "l3_endpoints s1 = l3_endpoints s"
    using o by (simp_all add: s1_def)
  obtain pn pi where p: "get_peer nd (if_name x) = (pn, pi)" by fastforce
  have lp: "lan_peer h node intf = (if pn \<noteq> 0 then Some (pn, pi) else None)"
    using nd x p by (simp add: lan_peer_def)
  show ?thesis
  proof (cases "pn = 0")
    case True
    have "intf_step rec h node nd intf s = Inr s1"
      using False x p True by (simp add: intf_step_def derefR_def s1_def)
    moreover have "lan_grows h node (Some node) s s1"
      using s1 own lp True False by (auto simp: lan_grows_def lan_done_def l3_of_single dd)
    ultimately show ?thesis using s1 by auto
  next
    case pn: False
    define s2 where "s2 = tbl_insert node (pn, pi) s1"
    have s2: "oset (l2_endpoints s2)" "?E s2 = insert (node, intf) (?E s)" "l3_endpoints s2 = l3_endpoints s"
      using s1 by (simp_all add: s2_def)
    have lps: "lan_peer h node intf = Some (pn, pi)" using lp pn by simp
    have pw: "node_heap h pn \<noteq> None" "intf_heap h pi \<noteq> None" "l2_port h pi \<longrightarrow> pi \<in> l2_intfs h pn"
      using w li lps unfolding wired_def by blast+
    then obtain y where y: "intf_heap h pi = Some y" by auto
    have step: "intf_step rec h node nd intf s =
       (if \<not> is_l2 y then
          bindR (if_addr y) (\<lambda>a. Inr (s2\<lparr>l3_endpoints := omap_put a (pn, pi) (l3_endpoints s2)\<rparr>))
        else if (pn, pi) \<notin> ?E s2 then rec pn s2 else Inr s2)"
      using False x p pn y by (simp add: intf_step_def derefR_def s1_def s2_def Let_def)
    have port: "l2_port h pi = is_l2 y" using y by (simp add: l2_port_def is_l2_def)
    have grow2: "lan_grows h node (Some node) s s2" if "l2_port h pi" "(pn, pi) \<in> ?E s2"
    proof -
      have "l3_addr h pi = None" using that(1) y port by (simp add: l3_addr_def is_l2_def)
      then show ?thesis using s2 own lps False that by (auto simp: lan_grows_def lan_done_def l3_of_single dd)
    qed
    consider (l3) "\<not> is_l2 y" | (seen) "is_l2 y" "(pn, pi) \<in> ?E s2" | (new) "is_l2 y" "(pn, pi) \<notin> ?E s2"
      by blast
    then show ?thesis
    proof cases
      case l3
      let ?t = "s2\<lparr>l3_endpoints := omap_put (ip_value (if_ipv4 y)) (pn, pi) (l3_endpoints s2)\<rparr>"
      have "intf_step rec h node nd intf s = Inr ?t"
        using step l3 by (simp add: if_addr_def switchport_error_def is_l2_def)
      moreover have "l3_addr h pi = Some (ip_value (if_ipv4 y))" "\<not> l2_port h pi"
        using y l3 port by (simp_all add: l3_addr_def is_l2_def)
      then have "lan_grows h node (Some node) s ?t"
        using s2 own lps False by (auto simp: lan_grows_def lan_done_def l3_of_single dd)
      ultimately show ?thesis using s2 by auto
    next
      case seen
      then show ?thesis using step grow2 port s2 by auto
    next
      case new
      obtain u where u: "rec pn s2 = Inr u" "lan_grows h pn None s2 u"
          "\<forall>j \<in> l2_intfs h pn. (pn, j) \<in> ?E u"
        using rec[OF pw(1) s2(1) False s2(2)] by blast
      have pu: "(pn, pi) \<in> ?E u" using u(3) pw(3) new(1) port by simp
      have d: "?E u - ?E s = insert (node, intf) (?E u - ?E s2)"
        using u(2) s2(2) False by (auto simp: lan_grows_def)
      have re: "\<forall>e \<in> ?E u - ?E s. lan_reach h node e"
      proof
        fix e assume "e \<in> ?E u - ?E s"
        then consider "e = (node, intf)" | "e \<in> ?E u - ?E s2" unfolding d by blast
        then show "lan_reach h node e"
        proof cases
          case 1
          then show ?thesis using own by simp
        next
          case 2
          then have "lan_reach h pn e" using u(2) by (simp add: lan_grows_def)
          then show ?thesis using lan_reach_trans[OF _ own lps] new(1) port by simp
        qed
      qed
      have na: "l3_addr h pi = None" using new(1) y by (simp add: l3_addr_def is_l2_def)
      have sub: "?E s \<subseteq> ?E u" "(node, intf) \<in> ?E u" using u(2) s2(2) by (auto simp: lan_grows_def)
      have dn: "lan_done h (Some node) (?E u) n i" if "(n, i) \<in> ?E u - ?E s" for n i
      proof (cases "(n, i) = (node, intf)")
        case True
        then show ?thesis using lps pu by (simp add: lan_done_def)
      next
        case False
        then have "(n, i) \<in> ?E u - ?E s2" using that unfolding d by blast
        then have "lan_done h None (?E u) n i" using u(2) unfolding lan_grows_def by blast
        then show ?thesis unfolding lan_done_def by blast
      qed
      have "l3_of h (?E u - ?E s) = l3_of h (?E u - ?E s2)"
        using l3_of_insert[of h "(node, intf)" "?E u - ?E s2"] lps na
        by (simp add: l3_of_single d)
      then have l3: "dom (map_of (l3_endpoints u)) = dom (map_of (l3_endpoints s)) \<union> l3_of h (?E u - ?E s)"
        using u(2) s2(3) by (simp add: lan_grows_def)
      have "oset (l2_endpoints u)" using u(2) by (simp add: lan_grows_def)
      then have "lan_grows h node (Some node) s u"
        unfolding lan_grows_def using sub(1) re dn l3 by simp
      then show ?thesis using step new u(1) sub(2) by simp
    qed
  qed
qed


definition rec_ok ::
    "net_heap \<Rightarrow> nat \<Rightarrow> nat set \<Rightarrow> (nat \<times> nat) set \<Rightarrow> (nat \<Rightarrow> l2_lan \<Rightarrow> l2_lan result) \<Rightarrow> bool" where
  "rec_ok h node I S0 rec \<longleftrightarrow> (\<forall>pn t. node_heap h pn \<noteq> None \<and> oset (l2_endpoints t)
     \<and> S0 \<subseteq> set (l2_endpoints t) \<and> (\<exists>i \<in> I. (node, i) \<in> set (l2_endpoints t) - S0) \<longrightarrow>
     (\<exists>u. rec pn t = Inr u \<and> lan_grows h pn None t u
        \<and> (\<forall>j \<in> l2_intfs h pn. (pn, j) \<in> set (l2_endpoints u))))"

lemma intfs_grow:
  assumes w: "wired h" and nd: "node_heap h node = Some nd"
    and rec: "rec_ok h node (set (nd_intfs_l2 nd)) S0 rec"
    and "set ks \<subseteq> set (nd_intfs_l2 nd)" and "oset (l2_endpoints s)" and "S0 \<subseteq> set (l2_endpoints s)"
  shows "\<exists>t. foldR (intf_step rec h node nd) ks s = Inr t \<and> lan_grows h node (Some node) s t
    \<and> (\<forall>i \<in> set ks. (node, i) \<in> set (l2_endpoints t))"
  using assms(4-6)
proof (induction ks arbitrary: s)
  case Nil
  then show ?case by (simp add: lan_grows_def)
next
  case (Cons i js)
  have i: "i \<in> set (nd_intfs_l2 nd)" and js: "set js \<subseteq> set (nd_intfs_l2 nd)" using Cons.prems(1) by simp_all
  have "\<exists>u. rec pn t = Inr u \<and> lan_grows h pn None t u \<and> (\<forall>j \<in> l2_intfs h pn. (pn, j) \<in> set (l2_endpoints u))"
    if "node_heap h pn \<noteq> None" "oset (l2_endpoints t)" "(node, i) \<notin> set (l2_endpoints s)"
      "set (l2_endpoints t) = insert (node, i) (set (l2_endpoints s))" for pn t
  proof -
    have "S0 \<subseteq> set (l2_endpoints t)" "(node, i) \<in> set (l2_endpoints t) - S0"
      using that(3,4) Cons.prems(3) by auto
    then show ?thesis using rec i that(1,2) unfolding rec_ok_def by blast
  qed
  from intf_step_grows[OF w nd i Cons.prems(2) this]
  obtain t where t: "intf_step rec h node nd i s = Inr t" "lan_grows h node (Some node) s t"
      "(node, i) \<in> set (l2_endpoints t)"
    by blast
  have to: "oset (l2_endpoints t)" "S0 \<subseteq> set (l2_endpoints t)"
    using t(2) Cons.prems(3) by (auto simp: lan_grows_def)
  from Cons.IH[OF js to] obtain u where u: "foldR (intf_step rec h node nd) js t = Inr u"
      "lan_grows h node (Some node) t u" "\<forall>i \<in> set js. (node, i) \<in> set (l2_endpoints u)"
    by blast
  have "(node, i) \<in> set (l2_endpoints u)" using t(3) u(2) by (auto simp: lan_grows_def)
  then show ?case using t(1) u(1,3) lan_grows_trans[OF t(2) u(2)] by simp
qed

lemma collect_intfs_grows:
  assumes w: "wired h" and fin: "finite E" and E: "\<And>n i. i \<in> l2_intfs h n \<Longrightarrow> (n, i) \<in> E"
    and "card (E - set (l2_endpoints s)) < fuel" and "node_heap h node \<noteq> None" and "oset (l2_endpoints s)"
  shows "\<exists>t. collect_intfs fuel h node s = Inr t \<and> lan_grows h node None s t
    \<and> (\<forall>j \<in> l2_intfs h node. (node, j) \<in> set (l2_endpoints t))"
  using assms(4-6)
proof (induction fuel arbitrary: node s)
  case 0
  then show ?case by simp
next
  case (Suc fuel)
  obtain nd where nd: "node_heap h node = Some nd" using Suc.prems(2) by auto
  have li: "l2_intfs h node = set (nd_intfs_l2 nd)" using nd by (simp add: l2_intfs_def)
  have "\<exists>u. collect_intfs fuel h pn t = Inr u \<and> lan_grows h pn None t u
      \<and> (\<forall>j \<in> l2_intfs h pn. (pn, j) \<in> set (l2_endpoints u))"
    if a: "node_heap h pn \<noteq> None" "oset (l2_endpoints t)" "set (l2_endpoints s) \<subseteq> set (l2_endpoints t)"
      "intf \<in> set (nd_intfs_l2 nd)" "(node, intf) \<in> set (l2_endpoints t) - set (l2_endpoints s)" for pn intf t
  proof -
    have "(node, intf) \<in> E" using E li a(4) by simp
    then have "E - set (l2_endpoints t) \<subset> E - set (l2_endpoints s)" using a(3,5) by blast
    then have "card (E - set (l2_endpoints t)) < card (E - set (l2_endpoints s))"
      using fin by (intro psubset_card_mono) auto
    then have "card (E - set (l2_endpoints t)) < fuel" using Suc.prems(1) by simp
    from Suc.IH[OF this a(1,2)] show ?thesis .
  qed
  then have rec: "rec_ok h node (set (nd_intfs_l2 nd)) (set (l2_endpoints s)) (collect_intfs fuel h)"
    unfolding rec_ok_def by blast
  obtain t where t: "foldR (intf_step (collect_intfs fuel h) h node nd) (nd_intfs_l2 nd) s = Inr t"
      "lan_grows h node (Some node) s t" "\<forall>i \<in> set (nd_intfs_l2 nd). (node, i) \<in> set (l2_endpoints t)"
    using intfs_grow[OF w nd rec order_refl Suc.prems(3) order_refl] by blast
  have "lan_done h None (set (l2_endpoints t)) n i"
    if "(n, i) \<in> set (l2_endpoints t) - set (l2_endpoints s)" for n i
  proof -
    have "lan_done h (Some node) (set (l2_endpoints t)) n i" using t(2) that unfolding lan_grows_def by blast
    then show ?thesis using t(3) li unfolding lan_done_def by (cases "n = node") auto
  qed
  then have "lan_grows h node None s t" using t(2) unfolding lan_grows_def by blast
  then show ?case using t(1,3) li nd by (simp add: collect_intfs_Suc derefR_def del: collect_intfs.simps)
qed

text \<open>C37. Collecting a layer-2 LAN terminates on every wiring, loops of switches included, and
  finds exactly the switchports reachable from the node; its L3 endpoints are exactly the
  addresses of the L3 interfaces connected to them.\<close>

theorem mk_l2_lan_complete:
  assumes "wired h" and "node_heap h node \<noteq> None"
    and "finite E" and "\<And>n i. i \<in> l2_intfs h n \<Longrightarrow> (n, i) \<in> E" and "card E < fuel"
  shows "\<exists>lan. mk_l2_lan fuel h node = Inr lan
    \<and> set (l2_endpoints lan) = {e. lan_reach h node e}
    \<and> dom (map_of (l3_endpoints lan)) = l3_of h {e. lan_reach h node e}"
proof -
  have c: "card (E - set (l2_endpoints empty_lan)) < fuel" using assms(5) by (simp add: empty_lan_def)
  have o: "oset (l2_endpoints empty_lan)" by (simp add: empty_lan_def)
  obtain t where t: "collect_intfs fuel h node empty_lan = Inr t" "lan_grows h node None empty_lan t"
      "\<forall>j \<in> l2_intfs h node. (node, j) \<in> set (l2_endpoints t)"
    using collect_intfs_grows[OF assms(1,3,4) c assms(2) o] by blast
  have cl: "lan_done h None (set (l2_endpoints t)) n i" if "(n, i) \<in> set (l2_endpoints t)" for n i
    using t(2) that by (auto simp: lan_grows_def empty_lan_def)
  have "e \<in> set (l2_endpoints t)" if "lan_reach h node e" for e
    using that
  proof (induction rule: lan_reach.induct)
    case (lan_own i)
    then show ?case using t(3) by blast
  next
    case (lan_hop n i pn pi j)
    have "(pn, pi) \<in> set (l2_endpoints t)" using cl[OF lan_hop.IH] lan_hop.hyps unfolding lan_done_def by blast
    from cl[OF this] show ?case using lan_hop.hyps unfolding lan_done_def by blast
  qed
  then have "set (l2_endpoints t) = {e. lan_reach h node e}"
    using t(2) by (auto simp: lan_grows_def empty_lan_def)
  then show ?thesis using t(1,2) by (auto simp: mk_l2_lan_def lan_grows_def empty_lan_def)
qed


definition sample_switch :: node where
  "sample_switch = \<lparr>nd_name = ''sw'', nd_intfs = [''p0'' \<mapsto> 10], nd_intfs_l3 = [], nd_intfs_l2 = [10],
     nd_rib = [], nd_l2_peers = [''p0'' \<mapsto> (2, 20)], nd_l2_lans = Map.empty, nd_middlebox = None\<rparr>"

definition sample_host :: node where
  "sample_host = \<lparr>nd_name = ''h'', nd_intfs = [''eth0'' \<mapsto> 20], nd_intfs_l3 = [(0x0A000001, 20)],
     nd_intfs_l2 = [], nd_rib = [], nd_l2_peers = [''eth0'' \<mapsto> (1, 10)], nd_l2_lans = Map.empty,
     nd_middlebox = None\<rparr>"

definition sample_heap :: net_heap where
  "sample_heap =
     \<lparr>intf_heap = [10 \<mapsto> \<lparr>if_name = ''p0'', if_ipv4 = \<lparr>ip_value = 0, ip_prefix = 0\<rparr>, if_switchport = True\<rparr>,
                   20 \<mapsto> \<lparr>if_name = ''eth0'', if_ipv4 = \<lparr>ip_value = 0x0A000001, ip_prefix = 24\<rparr>,
                          if_switchport = False\<rparr>],
      node_heap = [1 \<mapsto> sample_switch, 2 \<mapsto> sample_host], lan_heap = Map.empty\<rparr>"

theorem mk_l2_lan_complete_witness:
  "\<exists>lan. mk_l2_lan 2 sample_heap 1 = Inr lan \<and> (1, 10) \<in> set (l2_endpoints lan)
     \<and> map_of (l3_endpoints lan) 0x0A000001 \<noteq> None"
proof -
  have l2: "l2_intfs sample_heap n = (if n = 1 then {10} else {})" for n
    by (simp add: l2_intfs_def sample_heap_def sample_switch_def sample_host_def)
  have pe: "lan_peer sample_heap 1 10 = Some (2, 20)"
    by (simp add: lan_peer_def sample_heap_def sample_switch_def get_peer_def Let_def)
  have w: "wired sample_heap"
    unfolding wired_def l2 using pe
    by (auto simp: sample_heap_def l2_port_def split: if_splits)
  have n: "node_heap sample_heap 1 \<noteq> None" by (simp add: sample_heap_def)
  have E: "finite {(1::nat, 10::nat)}" "\<And>n i. i \<in> l2_intfs sample_heap n \<Longrightarrow> (n, i) \<in> {(1, 10)}"
      "card {(1::nat, 10::nat)} < 2"
    by (auto simp: l2 split: if_splits)
  obtain lan where lan: "mk_l2_lan 2 sample_heap 1 = Inr lan"
      "set (l2_endpoints lan) = {e. lan_reach sample_heap 1 e}"
      "dom (map_of (l3_endpoints lan)) = l3_of sample_heap {e. lan_reach sample_heap 1 e}"
    using mk_l2_lan_complete[OF w n E] by blast
  have r: "lan_reach sample_heap 1 (1, 10)" by (rule lan_own) (simp add: l2)
  moreover have "l3_addr sample_heap 20 = Some 0x0A000001"
    by (simp add: l3_addr_def sample_heap_def)
  ultimately have "0x0A000001 \<in> dom (map_of (l3_endpoints lan))"
    unfolding lan(3) l3_of_def using pe by blast
  then show ?thesis using lan(1,2) r by auto
qed

end
