(* ===== verification/Packets.thy ===== *)
theory Packets
  imports Protocols Containers IPv4 Topology
begin

text \<open>
  Packets, payloads, packet histories and injection results (\<open>src/packet.cpp\<close>,
  \<open>src/payload.cpp\<close>, \<open>src/pkt-hist.cpp\<close>, \<open>src/injection-result.cpp\<close>,
  \<open>src/injection-cache.cpp\<close>). Payloads, packets in histories and injection results are
  interned by the program, so that equality of pointers is equality of what they point to;
  here they are the values themselves, and a null pointer is \<open>None\<close> or the empty history.
\<close>

section \<open>Payloads\<close>

type_synonym payload = "8 word list"

definition payload_of_string :: "string \<Rightarrow> payload" where
  "payload_of_string s = map (\<lambda>c. of_nat (of_char c)) s"

definition payload_of_data :: "8 word list \<Rightarrow> payload" where
  "payload_of_data data = data"

definition payload_size :: "payload \<Rightarrow> 32 word" where
  "payload_size p = of_nat (length p)"

definition payload_append :: "payload option \<Rightarrow> payload option \<Rightarrow> payload" where
  "payload_append a b =
     (case a of None \<Rightarrow> [] | Some p \<Rightarrow> p) @ (case b of None \<Rightarrow> [] | Some p \<Rightarrow> p)"

definition payload_eq :: "payload \<Rightarrow> payload \<Rightarrow> bool" where
  "payload_eq a b \<longleftrightarrow> (if payload_size a = payload_size b then a = b else False)"

text \<open>\<open>PayloadMgr::get_payload\<close>: a null payload for no data, and the concatenation of the
  payloads of two packets, which is never null.\<close>

definition get_payload_data :: "8 word list \<Rightarrow> payload option" where
  "get_payload_data data = (if data = [] then None else Some (payload_of_data data))"

section \<open>Packets\<close>

record packet =
  pk_intf :: nat
  pk_src_ip :: ipv4
  pk_dst_ip :: ipv4
  pk_src_port :: "16 word"
  pk_dst_port :: "16 word"
  pk_seq :: "32 word"
  pk_ack :: "32 word"
  pk_proto_state :: ps
  pk_payload :: "payload option"
  pk_conn :: int
  pk_is_new :: bool
  pk_opposite_dir :: bool
  pk_next_phase :: bool

definition packet_init :: packet where
  "packet_init =
     \<lparr>pk_intf = 0, pk_src_ip = 0, pk_dst_ip = 0, pk_src_port = 0, pk_dst_port = 0, pk_seq = 0,
      pk_ack = 0, pk_proto_state = 0, pk_payload = None, pk_conn = -1, pk_is_new = False,
      pk_opposite_dir = False, pk_next_phase = False\<rparr>"

definition mk_packet ::
    "nat \<Rightarrow> ipv4 \<Rightarrow> ipv4 \<Rightarrow> 16 word \<Rightarrow> 16 word \<Rightarrow> 32 word \<Rightarrow> 32 word \<Rightarrow> ps \<Rightarrow> packet" where
  "mk_packet intf src dst sport dport sq ak st =
     packet_init\<lparr>pk_intf := intf, pk_src_ip := src, pk_dst_ip := dst, pk_src_port := sport,
       pk_dst_port := dport, pk_seq := sq, pk_ack := ak, pk_proto_state := st\<rparr>"

definition get_payload_size :: "packet \<Rightarrow> nat" where
  "get_payload_size p = (case pk_payload p of None \<Rightarrow> 0 | Some pl \<Rightarrow> unat (payload_size pl))"

text \<open>\<open>clear\<close> leaves the auxiliary fields alone.\<close>

definition packet_clear :: "packet \<Rightarrow> packet" where
  "packet_clear p = p\<lparr>pk_intf := 0, pk_src_ip := 0, pk_dst_ip := 0, pk_src_port := 0,
     pk_dst_port := 0, pk_seq := 0, pk_ack := 0, pk_proto_state := 0, pk_payload := None\<rparr>"

definition packet_empty :: "packet \<Rightarrow> bool" where
  "packet_empty p \<longleftrightarrow> pk_intf p = 0 \<and> pk_src_ip p = 0 \<and> pk_dst_ip p = 0 \<and> pk_src_port p = 0
     \<and> pk_dst_port p = 0 \<and> pk_seq p = 0 \<and> pk_ack p = 0"

definition same_flow_as :: "packet \<Rightarrow> packet \<Rightarrow> bool" where
  "same_flow_as p q \<longleftrightarrow> pk_src_ip p = pk_src_ip q \<and> pk_dst_ip p = pk_dst_ip q
     \<and> pk_src_port p = pk_src_port q \<and> pk_dst_port p = pk_dst_port q
     \<and> ps_to_proto (pk_proto_state p) = ps_to_proto (pk_proto_state q)"

definition same_header :: "packet \<Rightarrow> packet \<Rightarrow> bool" where
  "same_header p q \<longleftrightarrow> same_flow_as p q \<and> pk_seq p = pk_seq q \<and> pk_ack p = pk_ack q"

definition packet_eq :: "packet \<Rightarrow> packet \<Rightarrow> bool" where
  "packet_eq a b \<longleftrightarrow> pk_intf a = pk_intf b \<and> pk_src_ip a = pk_src_ip b
     \<and> pk_dst_ip a = pk_dst_ip b \<and> pk_src_port a = pk_src_port b \<and> pk_dst_port a = pk_dst_port b
     \<and> pk_seq a = pk_seq b \<and> pk_ack a = pk_ack b \<and> pk_proto_state a = pk_proto_state b
     \<and> pk_payload a = pk_payload b"

text \<open>\<open>operator<\<close>: the comparison of payload pointers is an argument.\<close>

definition packet_less :: "(payload option \<Rightarrow> payload option \<Rightarrow> bool) \<Rightarrow> packet \<Rightarrow> packet \<Rightarrow> bool"
where
  "packet_less pl a b \<longleftrightarrow>
     (if pk_intf a < pk_intf b then True
      else if pk_src_ip a < pk_src_ip b then True
      else if pk_dst_ip a < pk_dst_ip b then True
      else if pk_src_port a < pk_src_port b then True
      else if pk_dst_port a < pk_dst_port b then True
      else if pk_seq a < pk_seq b then True
      else if pk_ack a < pk_ack b then True
      else if pk_proto_state a < pk_proto_state b then True
      else if pl (pk_payload a) (pk_payload b) then True
      else False)"

section \<open>Packet histories\<close>

text \<open>A \<open>NodePacketHistory\<close> is a last packet and the history before it, null when empty.\<close>

type_synonym node_pkt_hist = "packet list"

definition mk_node_pkt_hist :: "packet \<Rightarrow> node_pkt_hist \<Rightarrow> node_pkt_hist" where
  "mk_node_pkt_hist p h = p # h"

fun get_packets_loop :: "node_pkt_hist \<Rightarrow> packet list \<Rightarrow> packet list" where
  "get_packets_loop [] packets = packets"
| "get_packets_loop (last_pkt # past_hist) packets =
     get_packets_loop past_hist (last_pkt # packets)"

definition get_packets :: "node_pkt_hist \<Rightarrow> packet list" where
  "get_packets h = get_packets_loop h []"

fun packets_since_loop :: "node_pkt_hist \<Rightarrow> node_pkt_hist \<Rightarrow> packet list \<Rightarrow> packet list" where
  "packets_since_loop start [] packets = packets"
| "packets_since_loop start (last_pkt # past_hist) packets =
     (if last_pkt # past_hist = start then packets
      else packets_since_loop start past_hist (last_pkt # packets))"

definition get_packets_since :: "node_pkt_hist \<Rightarrow> node_pkt_hist \<Rightarrow> packet list" where
  "get_packets_since start h = packets_since_loop start h []"

fun nph_contains :: "node_pkt_hist \<Rightarrow> node_pkt_hist \<Rightarrow> bool" where
  "nph_contains other [] \<longleftrightarrow> other = []"
| "nph_contains other (last_pkt # past_hist) \<longleftrightarrow>
     (if last_pkt # past_hist = other then True else nph_contains other past_hist)"

text \<open>\<open>NodePacketHistoryComp\<close> compares the packet pointers of the two histories, oldest first.\<close>

fun pkts_less :: "(packet \<Rightarrow> packet \<Rightarrow> bool) \<Rightarrow> packet list \<Rightarrow> packet list \<Rightarrow> bool" where
  "pkts_less lt (a # as) (b # bs) = (if a \<noteq> b then lt a b else pkts_less lt as bs)"
| "pkts_less lt as bs = (length as < length bs)"

definition nph_less :: "(packet \<Rightarrow> packet \<Rightarrow> bool) \<Rightarrow> node_pkt_hist \<Rightarrow> node_pkt_hist \<Rightarrow> bool" where
  "nph_less lt a b \<longleftrightarrow>
     (if a = b then False else if a = [] then True else if b = [] then False
      else pkts_less lt (get_packets a) (get_packets b))"

type_synonym pkt_hist = "nat \<rightharpoonup> node_pkt_hist"

definition mk_pkt_hist :: "network \<Rightarrow> pkt_hist result" where
  "mk_pkt_hist nw =
     foldR (\<lambda>(_, node) tbl.
         bindR (derefR (node_heap (net_objs nw)) node) (\<lambda>nd.
         Inr (if is_emulated nd \<and> tbl node = None then tbl(node \<mapsto> []) else tbl)))
       (net_nodes nw) Map.empty"

definition set_node_pkt_hist :: "nat \<Rightarrow> node_pkt_hist \<Rightarrow> pkt_hist \<Rightarrow> pkt_hist" where
  "set_node_pkt_hist node h tbl = tbl(node \<mapsto> h)"

definition get_node_pkt_hist :: "pkt_hist \<Rightarrow> nat \<Rightarrow> node_pkt_hist result" where
  "get_node_pkt_hist tbl node = (case tbl node of None \<Rightarrow> Inl Out_of_range | Some h \<Rightarrow> Inr h)"

section \<open>Injection results\<close>

record injection_result =
  recv_pkts :: "packet list"
  explicit_drop :: bool

text \<open>\<open>vector<Packet>\<close> is compared lexicographically with the packets' \<open>operator<\<close>.\<close>

fun pkt_vec_less :: "(packet \<Rightarrow> packet \<Rightarrow> bool) \<Rightarrow> packet list \<Rightarrow> packet list \<Rightarrow> bool" where
  "pkt_vec_less lt _ [] = False"
| "pkt_vec_less lt [] (_ # _) = True"
| "pkt_vec_less lt (a # as) (b # bs) =
     (if lt a b then True else if lt b a then False else pkt_vec_less lt as bs)"

definition injection_result_less ::
    "(packet \<Rightarrow> packet \<Rightarrow> bool) \<Rightarrow> injection_result \<Rightarrow> injection_result \<Rightarrow> bool" where
  "injection_result_less lt a b \<longleftrightarrow>
     (if pkt_vec_less lt (recv_pkts a) (recv_pkts b) then True
      else if \<not> explicit_drop a \<and> explicit_drop b then True else False)"

definition injection_result_eq :: "injection_result \<Rightarrow> injection_result \<Rightarrow> bool" where
  "injection_result_eq a b \<longleftrightarrow>
     list_all2 packet_eq (recv_pkts a) (recv_pkts b) \<and> explicit_drop a = explicit_drop b"

text \<open>\<open>InjectionResults\<close>: a vector of pointers; \<open>adr\<close> gives the address of an interned
  result.\<close>

type_synonym injection_results = "injection_result list"

definition results_add ::
    "(injection_result \<Rightarrow> nat) \<Rightarrow> injection_result \<Rightarrow> injection_results \<Rightarrow> injection_results" where
  "results_add adr r rs = remdups_adj (mset_insert (\<lambda>a b. adr a < adr b) r rs)"

definition results_at :: "injection_results \<Rightarrow> int \<Rightarrow> injection_result result" where
  "results_at rs i = (if 0 \<le> i \<and> nat i < length rs then Inr (rs ! nat i) else Inl Out_of_range)"

type_synonym injection_cache = "nat \<Rightarrow> node_pkt_hist \<rightharpoonup> injection_results"

definition cache_insert ::
    "nat \<Rightarrow> node_pkt_hist \<Rightarrow> injection_results \<Rightarrow> injection_cache \<Rightarrow> injection_cache" where
  "cache_insert mb h rs c = c(mb := (c mb)(h \<mapsto> rs))"

definition cache_get :: "injection_cache \<Rightarrow> nat \<Rightarrow> node_pkt_hist \<Rightarrow> injection_results option" where
  "cache_get c mb h = c mb h"

section \<open>Histories are snoc lists\<close>

lemma get_packets_loop_rev: "get_packets_loop h packets = rev h @ packets"
  by (induction h packets rule: get_packets_loop.induct) auto

lemma get_packets_rev: "get_packets h = rev h"
  by (simp add: get_packets_def get_packets_loop_rev)

lemma nph_contains_iff: "nph_contains other h \<longleftrightarrow> (\<exists>ps. h = ps @ other)"
  by (induction other h rule: nph_contains.induct) (auto simp: Cons_eq_append_conv)

lemma packets_since_found: "packets_since_loop start (ps @ start) packets = rev ps @ packets"
  by (induction ps arbitrary: packets) (cases start, auto simp: Cons_eq_append_conv)

lemma packets_since_missing:
  "\<not> nph_contains start h \<Longrightarrow> packets_since_loop start h packets = rev h @ packets"
  by (induction start h packets rule: packets_since_loop.induct) auto

text \<open>The packets to replay after rewinding: if the history contains the state \<open>start\<close>,
  replaying \<open>get_packets_since(start)\<close> after the packets of \<open>start\<close> gives all the packets of
  the history in order; if it does not, every packet of the history is replayed. A history
  contains exactly the states it went through.\<close>

theorem packets_since_split:
  "(nph_contains start h \<longleftrightarrow> (\<exists>ps. get_packets h = get_packets start @ ps)) \<and>
   get_packets h =
     (if nph_contains start h then get_packets start else []) @ get_packets_since start h"
proof (rule conjI)
  have "(\<exists>ps. h = ps @ start) \<longleftrightarrow> (\<exists>ps. rev h = rev start @ ps)"
    by (metis rev_append rev_rev_ident)
  then show "nph_contains start h \<longleftrightarrow> (\<exists>ps. get_packets h = get_packets start @ ps)"
    by (simp add: nph_contains_iff get_packets_rev)
  show "get_packets h =
     (if nph_contains start h then get_packets start else []) @ get_packets_since start h"
    by (auto simp: get_packets_rev get_packets_since_def nph_contains_iff packets_since_found
      packets_since_missing)
qed

section \<open>The order on histories\<close>

definition adr_less :: "(packet \<Rightarrow> nat) \<Rightarrow> packet \<Rightarrow> packet \<Rightarrow> bool" where
  "adr_less adr a b \<longleftrightarrow> adr a < adr b"

abbreviation lex_nat :: "(nat list \<times> nat list) set" where
  "lex_nat \<equiv> lexord {(x, y). x < y}"

lemma pkts_less_lex:
  assumes "inj_on adr (set as \<union> set bs)"
  shows "pkts_less (adr_less adr) as bs \<longleftrightarrow> (map adr as, map adr bs) \<in> lex_nat"
  using assms
proof (induction as arbitrary: bs)
  case Nil
  then show ?case by (cases bs) auto
next
  case (Cons a as)
  show ?case
  proof (cases bs)
    case Nil
    then show ?thesis by simp
  next
    case (Cons b bs')
    have "inj_on adr (set as \<union> set bs')"
      using Cons.prems by (rule inj_on_subset) (auto simp: Cons)
    moreover have "a = b \<longleftrightarrow> adr a = adr b"
      using Cons.prems unfolding Cons inj_on_def by auto
    ultimately show ?thesis using Cons.IH[of bs'] Cons by (auto simp: adr_less_def)
  qed
qed

lemma nph_less_lex:
  assumes "inj_on adr (set a \<union> set b)"
  shows "nph_less (adr_less adr) a b \<longleftrightarrow>
    (map adr (get_packets a), map adr (get_packets b)) \<in> lex_nat"
proof -
  have ir: "(x, x) \<notin> lex_nat" for x by (simp add: lexord_irreflexive)
  have "a \<noteq> [] \<Longrightarrow> b \<noteq> [] \<Longrightarrow> ?thesis"
    using pkts_less_lex[of adr "rev a" "rev b"] assms ir[of "map adr (rev b)"]
    by (simp add: nph_less_def get_packets_rev)
  moreover have "a = [] \<or> b = [] \<Longrightarrow> ?thesis"
    by (cases a rule: rev_cases; cases b rule: rev_cases)
       (auto simp: nph_less_def get_packets_rev)
  ultimately show ?thesis by blast
qed

lemma nph_less_extension:
  assumes "inj_on adr (set a \<union> set b)" and "nph_contains a b" and "a \<noteq> b"
  shows "nph_less (adr_less adr) a b"
proof -
  obtain ps where ps: "b = ps @ a" using assms(2) by (auto simp: nph_contains_iff)
  with assms(3) obtain q qs where "map adr (rev ps) = q # qs" by (cases "map adr (rev ps)") auto
  then have "(map adr (rev a), map adr (rev a) @ map adr (rev ps)) \<in> lex_nat"
    by (simp add: lexord_append_rightI)
  then show ?thesis unfolding nph_less_lex[OF assms(1)] get_packets_rev by (simp add: ps)
qed

text \<open>When interned packets have distinct addresses, the comparison of histories is the
  strict total order that the map of emulations needs: irreflexive, transitive, total, and a
  history comes after every history it extends.\<close>

theorem nph_less_strict_total:
  assumes "inj_on adr (set a \<union> set b \<union> set c)"
  shows "\<not> nph_less (adr_less adr) a a \<and>
    (nph_less (adr_less adr) a b \<and> nph_less (adr_less adr) b c
       \<longrightarrow> nph_less (adr_less adr) a c) \<and>
    (a \<noteq> b \<longrightarrow> nph_less (adr_less adr) a b \<or> nph_less (adr_less adr) b a) \<and>
    (nph_contains a b \<and> a \<noteq> b \<longrightarrow> nph_less (adr_less adr) a b)"
proof -
  have ab: "inj_on adr (set a \<union> set b)" and ac: "inj_on adr (set a \<union> set c)"
    and bc: "inj_on adr (set b \<union> set c)"
    by (rule inj_on_subset[OF assms]; blast)+
  have ba: "inj_on adr (set b \<union> set a)" using ab by (simp add: Un_commute)
  have "trans lex_nat" by (rule lexord_transI) (auto simp: trans_def)
  then have 1: "nph_less (adr_less adr) a b \<and> nph_less (adr_less adr) b c
      \<longrightarrow> nph_less (adr_less adr) a c"
    unfolding nph_less_lex[OF ab] nph_less_lex[OF bc] nph_less_lex[OF ac] trans_def by blast
  have "map adr (rev a) \<noteq> map adr (rev b)" if "a \<noteq> b"
    using that ab by (simp add: inj_on_map_eq_map inj_on_def rev_map) 
  then have 2: "a \<noteq> b \<longrightarrow> nph_less (adr_less adr) a b \<or> nph_less (adr_less adr) b a"
    unfolding nph_less_lex[OF ab] nph_less_lex[OF ba] get_packets_rev
    using lexord_linear[of "{(x, y). x < (y :: nat)}" "map adr (rev a)" "map adr (rev b)"]
    by (simp add: neq_iff[symmetric] less_linear) blast
  have 3: "nph_contains a b \<and> a \<noteq> b \<longrightarrow> nph_less (adr_less adr) a b"
    using nph_less_extension[OF ab] by blast
  have "\<not> nph_less (adr_less adr) a a" by (simp add: nph_less_def)
  then show ?thesis using 1 2 3 by blast
qed

theorem nph_less_strict_total_witness:
  "nph_less (adr_less (\<lambda>p. unat (pk_seq p)))
     [packet_init] [packet_init\<lparr>pk_seq := 5\<rparr>, packet_init]"
proof -
  let ?p = "packet_init" and ?q = "packet_init\<lparr>pk_seq := 5\<rparr>"
  have "inj_on (\<lambda>p. unat (pk_seq p)) (set [?p] \<union> set [?q, ?p] \<union> set [])"
    by (auto simp: inj_on_def packet_init_def)
  then show ?thesis
    using nph_less_strict_total[of "\<lambda>p. unat (pk_seq p)" "[?p]" "[?q, ?p]" "[]"]
    by (simp add: packet_init_def)
qed

section \<open>The comparison of packets\<close>

text \<open>\<open>operator<\<close> on packets is not asymmetric: two packets with opposite differences in
  two fields are each less than the other, so sorting the received packets of an injection
  with it has no defined result.\<close>

theorem packet_less_not_asymmetric:
  assumes "pk_src_ip a < pk_src_ip b" and "pk_dst_ip b < pk_dst_ip a"
  shows "packet_less pl a b \<and> packet_less pl b a"
  using assms by (simp add: packet_less_def)

theorem packet_less_not_asymmetric_witness:
  "packet_less (\<lambda>_ _. False) (packet_init\<lparr>pk_dst_ip := 1\<rparr>) (packet_init\<lparr>pk_src_ip := 1\<rparr>)
   \<and> packet_less (\<lambda>_ _. False) (packet_init\<lparr>pk_src_ip := 1\<rparr>) (packet_init\<lparr>pk_dst_ip := 1\<rparr>)"
  by (rule packet_less_not_asymmetric) (simp_all add: packet_init_def)

section \<open>Sorted vectors of results\<close>

lemma mset_insert_Cons:
  "mset_insert lt r (x # xs) = (if lt r x then r # x # xs else x # mset_insert lt r xs)"
  by (simp add: mset_insert_def upper_bound_def)

lemma mset_insert_Nil: "mset_insert lt r [] = [r]"
  by (simp add: mset_insert_def upper_bound_def)

lemma set_mset_insert: "set (mset_insert lt r rs) = insert r (set rs)"
  by (induction rs) (auto simp: mset_insert_Nil mset_insert_Cons)

lemma sorted_mset_insert:
  fixes adr :: "'a \<Rightarrow> nat"
  shows "sorted (map adr rs) \<Longrightarrow> sorted (map adr (mset_insert (\<lambda>a b. adr a < adr b) r rs))"
  by (induction rs) (auto simp: mset_insert_Nil mset_insert_Cons set_mset_insert)

lemma remdups_adj_strict:
  assumes "sorted (map adr xs)" and "inj_on adr (set xs)"
  shows "sorted_wrt (\<lambda>a b. adr a < (adr b :: nat)) (remdups_adj xs)"
  using assms
proof (induction xs rule: remdups_adj.induct)
  case (3 x y xs)
  show ?case
  proof (cases "x = y")
    case True
    then show ?thesis using 3 by auto
  next
    case False
    then have "adr x < adr y" using "3.prems" by (auto simp: inj_on_def less_le)
    then show ?thesis using 3 False by force
  qed
qed auto

text \<open>\<open>InjectionResults::add\<close> keeps the vector sorted by address without duplicates, and
  the result is one of its elements afterwards.\<close>

theorem results_add_sorted:
  assumes "sorted_wrt (\<lambda>a b. adr a < adr b) rs" and "inj_on adr (insert r (set rs))"
  shows "sorted_wrt (\<lambda>a b. adr a < adr b) (results_add adr r rs) \<and>
    set (results_add adr r rs) = insert r (set rs)"
proof -
  have "sorted (map adr rs)"
    using assms(1) by (auto simp: sorted_map intro: sorted_wrt_mono_rel[rotated])
  then show ?thesis
    using assms(2) by (simp add: results_add_def remdups_adj_strict sorted_mset_insert
      set_mset_insert)
qed

theorem results_add_sorted_witness:
  "results_add (\<lambda>r. length (recv_pkts r)) \<lparr>recv_pkts = [], explicit_drop = True\<rparr>
     [\<lparr>recv_pkts = [packet_init], explicit_drop = False\<rparr>] =
   [\<lparr>recv_pkts = [], explicit_drop = True\<rparr>, \<lparr>recv_pkts = [packet_init], explicit_drop = False\<rparr>]
   \<and> set (results_add (\<lambda>r. length (recv_pkts r)) \<lparr>recv_pkts = [], explicit_drop = True\<rparr>
     [\<lparr>recv_pkts = [packet_init], explicit_drop = False\<rparr>]) =
   {\<lparr>recv_pkts = [], explicit_drop = True\<rparr>, \<lparr>recv_pkts = [packet_init], explicit_drop = False\<rparr>}"
  using results_add_sorted[of "\<lambda>r. length (recv_pkts r)"
      "[\<lparr>recv_pkts = [packet_init], explicit_drop = False\<rparr>]" "\<lparr>recv_pkts = [], explicit_drop = True\<rparr>"]
  by (simp add: results_add_def mset_insert_def upper_bound_def)

end
