(* ===== verification/StateModel.thy ===== *)
theory StateModel
  imports Packets EqClasses "HOL-Library.AList"
begin

text \<open>
  The state of the model checker and its access functions (\<open>src/network.pml\<close>,
  \<open>src/model-access.cpp\<close>), with the value classes the state vector points to:
  \<open>Candidates\<close>, \<open>Choices\<close>, \<open>ReachCounts\<close>, \<open>VisitedHops\<close>. Bit fields are words of their
  width. The objects behind the pointers of the state vector are immutable and interned by
  \<open>UniqueStorage\<close>, so a pointer field holds the value itself, \<open>None\<close> standing for null; node,
  interface and class pointers are naturals into the heaps of the network and of the class
  manager. The array \<open>conn_state\<close> is a function of the index; that the indices used stay within
  its bounds is part of the invariants proved about the processes.
\<close>

section \<open>Values of the state vector\<close>

type_synonym candidates = "fib_ipnh list"

definition candidates_add :: "fib_ipnh \<Rightarrow> candidates \<Rightarrow> candidates" where
  "candidates_add nh cs = cs @ [nh]"

definition candidates_at :: "candidates \<Rightarrow> int \<Rightarrow> fib_ipnh result" where
  "candidates_at cs i = (if 0 \<le> i \<and> nat i < length cs then Inr (cs ! nat i) else Inl Out_of_range)"

type_synonym choices = "((nat \<times> nat) \<times> fib_ipnh) list"

definition add_choice :: "nat \<Rightarrow> nat \<Rightarrow> fib_ipnh \<Rightarrow> choices \<Rightarrow> choices result" where
  "add_choice ec node nh tbl =
     (let (inserted, tbl') = omap_insert (ec, node) nh tbl
      in if inserted then Inr tbl' else Inl (Runtime_error ''Duplicate choice key: ''))"

definition get_path_choice :: "choices \<Rightarrow> nat \<Rightarrow> nat \<Rightarrow> fib_ipnh option" where
  "get_path_choice tbl ec node = map_of tbl (ec, node)"

text \<open>\<open>ReachCounts\<close>: an unordered map, as the list of its entries in iteration order.\<close>

type_synonym reach_counts = "(nat \<times> int) list"

definition reach_count :: "reach_counts \<Rightarrow> nat \<Rightarrow> int" where
  "reach_count rc node = (case map_of rc node of None \<Rightarrow> 0 | Some n \<Rightarrow> n)"

definition total_counts :: "reach_counts \<Rightarrow> int" where
  "total_counts rc = fold (\<lambda>(_, n) num. num + n) rc 0"

definition reach_increase :: "nat \<Rightarrow> reach_counts \<Rightarrow> reach_counts" where
  "reach_increase node rc = AList.update node (reach_count rc node + 1) rc"

type_synonym hop = "nat \<times> 16 word \<times> nat"

record visited_hops =
  vh_hops :: "hop list"
  vh_last_hop :: hop

definition visited_hops_init :: visited_hops where
  "visited_hops_init = \<lparr>vh_hops = [], vh_last_hop = (0, 0, 0)\<rparr>"

section \<open>The state vector\<close>

type_synonym fwd_mode = "3 word"

abbreviation (input) FIRST_COLLECT :: fwd_mode where "FIRST_COLLECT \<equiv> 0"
abbreviation (input) FIRST_FORWARD :: fwd_mode where "FIRST_FORWARD \<equiv> 1"
abbreviation (input) COLLECT_NHOPS :: fwd_mode where "COLLECT_NHOPS \<equiv> 2"
abbreviation (input) CHOOSE_INJ_RES :: fwd_mode where "CHOOSE_INJ_RES \<equiv> 3"
abbreviation (input) FORWARD_PACKET :: fwd_mode where "FORWARD_PACKET \<equiv> 4"
abbreviation (input) ACCEPTED :: fwd_mode where "ACCEPTED \<equiv> 5"
abbreviation (input) DROPPED :: fwd_mode where "DROPPED \<equiv> 6"

type_synonym pid = "2 word"

abbreviation (input) PID_CHOOSE_CONN :: pid where "PID_CHOOSE_CONN \<equiv> 0"
abbreviation (input) PID_FORWARDING :: pid where "PID_FORWARDING \<equiv> 1"
abbreviation (input) PID_OPENFLOW :: pid where "PID_OPENFLOW \<equiv> 2"

record conn_state =
  cs_executable :: "2 word"
  cs_proto_state :: ps
  cs_src_ip :: ipv4
  cs_dst_ip_ec :: nat
  cs_src_port :: "16 word"
  cs_dst_port :: "16 word"
  cs_seq :: "32 word"
  cs_ack :: "32 word"
  cs_payload :: "payload option"
  cs_src_node :: nat
  cs_tx_node :: nat
  cs_rx_node :: nat
  cs_fwd_mode :: fwd_mode
  cs_pkt_location :: nat
  cs_ingress_intf :: nat
  cs_candidates :: "candidates option"
  cs_inj_results :: "injection_results option"
  cs_fib :: "fib option"
  cs_path_choices :: "choices option"
  cs_visited_hops :: "visited_hops option"

record spin_state =
  now_conn_state :: "int \<Rightarrow> conn_state"
  now_process_id :: pid
  now_choice :: int
  now_choice_count :: int
  now_conn :: int
  now_num_conns :: int
  now_pkt_hist :: "pkt_hist option"
  now_of_update_state :: "nat list option"
  now_violated :: bool
  now_correlated_inv_idx :: int
  now_reach_counts :: "reach_counts option"

text \<open>Everything the handlers read and write: the state vector, and the objects that outlive a
  step: the network, the OpenFlow updates, the class manager, the payload map, the store of
  sent packets, the injection cache and, as a value of any type, the emulations.\<close>

record 'w model =
  m_now :: spin_state
  m_net :: network
  m_updates :: "(nat \<times> route list) list"
  m_ecs :: eqclassmgr
  m_pl_map :: "nat \<times> 16 word \<times> 8 word \<rightharpoonup> payload"
  m_pkts :: "packet list"
  m_cache :: injection_cache
  m_world :: 'w

section \<open>Access to the state vector\<close>

text \<open>The state of the current connection, and the state vector.\<close>

definition cur :: "'w model \<Rightarrow> conn_state" where
  "cur m = now_conn_state (m_now m) (now_conn (m_now m))"

definition upd_now :: "(spin_state \<Rightarrow> spin_state) \<Rightarrow> 'w model \<Rightarrow> 'w model" where
  "upd_now f m = m\<lparr>m_now := f (m_now m)\<rparr>"

definition upd_cur :: "(conn_state \<Rightarrow> conn_state) \<Rightarrow> 'w model \<Rightarrow> 'w model" where
  "upd_cur f = upd_now (\<lambda>s. s\<lparr>now_conn_state :=
     (now_conn_state s)(now_conn s := f (now_conn_state s (now_conn s)))\<rparr>)"

definition get_executable :: "'w model \<Rightarrow> 2 word" where
  "get_executable m = cs_executable (cur m)"

definition get_executable_for_conn :: "int \<Rightarrow> 'w model \<Rightarrow> 2 word" where
  "get_executable_for_conn c m = cs_executable (now_conn_state (m_now m) c)"

definition set_executable :: "2 word \<Rightarrow> 'w model \<Rightarrow> 'w model" where
  "set_executable x = upd_cur (cs_executable_update (\<lambda>_. x))"

definition get_proto_state :: "'w model \<Rightarrow> ps" where
  "get_proto_state m = cs_proto_state (cur m)"

definition get_proto_state_for_conn :: "int \<Rightarrow> 'w model \<Rightarrow> ps" where
  "get_proto_state_for_conn c m = cs_proto_state (now_conn_state (m_now m) c)"

definition set_proto_state :: "ps \<Rightarrow> 'w model \<Rightarrow> 'w model" where
  "set_proto_state x = upd_cur (cs_proto_state_update (\<lambda>_. x))"

definition get_src_ip :: "'w model \<Rightarrow> ipv4" where
  "get_src_ip m = cs_src_ip (cur m)"

definition set_src_ip :: "ipv4 \<Rightarrow> 'w model \<Rightarrow> 'w model" where
  "set_src_ip x = upd_cur (cs_src_ip_update (\<lambda>_. x))"

definition get_dst_ip_ec :: "'w model \<Rightarrow> nat" where
  "get_dst_ip_ec m = cs_dst_ip_ec (cur m)"

definition set_dst_ip_ec :: "nat \<Rightarrow> 'w model \<Rightarrow> 'w model" where
  "set_dst_ip_ec x = upd_cur (cs_dst_ip_ec_update (\<lambda>_. x))"

definition get_src_port :: "'w model \<Rightarrow> 16 word" where
  "get_src_port m = cs_src_port (cur m)"

definition set_src_port :: "16 word \<Rightarrow> 'w model \<Rightarrow> 'w model" where
  "set_src_port x = upd_cur (cs_src_port_update (\<lambda>_. x))"

definition get_dst_port :: "'w model \<Rightarrow> 16 word" where
  "get_dst_port m = cs_dst_port (cur m)"

definition set_dst_port :: "16 word \<Rightarrow> 'w model \<Rightarrow> 'w model" where
  "set_dst_port x = upd_cur (cs_dst_port_update (\<lambda>_. x))"

definition get_seq :: "'w model \<Rightarrow> 32 word" where
  "get_seq m = cs_seq (cur m)"

definition set_seq :: "32 word \<Rightarrow> 'w model \<Rightarrow> 'w model" where
  "set_seq x = upd_cur (cs_seq_update (\<lambda>_. x))"

definition get_ack :: "'w model \<Rightarrow> 32 word" where
  "get_ack m = cs_ack (cur m)"

definition set_ack :: "32 word \<Rightarrow> 'w model \<Rightarrow> 'w model" where
  "set_ack x = upd_cur (cs_ack_update (\<lambda>_. x))"

definition get_payload :: "'w model \<Rightarrow> payload option" where
  "get_payload m = cs_payload (cur m)"

definition set_payload :: "payload option \<Rightarrow> 'w model \<Rightarrow> 'w model" where
  "set_payload x = upd_cur (cs_payload_update (\<lambda>_. x))"

definition get_src_node :: "'w model \<Rightarrow> nat" where
  "get_src_node m = cs_src_node (cur m)"

definition set_src_node :: "nat \<Rightarrow> 'w model \<Rightarrow> 'w model" where
  "set_src_node x = upd_cur (cs_src_node_update (\<lambda>_. x))"

definition get_tx_node :: "'w model \<Rightarrow> nat" where
  "get_tx_node m = cs_tx_node (cur m)"

definition set_tx_node :: "nat \<Rightarrow> 'w model \<Rightarrow> 'w model" where
  "set_tx_node x = upd_cur (cs_tx_node_update (\<lambda>_. x))"

definition get_rx_node :: "'w model \<Rightarrow> nat" where
  "get_rx_node m = cs_rx_node (cur m)"

definition set_rx_node :: "nat \<Rightarrow> 'w model \<Rightarrow> 'w model" where
  "set_rx_node x = upd_cur (cs_rx_node_update (\<lambda>_. x))"

definition get_fwd_mode :: "'w model \<Rightarrow> fwd_mode" where
  "get_fwd_mode m = cs_fwd_mode (cur m)"

definition get_fwd_mode_for_conn :: "int \<Rightarrow> 'w model \<Rightarrow> fwd_mode" where
  "get_fwd_mode_for_conn c m = cs_fwd_mode (now_conn_state (m_now m) c)"

definition set_fwd_mode :: "fwd_mode \<Rightarrow> 'w model \<Rightarrow> 'w model" where
  "set_fwd_mode x = upd_cur (cs_fwd_mode_update (\<lambda>_. x))"

definition get_pkt_location :: "'w model \<Rightarrow> nat" where
  "get_pkt_location m = cs_pkt_location (cur m)"

definition set_pkt_location :: "nat \<Rightarrow> 'w model \<Rightarrow> 'w model" where
  "set_pkt_location x = upd_cur (cs_pkt_location_update (\<lambda>_. x))"

definition get_ingress_intf :: "'w model \<Rightarrow> nat" where
  "get_ingress_intf m = cs_ingress_intf (cur m)"

definition set_ingress_intf :: "nat \<Rightarrow> 'w model \<Rightarrow> 'w model" where
  "set_ingress_intf x = upd_cur (cs_ingress_intf_update (\<lambda>_. x))"

definition get_candidates :: "'w model \<Rightarrow> candidates option" where
  "get_candidates m = cs_candidates (cur m)"

definition set_candidates :: "candidates \<Rightarrow> 'w model \<Rightarrow> 'w model" where
  "set_candidates x = upd_cur (cs_candidates_update (\<lambda>_. Some x))"

definition reset_candidates :: "'w model \<Rightarrow> 'w model" where
  "reset_candidates = upd_cur (cs_candidates_update (\<lambda>_. None))"

definition get_injection_results :: "'w model \<Rightarrow> injection_results option" where
  "get_injection_results m = cs_inj_results (cur m)"

definition set_injection_results :: "injection_results \<Rightarrow> 'w model \<Rightarrow> 'w model" where
  "set_injection_results x = upd_cur (cs_inj_results_update (\<lambda>_. Some x))"

definition reset_injection_results :: "'w model \<Rightarrow> 'w model" where
  "reset_injection_results = upd_cur (cs_inj_results_update (\<lambda>_. None))"

definition get_fib :: "'w model \<Rightarrow> fib option" where
  "get_fib m = cs_fib (cur m)"

definition set_fib :: "fib \<Rightarrow> 'w model \<Rightarrow> 'w model" where
  "set_fib x = upd_cur (cs_fib_update (\<lambda>_. Some x))"

definition get_path_choices :: "'w model \<Rightarrow> choices option" where
  "get_path_choices m = cs_path_choices (cur m)"

definition set_path_choices :: "choices \<Rightarrow> 'w model \<Rightarrow> 'w model" where
  "set_path_choices x = upd_cur (cs_path_choices_update (\<lambda>_. Some x))"

definition get_visited_hops :: "'w model \<Rightarrow> visited_hops option" where
  "get_visited_hops m = cs_visited_hops (cur m)"

definition set_visited_hops :: "visited_hops \<Rightarrow> 'w model \<Rightarrow> 'w model" where
  "set_visited_hops x = upd_cur (cs_visited_hops_update (\<lambda>_. Some x))"

definition get_process_id :: "'w model \<Rightarrow> pid" where
  "get_process_id m = now_process_id (m_now m)"

definition set_process_id :: "pid \<Rightarrow> 'w model \<Rightarrow> 'w model" where
  "set_process_id x = upd_now (now_process_id_update (\<lambda>_. x))"

definition get_choice :: "'w model \<Rightarrow> int" where
  "get_choice m = now_choice (m_now m)"

definition set_choice :: "int \<Rightarrow> 'w model \<Rightarrow> 'w model" where
  "set_choice x = upd_now (now_choice_update (\<lambda>_. x))"

definition get_choice_count :: "'w model \<Rightarrow> int" where
  "get_choice_count m = now_choice_count (m_now m)"

definition set_choice_count :: "int \<Rightarrow> 'w model \<Rightarrow> 'w model" where
  "set_choice_count x = upd_now (now_choice_count_update (\<lambda>_. x))"

definition get_conn :: "'w model \<Rightarrow> int" where
  "get_conn m = now_conn (m_now m)"

definition set_conn :: "int \<Rightarrow> 'w model \<Rightarrow> 'w model" where
  "set_conn x = upd_now (now_conn_update (\<lambda>_. x))"

definition get_num_conns :: "'w model \<Rightarrow> int" where
  "get_num_conns m = now_num_conns (m_now m)"

definition set_num_conns :: "int \<Rightarrow> 'w model \<Rightarrow> 'w model" where
  "set_num_conns x = upd_now (now_num_conns_update (\<lambda>_. x))"

definition get_pkt_hist :: "'w model \<Rightarrow> pkt_hist option" where
  "get_pkt_hist m = now_pkt_hist (m_now m)"

definition set_pkt_hist :: "pkt_hist \<Rightarrow> 'w model \<Rightarrow> 'w model" where
  "set_pkt_hist x = upd_now (now_pkt_hist_update (\<lambda>_. Some x))"

definition get_openflow_update_state :: "'w model \<Rightarrow> nat list option" where
  "get_openflow_update_state m = now_of_update_state (m_now m)"

definition set_openflow_update_state :: "nat list \<Rightarrow> 'w model \<Rightarrow> 'w model" where
  "set_openflow_update_state x = upd_now (now_of_update_state_update (\<lambda>_. Some x))"

definition get_violated :: "'w model \<Rightarrow> bool" where
  "get_violated m = now_violated (m_now m)"

definition set_violated :: "bool \<Rightarrow> 'w model \<Rightarrow> 'w model" where
  "set_violated x = upd_now (now_violated_update (\<lambda>_. x))"

definition get_correlated_inv_idx :: "'w model \<Rightarrow> int" where
  "get_correlated_inv_idx m = now_correlated_inv_idx (m_now m)"

definition set_correlated_inv_idx :: "int \<Rightarrow> 'w model \<Rightarrow> 'w model" where
  "set_correlated_inv_idx x = upd_now (now_correlated_inv_idx_update (\<lambda>_. x))"

definition get_reach_counts :: "'w model \<Rightarrow> reach_counts option" where
  "get_reach_counts m = now_reach_counts (m_now m)"

definition set_reach_counts :: "reach_counts \<Rightarrow> 'w model \<Rightarrow> 'w model" where
  "set_reach_counts x = upd_now (now_reach_counts_update (\<lambda>_. Some x))"

named_theorems model_defs

lemmas [model_defs] =
  get_executable_def get_executable_for_conn_def set_executable_def get_proto_state_def
  get_proto_state_for_conn_def set_proto_state_def get_src_ip_def set_src_ip_def
  get_dst_ip_ec_def set_dst_ip_ec_def get_src_port_def set_src_port_def get_dst_port_def
  set_dst_port_def get_seq_def set_seq_def get_ack_def set_ack_def get_payload_def
  set_payload_def get_src_node_def set_src_node_def get_tx_node_def set_tx_node_def
  get_rx_node_def set_rx_node_def get_fwd_mode_def get_fwd_mode_for_conn_def set_fwd_mode_def
  get_pkt_location_def set_pkt_location_def get_ingress_intf_def set_ingress_intf_def
  get_candidates_def set_candidates_def reset_candidates_def get_injection_results_def
  set_injection_results_def reset_injection_results_def get_fib_def set_fib_def
  get_path_choices_def set_path_choices_def get_visited_hops_def set_visited_hops_def
  get_process_id_def set_process_id_def get_choice_def set_choice_def get_choice_count_def
  set_choice_count_def get_conn_def set_conn_def get_num_conns_def set_num_conns_def
  get_pkt_hist_def set_pkt_hist_def get_openflow_update_state_def
  set_openflow_update_state_def get_violated_def set_violated_def
  get_correlated_inv_idx_def set_correlated_inv_idx_def get_reach_counts_def
  set_reach_counts_def cur_def upd_cur_def upd_now_def

section \<open>Derived reads\<close>

definition node_at :: "'w model \<Rightarrow> nat \<Rightarrow> node result" where
  "node_at m p = derefR (node_heap (net_objs (m_net m))) p"

definition intf_at :: "'w model \<Rightarrow> nat \<Rightarrow> interface result" where
  "intf_at m p = derefR (intf_heap (net_objs (m_net m))) p"

definition ec_addr :: "'w model \<Rightarrow> nat \<Rightarrow> ipv4 result" where
  "ec_addr m p = bindR (deref_ec (m_ecs m) p) representative_addr"

text \<open>Dereferencing a pointer to a value of the state vector.\<close>

definition valR :: "'a option \<Rightarrow> 'a result" where
  "valR x = (case x of None \<Rightarrow> Inl Undefined_behaviour | Some v \<Rightarrow> Inr v)"

lemma valR_simps [simp]:
  "valR None = Inl Undefined_behaviour" "valR (Some v) = Inr v"
  by (simp_all add: valR_def)

lemma valR_eq_Inr_iff [simp]: "valR x = Inr v \<longleftrightarrow> x = Some v"
  by (cases x) auto

text \<open>\<open>print_conn_states\<close> writes a line per connection; it selects each connection in turn,
  dereferences its source node, class and location, and restores the index.\<close>

definition print_conn_states :: "'w model \<Rightarrow> 'w model result" where
  "print_conn_states m =
     (let orig_conn = get_conn m in
      bindR (foldR (\<lambda>conn m.
          let m = set_conn conn m in
          bindR (node_at m (get_src_node m)) (\<lambda>_.
          bindR (deref_ec (m_ecs m) (get_dst_ip_ec m)) (\<lambda>_.
          bindR (node_at m (get_pkt_location m)) (\<lambda>_. Inr m))))
        [0 .. get_num_conns m - 1] m) (\<lambda>m.
      Inr (set_conn orig_conn m)))"

text \<open>\<open>Packet(const Model &)\<close>.\<close>

definition packet_of_model :: "'w model \<Rightarrow> packet result" where
  "packet_of_model m =
     bindR (ec_addr m (get_dst_ip_ec m)) (\<lambda>dst.
     Inr (packet_init\<lparr>pk_intf := get_ingress_intf m, pk_src_ip := get_src_ip m, pk_dst_ip := dst,
       pk_src_port := get_src_port m, pk_dst_port := get_dst_port m, pk_seq := get_seq m,
       pk_ack := get_ack m, pk_proto_state := get_proto_state m, pk_payload := get_payload m,
       pk_conn := get_conn m, pk_is_new := ps_is_first (get_proto_state m),
       pk_opposite_dir := False, pk_next_phase := False\<rparr>))"

text \<open>\<open>storage.store_packet\<close>: the stored packet with the same key fields, if there is one.\<close>

definition store_packet :: "packet \<Rightarrow> 'w model \<Rightarrow> packet \<times> 'w model" where
  "store_packet p m =
     (case find (\<lambda>q. packet_eq q p) (m_pkts m) of
        Some q \<Rightarrow> (q, m)
      | None \<Rightarrow> (p, m\<lparr>m_pkts := p # m_pkts m\<rparr>))"

section \<open>Payloads of requests and replies\<close>

definition crlf :: string where
  "crlf = [CHR 0x0D, CHR 0x0A]"

definition request_content :: "ipv4 \<Rightarrow> 16 word \<Rightarrow> string" where
  "request_content host port =
     ''GET / HTTP/1.1'' @ crlf @ ''Host: '' @ ipv4_to_string host @ '':''
       @ dec_of_nat (unat port) @ crlf @ crlf"

definition reply_http :: string where
  "reply_http = ''<!DOCTYPE html>'' @ ''<html>'' @ ''<head><title>Reply</title></head>''
     @ ''<body>Reply</body>'' @ ''</html>'' @ crlf"

definition reply_content :: string where
  "reply_content =
     ''HTTP/1.1 200 OK'' @ crlf @ ''Server: plankton'' @ crlf @ ''Content-Type: text/html'' @ crlf
       @ ''Content-Length: '' @ dec_of_nat (length reply_http) @ crlf @ crlf"

text \<open>\<open>PayloadKey\<close> keeps the low eight bits of the protocol state.\<close>

definition payload_key :: "'w model \<Rightarrow> nat \<times> 16 word \<times> 8 word" where
  "payload_key m = (get_dst_ip_ec m, get_dst_port m, ucast (get_proto_state m))"

definition get_payload_from_model :: "'w model \<Rightarrow> (payload option \<times> 'w model) result" where
  "get_payload_from_model m =
     (let key = payload_key m; (ec, port, st) = key in
      if st \<noteq> 4 \<and> st \<noteq> 6 then Inr (None, m)
      else
        (case m_pl_map m key of
           Some pl \<Rightarrow> Inr (Some pl, m)
         | None \<Rightarrow>
             bindR (if st = 4
               then bindR (ec_addr m ec) (\<lambda>host. Inr (request_content host port))
               else Inr reply_content) (\<lambda>content.
             let pl = payload_of_string content in
             Inr (Some pl, m\<lparr>m_pl_map := (m_pl_map m)(key \<mapsto> pl)\<rparr>))))"

section \<open>Laws of the access functions\<close>

lemma cur_upd_cur [simp]: "cur (upd_cur f m) = f (cur m)"
  by (simp add: cur_def upd_cur_def upd_now_def)

lemma upd_cur_upd_cur [simp]: "upd_cur f (upd_cur g m) = upd_cur (f \<circ> g) m"
  by (simp add: upd_cur_def upd_now_def)

lemma upd_cur_frame [simp]:
  "get_conn (upd_cur f m) = get_conn m" "get_num_conns (upd_cur f m) = get_num_conns m"
  "get_choice (upd_cur f m) = get_choice m" "get_choice_count (upd_cur f m) = get_choice_count m"
  "get_process_id (upd_cur f m) = get_process_id m" "m_net (upd_cur f m) = m_net m"
  "m_ecs (upd_cur f m) = m_ecs m" "m_updates (upd_cur f m) = m_updates m"
  "m_pl_map (upd_cur f m) = m_pl_map m" "m_pkts (upd_cur f m) = m_pkts m"
  "m_cache (upd_cur f m) = m_cache m" "m_world (upd_cur f m) = m_world m"
  "get_violated (upd_cur f m) = get_violated m" "get_pkt_hist (upd_cur f m) = get_pkt_hist m"
  "get_openflow_update_state (upd_cur f m) = get_openflow_update_state m"
  by (simp_all add: model_defs)

lemma print_conn_states_id:
  assumes "print_conn_states m = Inr m'"
  shows "m' = m"
proof -
  obtain m1 where fold: "foldR (\<lambda>conn m.
          let m = set_conn conn m in
          bindR (node_at m (get_src_node m)) (\<lambda>_.
          bindR (deref_ec (m_ecs m) (get_dst_ip_ec m)) (\<lambda>_.
          bindR (node_at m (get_pkt_location m)) (\<lambda>_. Inr m))))
        [0 .. get_num_conns m - 1] m = Inr m1" and m': "m' = set_conn (get_conn m) m1"
    using assms by (auto simp: print_conn_states_def Let_def bindR_eq_Inr_iff)
  have "\<exists>c. m1 = set_conn c m"
    by (rule foldR_invariant[where I = "\<lambda>x. \<exists>c. x = set_conn c m", OF _ _ fold])
       (auto simp: bindR_eq_Inr_iff Let_def model_defs intro: exI[of _ "now_conn (m_now m)"])
  then show ?thesis using m' by (auto simp: model_defs)
qed

section \<open>The payload map is a cache\<close>

definition payload_for :: "ipv4 \<Rightarrow> 16 word \<Rightarrow> 8 word \<Rightarrow> payload option" where
  "payload_for host port st =
     (if st = 4 then Some (payload_of_string (request_content host port))
      else if st = 6 then Some (payload_of_string reply_content) else None)"

definition pl_map_ok :: "'w model \<Rightarrow> bool" where
  "pl_map_ok m \<longleftrightarrow> (\<forall>ec port st pl host. m_pl_map m (ec, port, st) = Some pl \<longrightarrow>
     ec_addr m ec = Inr host \<longrightarrow> payload_for host port st = Some pl)"

text \<open>The payload of the next packet depends only on the destination class, the
  destination port and the protocol state: a request carries an HTTP request to the class's
  representative address, a reply a fixed header, any other state no payload; a payload found in
  the map is the one that would be built, and nothing but the map changes.\<close>

theorem get_payload_from_model_spec:
  assumes "pl_map_ok m" and "ec_addr m (get_dst_ip_ec m) = Inr host"
  shows "\<exists>m'. get_payload_from_model m =
      Inr (payload_for host (get_dst_port m) (ucast (get_proto_state m)), m')
    \<and> pl_map_ok m' \<and> m' = m\<lparr>m_pl_map := m_pl_map m'\<rparr>"
proof -
  define st :: "8 word" where "st = ucast (get_proto_state m)"
  define key where "key = (get_dst_ip_ec m, get_dst_port m, st)"
  have k: "payload_key m = key" by (simp add: payload_key_def key_def st_def)
  consider "st \<noteq> 4" "st \<noteq> 6" | (hit) pl where "st = 4 \<or> st = 6" "m_pl_map m key = Some pl"
    | (miss) "st = 4 \<or> st = 6" "m_pl_map m key = None" by fastforce
  then show ?thesis
  proof cases
    case 1
    then have "get_payload_from_model m = Inr (None, m)" "payload_for host (get_dst_port m) st = None"
      by (simp_all add: get_payload_from_model_def k key_def payload_for_def)
    then show ?thesis using assms(1) unfolding st_def by auto
  next
    case hit
    then have "payload_for host (get_dst_port m) st = Some pl"
      using assms unfolding pl_map_ok_def key_def by blast
    moreover have "get_payload_from_model m = Inr (Some pl, m)"
      using hit by (auto simp: get_payload_from_model_def k Let_def key_def)
    ultimately show ?thesis using assms(1) unfolding st_def by auto
  next
    case miss
    obtain pl where pl: "payload_for host (get_dst_port m) st = Some pl"
      using miss(1) by (auto simp: payload_for_def)
    let ?m' = "m\<lparr>m_pl_map := (m_pl_map m)(key \<mapsto> pl)\<rparr>"
    have ea: "ec_addr ?m' e = ec_addr m e" for e by (simp add: ec_addr_def)
    have "get_payload_from_model m = Inr (Some pl, ?m')"
      using miss pl assms(2) by (auto simp: get_payload_from_model_def k Let_def key_def payload_for_def)
    moreover have "pl_map_ok ?m'"
      using assms pl unfolding pl_map_ok_def ea by (auto simp: key_def)
    ultimately show ?thesis using pl unfolding st_def[symmetric] by (intro exI[of _ ?m']) simp
  qed
qed

definition sample_conn :: conn_state where
  "sample_conn =
     \<lparr>cs_executable = 2, cs_proto_state = 4, cs_src_ip = 0x0A000001, cs_dst_ip_ec = 1,
      cs_src_port = 49152, cs_dst_port = 80, cs_seq = 1, cs_ack = 1, cs_payload = None,
      cs_src_node = 1, cs_tx_node = 1, cs_rx_node = 0, cs_fwd_mode = 0, cs_pkt_location = 1,
      cs_ingress_intf = 0, cs_candidates = None, cs_inj_results = None, cs_fib = None,
      cs_path_choices = Some [], cs_visited_hops = None\<rparr>"

definition sample_now :: spin_state where
  "sample_now =
     \<lparr>now_conn_state = (\<lambda>_. sample_conn), now_process_id = 1, now_choice = 0, now_choice_count = 1,
      now_conn = 0, now_num_conns = 1, now_pkt_hist = None, now_of_update_state = None,
      now_violated = False, now_correlated_inv_idx = 0, now_reach_counts = None\<rparr>"

definition sample_model :: "unit model" where
  "sample_model =
     \<lparr>m_now = sample_now,
      m_net = \<lparr>net_nodes = [], net_links = [], net_mbs = [], net_l2_lans = [],
        net_objs = \<lparr>intf_heap = Map.empty, node_heap = Map.empty, lan_heap = Map.empty\<rparr>\<rparr>,
      m_updates = [],
      m_ecs = ecmgr_init\<lparr>all_ecs := [1],
        allranges := [\<lparr>r_lb = 0x0A000002, r_ub = 0x0A000003, ec_ptr = 1\<rparr>],
        ec_heap := [1 \<mapsto> [\<lparr>r_lb = 0x0A000002, r_ub = 0x0A000003, ec_ptr = 1\<rparr>]]\<rparr>,
      m_pl_map = Map.empty, m_pkts = [], m_cache = (\<lambda>_. Map.empty), m_world = ()\<rparr>"

theorem get_payload_from_model_spec_witness:
  "\<exists>m'. get_payload_from_model sample_model =
     Inr (Some (payload_of_string (request_content 0x0A000002 80)), m')"
proof -
  have a: "ec_addr sample_model (get_dst_ip_ec sample_model) = Inr 0x0A000002"
    by (simp add: ec_addr_def deref_ec_def sample_model_def sample_now_def sample_conn_def model_defs
      ecmgr_init_def representative_addr_def)
  have b: "pl_map_ok sample_model" by (simp add: pl_map_ok_def sample_model_def)
  have c: "get_dst_port sample_model = 80" "get_proto_state sample_model = 4"
    by (simp_all add: sample_model_def sample_now_def sample_conn_def model_defs)
  have d: "payload_for 0x0A000002 80 (ucast (4 :: ps)) =
      Some (payload_of_string (request_content 0x0A000002 80))"
    by (simp add: payload_for_def)
  show ?thesis using get_payload_from_model_spec[OF b a] unfolding c d by blast
qed

end
