(* ===== verification/Openflow.thy ===== *)
theory Openflow
  imports StateModel
begin

text \<open>
  The OpenFlow process (\<open>src/process/openflow.cpp\<close>) and \<open>Model::update_fib\<close>
  (\<open>src/model-access.cpp\<close>). \<open>updates\<close> is a map from nodes, in pointer order, to the updates of
  each; the state vector counts how many updates of each node, by its position in that map, have
  been installed.
\<close>

section \<open>The state of installed updates\<close>

definition mk_update_state :: "nat \<Rightarrow> nat list" where
  "mk_update_state num_nodes = replicate num_nodes 0"

definition num_of_installed_updates :: "nat list \<Rightarrow> nat \<Rightarrow> nat result" where
  "num_of_installed_updates s i = (if i < length s then Inr (s ! i) else Inl Out_of_range)"

definition install_update_at :: "nat \<Rightarrow> nat list \<Rightarrow> nat list result" where
  "install_update_at i s = (if i < length s then Inr (s[i := s ! i + 1]) else Inl Out_of_range)"

section \<open>The updates\<close>

type_synonym updates = "(nat \<times> route list) list"

definition add_update :: "nat \<Rightarrow> route \<Rightarrow> updates \<Rightarrow> updates" where
  "add_update node r u =
     omap_put node ((case map_of u node of None \<Rightarrow> [] | Some rs \<Rightarrow> rs) @ [r]) u"

definition num_updates :: "updates \<Rightarrow> nat" where
  "num_updates u = fold (\<lambda>(_, rs) num. num + length rs) u 0"

definition num_nodes :: "updates \<Rightarrow> nat" where
  "num_nodes u = length u"

text \<open>\<open>std::distance(updates.begin(), itr)\<close>.\<close>

definition node_order :: "updates \<Rightarrow> nat \<Rightarrow> nat" where
  "node_order u node = length (takeWhile (\<lambda>(n, _). n \<noteq> node) u)"

text \<open>The first \<open>n\<close> updates of a node that are relevant to the class, put into a table with
  \<open>upd\<close>: \<open>RoutingTable::update\<close> or \<open>RoutingTable::insert\<close>.\<close>

definition install_relevant ::
    "(route \<Rightarrow> rib \<Rightarrow> nat \<times> rib) \<Rightarrow> eqclass result \<Rightarrow> route list \<Rightarrow> nat \<Rightarrow> rib \<Rightarrow> rib result" where
  "install_relevant upd ec rs n rib =
     foldR (\<lambda>i rib.
         if i < length rs then
           bindR ec (\<lambda>c. bindR (relevant_to_ec (rs ! i) c) (\<lambda>relevant.
           Inr (if relevant then snd (upd (rs ! i) rib) else rib)))
         else Inl Undefined_behaviour)
       [0..<n] rib"

definition installed_at ::
    "'w model \<Rightarrow> nat \<Rightarrow> nat \<times> route list \<Rightarrow> (nat \<times> fib_ipnh list) list \<Rightarrow> (nat \<times> fib_ipnh list) list result"
where
  "installed_at m order pair acc =
     bindR (valR (get_openflow_update_state m)) (\<lambda>update_state.
     bindR (num_of_installed_updates update_state order) (\<lambda>num_installed.
     bindR (node_at m (fst pair)) (\<lambda>nd.
     bindR (install_relevant rib_update (deref_ec (m_ecs m) (get_dst_ip_ec m)) (snd pair)
         num_installed (nd_rib nd)) (\<lambda>of_rib.
     bindR (ec_addr m (get_dst_ip_ec m)) (\<lambda>addr.
     bindR (get_ipnhs (net_objs (m_net m)) (fst pair) addr (Some of_rib)) (\<lambda>next_hops.
     Inr (if next_hops \<noteq> [] then snd (omap_insert (fst pair) next_hops acc) else acc)))))))"

definition get_installed_updates :: "'w model \<Rightarrow> (nat \<times> fib_ipnh list) list result" where
  "get_installed_updates m =
     foldR (\<lambda>(order, pair). installed_at m order pair) (enumerate 0 (m_updates m)) []"

definition has_updates :: "nat \<Rightarrow> 'w model \<Rightarrow> bool result" where
  "has_updates node m =
     (case map_of (m_updates m) node of
        None \<Rightarrow> Inr False
      | Some rs \<Rightarrow>
          bindR (valR (get_openflow_update_state m)) (\<lambda>update_state.
          bindR (num_of_installed_updates update_state (node_order (m_updates m) node)) (\<lambda>num_installed.
          Inr (num_installed < length rs))))"

definition openflow_init :: "'w model \<Rightarrow> 'w model" where
  "openflow_init m =
     (if m_updates m = [] then m
      else set_openflow_update_state (mk_update_state (length (m_updates m))) m)"

definition openflow_reset :: "'w model \<Rightarrow> 'w model" where
  "openflow_reset m = m\<lparr>m_updates := []\<rparr>"

section \<open>Installing an update\<close>

definition install_update :: "'w model \<Rightarrow> 'w model result" where
  "install_update m =
     (if get_choice m = 0 then Inr (set_choice_count 1 m)
      else
        let current_node = get_pkt_location m in
        case map_of (m_updates m) current_node of
          None \<Rightarrow> Inl Assertion_failed
        | Some all_updates \<Rightarrow>
            let order = node_order (m_updates m) current_node in
            bindR (valR (get_openflow_update_state m)) (\<lambda>update_state.
            bindR (num_of_installed_updates update_state order) (\<lambda>num_installed.
            bindR (install_update_at order update_state) (\<lambda>new_update_state.
            let m1 = set_openflow_update_state new_update_state m;
                m2 = set_choice_count (if num_installed + 1 < length all_updates then 2 else 1) m1
            in
            if num_installed < length all_updates then
              let update = all_updates ! num_installed in
              bindR (node_at m2 current_node) (\<lambda>nd.
              bindR (install_relevant rib_insert (deref_ec (m_ecs m2) (get_dst_ip_ec m2)) all_updates
                  num_installed (nd_rib nd)) (\<lambda>of_rib.
              bindR (ec_addr m2 (get_dst_ip_ec m2)) (\<lambda>addr.
              bindR (get_ipnhs (net_objs (m_net m2)) current_node addr
                  (Some (snd (rib_update update of_rib)))) (\<lambda>next_hops.
              bindR (valR (get_fib m2)) (\<lambda>fib.
              Inr (set_fib (set_ipnhs current_node next_hops fib) m2))))))
            else Inl Undefined_behaviour))))"

definition openflow_exec_step :: "'w model \<Rightarrow> 'w model result" where
  "openflow_exec_step m = (if m_updates m = [] then Inr m else install_update m)"

section \<open>The forwarding table of the current class\<close>

definition update_fib :: "'w model \<Rightarrow> 'w model result" where
  "update_fib m =
     bindR (ec_addr m (get_dst_ip_ec m)) (\<lambda>addr.
     bindR (foldR (\<lambda>(_, node) fib.
         bindR (get_ipnhs (net_objs (m_net m)) node addr None) (\<lambda>nhs.
         Inr (set_ipnhs node nhs fib)))
       (net_nodes (m_net m)) []) (\<lambda>fib.
     bindR (get_installed_updates m) (\<lambda>installed.
     Inr (set_fib (fold (\<lambda>(node, nhs). set_ipnhs node nhs) installed fib) m))))"

section \<open>Counting installed updates\<close>

text \<open>The state that \<open>openflow_init\<close> sets up and the steps keep: one counter per node with
  updates, none above the number of its updates.\<close>

definition of_ok :: "'w model \<Rightarrow> bool" where
  "of_ok m \<longleftrightarrow> omap (m_updates m) \<and>
     (m_updates m \<noteq> [] \<longrightarrow> (\<exists>s. get_openflow_update_state m = Some s
       \<and> length s = length (m_updates m)
       \<and> (\<forall>i < length s. s ! i \<le> length (snd (m_updates m ! i)))))"

lemma node_order_nth:
  assumes "map_of u node = Some rs"
  shows "node_order u node < length u \<and> u ! node_order u node = (node, rs)"
  using assms by (induction u) (auto simp: node_order_def split: if_splits)

lemma openflow_init_ok: "omap (m_updates m) \<Longrightarrow> of_ok (openflow_init m)"
  by (simp add: of_ok_def openflow_init_def mk_update_state_def model_defs)

lemma has_updates_total:
  assumes "of_ok m"
  shows "\<exists>b. has_updates node m = Inr b"
proof (cases "map_of (m_updates m) node")
  case None
  then show ?thesis by (auto simp: has_updates_def)
next
  case (Some rs)
  then have "m_updates m \<noteq> []" by auto
  then show ?thesis using assms Some node_order_nth[OF Some]
    by (auto simp: of_ok_def has_updates_def num_of_installed_updates_def)
qed

lemma has_updates_counts:
  assumes "of_ok m" and "has_updates node m = Inr True"
  shows "\<exists>rs s. map_of (m_updates m) node = Some rs \<and> get_openflow_update_state m = Some s
    \<and> node_order (m_updates m) node < length s \<and> s ! node_order (m_updates m) node < length rs"
  using assms node_order_nth[of "m_updates m" node]
  by (fastforce simp: has_updates_def of_ok_def num_of_installed_updates_def bindR_eq_Inr_iff
    split: option.splits if_splits)

lemma of_ok_bump:
  assumes "of_ok m" and s: "get_openflow_update_state m = Some s"
    and rs: "map_of (m_updates m) node = Some rs" and lt: "s ! node_order (m_updates m) node < length rs"
    and m': "m_updates m' = m_updates m"
      "get_openflow_update_state m' =
        Some (s[node_order (m_updates m) node := s ! node_order (m_updates m) node + 1])"
  shows "of_ok m'"
proof -
  note no = node_order_nth[OF rs]
  have ne: "m_updates m \<noteq> []" using rs by auto
  then have "length s = length (m_updates m)" "\<forall>i < length s. s ! i \<le> length (snd (m_updates m ! i))"
    using assms(1) s by (auto simp: of_ok_def)
  then show ?thesis using assms(1) no lt m'
    by (auto simp: of_ok_def nth_list_update)
qed

text \<open>C38. Installing an update advances the counter of the current node by one and keeps every
  counter within the number of its node's updates; the process offers two choices again exactly
  when the node has updates left, and the class, the location and the connection stay. With the
  choice 0 it installs nothing and hands control back.\<close>

theorem install_update_counts:
  assumes "of_ok m" and "has_updates (get_pkt_location m) m = Inr True"
    and "openflow_exec_step m = Inr m'"
  shows "of_ok m' \<and>
    (if get_choice m = 0 then m' = set_choice_count 1 m
     else
       \<exists>s. get_openflow_update_state m = Some s \<and>
         (let i = node_order (m_updates m) (get_pkt_location m) in
            get_openflow_update_state m' = Some (s[i := s ! i + 1])) \<and>
         (\<exists>left. has_updates (get_pkt_location m) m' = Inr left \<and>
            get_choice_count m' = (if left then 2 else 1)) \<and>
         get_pkt_location m' = get_pkt_location m \<and> get_dst_ip_ec m' = get_dst_ip_ec m \<and>
         get_conn m' = get_conn m)"
proof -
  obtain rs s where rs: "map_of (m_updates m) (get_pkt_location m) = Some rs"
      and s: "get_openflow_update_state m = Some s"
      and i: "node_order (m_updates m) (get_pkt_location m) < length s"
        "s ! node_order (m_updates m) (get_pkt_location m) < length rs"
    using has_updates_counts[OF assms(1,2)] by blast
  let ?i = "node_order (m_updates m) (get_pkt_location m)"
  let ?s = "s[?i := s ! ?i + 1]"
  have ne: "m_updates m \<noteq> []" using rs by auto
  show ?thesis
  proof (cases "get_choice m = 0")
    case True
    then have "m' = set_choice_count 1 m"
      using assms(3) ne by (simp add: openflow_exec_step_def install_update_def)
    then show ?thesis using True assms(1) by (simp add: of_ok_def model_defs)
  next
    case False
    let ?m2 = "set_choice_count (if s ! ?i + 1 < length rs then 2 else 1) (set_openflow_update_state ?s m)"
    obtain f where m': "m' = set_fib f ?m2"
      using assms(3) ne False rs s i
      by (auto simp: openflow_exec_step_def install_update_def num_of_installed_updates_def
        install_update_at_def bindR_eq_Inr_iff Let_def split: if_splits)
    have f: "m_updates m' = m_updates m" "get_openflow_update_state m' = Some ?s"
      "get_choice_count m' = (if s ! ?i + 1 < length rs then 2 else 1)"
      "get_pkt_location m' = get_pkt_location m" "get_dst_ip_ec m' = get_dst_ip_ec m"
      "get_conn m' = get_conn m"
      by (simp_all add: m' model_defs)
    have "of_ok m'" by (rule of_ok_bump[OF assms(1) s rs i(2) f(1,2)])
    moreover have "has_updates (get_pkt_location m) m' = Inr (s ! ?i + 1 < length rs)"
      using rs i by (simp add: has_updates_def f num_of_installed_updates_def)
    ultimately show ?thesis using False s f by (simp add: Let_def)
  qed
qed


definition sample_intf :: "string \<Rightarrow> ipv4 \<Rightarrow> interface" where
  "sample_intf n a = \<lparr>if_name = n, if_ipv4 = \<lparr>ip_value = a, ip_prefix = 24\<rparr>, if_switchport = False\<rparr>"

definition sample_route :: "ipv4 \<Rightarrow> string \<Rightarrow> int \<Rightarrow> route" where
  "sample_route a e d = \<lparr>rt_network = \<lparr>ip_value = a, ip_prefix = 8\<rparr>, rt_next_hop = 0,
     rt_egress_intf = e, rt_adm_dist = d\<rparr>"

definition sample_switch :: node where
  "sample_switch =
     \<lparr>nd_name = ''s'', nd_intfs = Map.empty, nd_intfs_l3 = [], nd_intfs_l2 = [],
      nd_rib = [sample_route 0x0A000000 ''eth0'' 1],
      nd_l2_peers = [''eth0'' \<mapsto> (2, 12), ''eth1'' \<mapsto> (3, 13)], nd_l2_lans = Map.empty,
      nd_middlebox = None\<rparr>"

definition sample_of_model :: "unit model" where
  "sample_of_model =
     sample_model\<lparr>
       m_net := \<lparr>net_nodes = [(''s'', 1)], net_links = [], net_mbs = [], net_l2_lans = [],
         net_objs = \<lparr>intf_heap = [12 \<mapsto> sample_intf ''eth0'' 0x0A000002, 13 \<mapsto> sample_intf ''eth0'' 0x0A000003],
           node_heap = [1 \<mapsto> sample_switch], lan_heap = Map.empty\<rparr>\<rparr>,
       m_updates := [(1, [sample_route 0x0A000000 ''eth1'' 255, sample_route 0x0B000000 ''eth1'' 255])],
       m_now := sample_now\<lparr>now_choice := 1, now_of_update_state := Some [0],
         now_conn_state := (\<lambda>_. sample_conn\<lparr>cs_fib := Some []\<rparr>)\<rparr>\<rparr>"

theorem install_update_counts_witness:
  "\<exists>m'. openflow_exec_step sample_of_model = Inr m' \<and> of_ok m' \<and> get_choice_count m' = 2
     \<and> get_openflow_update_state m' = Some [1]"
proof -
  have ok: "of_ok sample_of_model"
    by (simp add: of_ok_def sample_of_model_def sample_model_def sample_now_def model_defs omap_def)
  have h: "has_updates (get_pkt_location sample_of_model) sample_of_model = Inr True"
    by code_simp
  have e: "is_ok (openflow_exec_step sample_of_model)" by code_simp
  then obtain m' where m': "openflow_exec_step sample_of_model = Inr m'" by (auto simp: is_ok_iff)
  have c: "get_choice sample_of_model = 1" "get_openflow_update_state sample_of_model = Some [0]"
      "node_order (m_updates sample_of_model) (get_pkt_location sample_of_model) = 0"
    by code_simp+
  note t = install_update_counts[OF ok h m']
  have "get_choice_count (projr (openflow_exec_step sample_of_model)) = 2" by code_simp
  then have "get_choice_count m' = 2" using m' by simp
  then show ?thesis using t m' c by (auto simp: Let_def)
qed

text \<open>\<open>install_update\<close> replays the earlier updates of the node with \<open>RoutingTable::insert\<close>,
  which drops an update whose administrative distance is larger than that of a configured route
  for the same network, while \<open>get_installed_updates\<close> replays them with \<open>update\<close>, which replaces
  the route. Installing a second, unrelated update therefore takes the first one's next hop out
  of the table of the current connection, although a table computed afresh has it.\<close>

theorem install_update_undoes_earlier_update:
  "\<exists>m1 m2 m3 f1 f2 f3.
     openflow_exec_step sample_of_model = Inr m1 \<and> get_fib m1 = Some f1 \<and>
     fib_lookup f1 1 = Inr [FIB_IPNH 3 13 3 13] \<and>
     openflow_exec_step m1 = Inr m2 \<and> get_fib m2 = Some f2 \<and>
     fib_lookup f2 1 = Inr [FIB_IPNH 2 12 2 12] \<and>
     update_fib m2 = Inr m3 \<and> get_fib m3 = Some f3 \<and>
     fib_lookup f3 1 = Inr [FIB_IPNH 3 13 3 13]"
proof -
  define m1 where "m1 = projr (openflow_exec_step sample_of_model)"
  define m2 where "m2 = projr (openflow_exec_step m1)"
  define m3 where "m3 = projr (update_fib m2)"
  have "is_ok (openflow_exec_step sample_of_model)"
      "is_ok (openflow_exec_step (projr (openflow_exec_step sample_of_model)))"
      "is_ok (update_fib (projr (openflow_exec_step (projr (openflow_exec_step sample_of_model)))))"
    by code_simp+
  then have ok: "openflow_exec_step sample_of_model = Inr m1" "openflow_exec_step m1 = Inr m2"
      "update_fib m2 = Inr m3"
    by (auto simp: m1_def m2_def m3_def is_ok_iff)
  have f: "get_fib m1 = Some [(1, [FIB_IPNH 3 13 3 13])]"
      "get_fib m2 = Some [(1, [FIB_IPNH 2 12 2 12])]"
      "get_fib m3 = Some [(1, [FIB_IPNH 3 13 3 13])]"
    unfolding m3_def m2_def m1_def by code_simp+
  then show ?thesis using ok by (simp add: fib_lookup_def)
qed

section \<open>The table of a class\<close>

lemma map_of_fold_set_ipnhs:
  "distinct (map fst xs) \<Longrightarrow>
   map_of (fold (\<lambda>(node, nhs). set_ipnhs node nhs) xs f) n =
     (case map_of xs n of None \<Rightarrow> map_of f n | Some v \<Rightarrow> Some v)"
proof (induction xs arbitrary: f)
  case (Cons x xs)
  then have "map_of xs (fst x) = None" by (simp add: map_of_eq_None_iff)
  then show ?case using Cons by (auto simp: set_ipnhs_def case_prod_beta split: option.splits)
qed simp

lemma nodes_fib:
  assumes "foldR (\<lambda>(_, node) fib. bindR (g node) (\<lambda>nhs. Inr (set_ipnhs node nhs fib))) ns f = Inr f'"
  shows "map_of f' n = (if n \<in> snd ` set ns then Some (projr (g n)) else map_of f n)
    \<and> (\<forall>k \<in> snd ` set ns. is_ok (g k))"
  using assms
proof (induction ns arbitrary: f)
  case (Cons x ns)
  obtain nm k where x: "x = (nm, k)" by (cases x)
  from Cons.prems obtain nhs where g: "g k = Inr nhs" and
    r: "foldR (\<lambda>(_, node) fib. bindR (g node) (\<lambda>nhs. Inr (set_ipnhs node nhs fib))) ns
      (set_ipnhs k nhs f) = Inr f'"
    unfolding x by (auto simp: bindR_eq_Inr_iff)
  from Cons.IH[OF r] show ?case using g by (auto simp: set_ipnhs_def x)
qed simp

lemma installed_omap:
  "foldR (\<lambda>(order, pair). installed_at m order pair) xs acc = Inr r \<Longrightarrow> omap acc \<Longrightarrow> omap r"
proof (induction xs arbitrary: acc)
  case (Cons x xs)
  obtain i p where x: "x = (i, p)" by (cases x)
  from Cons.prems(1) obtain acc' where a: "installed_at m i p acc = Inr acc'"
      "foldR (\<lambda>(order, pair). installed_at m order pair) xs acc' = Inr r"
    unfolding x by (auto simp: bindR_eq_Inr_iff)
  have "omap acc'"
    using a(1) Cons.prems(2)
    by (auto simp: installed_at_def bindR_eq_Inr_iff omap_insert_def split: if_splits option.splits)
  then show ?case using Cons.IH a(2) by blast
qed simp

lemma set_fib_same:
  assumes "get_fib m = Some f" shows "set_fib f m = m"
proof -
  have "(now_conn_state (m_now m) (now_conn (m_now m)))\<lparr>cs_fib := Some f\<rparr> = now_conn_state (m_now m) (now_conn (m_now m))"
    using assms by (simp add: get_fib_def cur_def)
  then show ?thesis by (simp add: set_fib_def upd_cur_def upd_now_def)
qed

text \<open>The table depends on the class of the destination and on nothing else of a connection.\<close>

lemma update_fib_again:
  assumes "update_fib m = Inr m1" and "get_fib m' = get_fib m1" "get_dst_ip_ec m' = get_dst_ip_ec m"
    and "m_net m' = m_net m" "m_ecs m' = m_ecs m" "m_updates m' = m_updates m"
    and "get_openflow_update_state m' = get_openflow_update_state m"
  shows "update_fib m' = Inr m'"
proof -
  have ea: "ec_addr m' x = ec_addr m x" for x by (simp add: ec_addr_def assms)
  have na: "node_at m' x = node_at m x" for x by (simp add: node_at_def assms)
  have "installed_at m' = installed_at m" by (simp add: fun_eq_iff installed_at_def ea na assms)
  then have g: "get_installed_updates m' = get_installed_updates m" by (simp add: get_installed_updates_def assms)
  obtain addr fib inst where r: "ec_addr m (get_dst_ip_ec m) = Inr addr"
      "foldR (\<lambda>(_, node) fib. bindR (get_ipnhs (net_objs (m_net m)) node addr None) (\<lambda>nhs.
         Inr (set_ipnhs node nhs fib))) (net_nodes (m_net m)) [] = Inr fib"
      "get_installed_updates m = Inr inst"
    and m1: "m1 = set_fib (fold (\<lambda>(node, nhs). set_ipnhs node nhs) inst fib) m"
    using assms(1) unfolding update_fib_def bindR_eq_Inr_iff by blast
  have "update_fib m' = Inr (set_fib (fold (\<lambda>(node, nhs). set_ipnhs node nhs) inst fib) m')"
    unfolding update_fib_def g ea assms(3,4) r bindR_Inr ..
  moreover have "get_fib m' = Some (fold (\<lambda>(node, nhs). set_ipnhs node nhs) inst fib)"
    unfolding assms(2) m1 by (simp add: set_fib_def upd_cur_def upd_now_def get_fib_def cur_def)
  ultimately show ?thesis by (simp add: set_fib_same)
qed

text \<open>C7. \<open>update_fib\<close> gives every node of the network the next hops its routing table has for the
  representative address of the current class, unless installed OpenFlow updates give it other
  ones, which then take precedence; it writes the table of the current connection and nothing
  else.\<close>

theorem update_fib_spec:
  assumes "update_fib m = Inr m'"
  shows "\<exists>fib addr inst. m' = set_fib fib m
    \<and> ec_addr m (get_dst_ip_ec m) = Inr addr \<and> get_installed_updates m = Inr inst
    \<and> (\<forall>n. map_of fib n =
        (case map_of inst n of
           Some nhs \<Rightarrow> Some nhs
         | None \<Rightarrow> if n \<in> snd ` set (net_nodes (m_net m))
             then Some (projr (get_ipnhs (net_objs (m_net m)) n addr None)) else None))
    \<and> (\<forall>n \<in> snd ` set (net_nodes (m_net m)). is_ok (get_ipnhs (net_objs (m_net m)) n addr None))"
proof -
  let ?g = "\<lambda>addr n. get_ipnhs (net_objs (m_net m)) n addr None"
  obtain addr f inst where a: "ec_addr m (get_dst_ip_ec m) = Inr addr"
      "foldR (\<lambda>(_, node) fib. bindR (?g addr node) (\<lambda>nhs. Inr (set_ipnhs node nhs fib)))
        (net_nodes (m_net m)) [] = Inr f"
      "get_installed_updates m = Inr inst"
      "m' = set_fib (fold (\<lambda>(node, nhs). set_ipnhs node nhs) inst f) m"
    using assms by (auto simp: update_fib_def bindR_eq_Inr_iff)
  have "omap inst" using a(3) installed_omap[of m _ "[]"] by (auto simp: get_installed_updates_def)
  then have d: "distinct (map fst inst)" by (rule omap_distinct)
  show ?thesis
    using a(1,3,4) nodes_fib[OF a(2)] map_of_fold_set_ipnhs[OF d, of f]
    by (intro exI[of _ "fold (\<lambda>(node, nhs). set_ipnhs node nhs) inst f"] exI[of _ addr]
      exI[of _ inst]) (auto split: option.splits)
qed

theorem update_fib_spec_witness:
  "\<exists>m' fib. update_fib sample_of_model = Inr m' \<and> m' = set_fib fib sample_of_model
     \<and> map_of fib 1 = Some [FIB_IPNH 2 12 2 12]"
proof -
  have "is_ok (update_fib sample_of_model)" by code_simp
  then obtain m' where m': "update_fib sample_of_model = Inr m'" by (auto simp: is_ok_iff)
  have c: "ec_addr sample_of_model (get_dst_ip_ec sample_of_model) = Inr 0x0A000002"
      "get_installed_updates sample_of_model = Inr [(1, [FIB_IPNH 2 12 2 12])]"
    by code_simp+
  from update_fib_spec[OF m'] show ?thesis using m' c by fastforce
qed

end
