(* ===== verification/Connections.thy ===== *)
theory Connections
  imports Openflow
begin

text \<open>
  Connections (\<open>src/conn.cpp\<close>), connection specifications (\<open>src/connspec.cpp\<close>) and the
  iterator over the Cartesian product of the connections of several specifications
  (\<open>src/connmatrix.cpp\<close>). A \<open>std::set<Connection>\<close> is the list of its elements in the order
  of \<open>operator<\<close>; the iterators of a matrix are positions in those lists.
\<close>

section \<open>Connections\<close>

record connection =
  cn_protocol :: int
  cn_src_node :: nat
  cn_dst_ip_ec :: nat
  cn_src_port :: "16 word"
  cn_dst_port :: "16 word"
  cn_src_ip :: ipv4
  cn_seq :: "32 word"
  cn_ack :: "32 word"

definition mk_connection :: "int \<Rightarrow> nat \<Rightarrow> nat \<Rightarrow> 16 word \<Rightarrow> 16 word \<Rightarrow> connection" where
  "mk_connection proto src ec sport dport =
     \<lparr>cn_protocol = proto, cn_src_node = src, cn_dst_ip_ec = ec, cn_src_port = sport,
      cn_dst_port = dport, cn_src_ip = 0, cn_seq = 0, cn_ack = 0\<rparr>"

definition proto_int :: "proto \<Rightarrow> int" where
  "proto_int p = (case p of Tcp \<Rightarrow> 0 | Udp \<Rightarrow> 1 | Icmp_echo \<Rightarrow> 2)"

definition connection_of_packet :: "packet \<Rightarrow> nat \<Rightarrow> eqclassmgr \<Rightarrow> connection result" where
  "connection_of_packet p src ecs =
     bindR (find_ec (pk_dst_ip p) ecs) (\<lambda>ec.
     Inr \<lparr>cn_protocol = proto_int (ps_to_proto (pk_proto_state p)), cn_src_node = src,
       cn_dst_ip_ec = ec, cn_src_port = pk_src_port p, cn_dst_port = pk_dst_port p,
       cn_src_ip = pk_src_ip p, cn_seq = pk_seq p, cn_ack = pk_ack p\<rparr>)"

definition conn_less :: "connection \<Rightarrow> connection \<Rightarrow> bool" where
  "conn_less a b \<longleftrightarrow>
     (if cn_protocol a < cn_protocol b then True
      else if cn_protocol a > cn_protocol b then False
      else if cn_src_node a < cn_src_node b then True
      else if cn_src_node a > cn_src_node b then False
      else if cn_dst_ip_ec a < cn_dst_ip_ec b then True
      else if cn_dst_ip_ec a > cn_dst_ip_ec b then False
      else if cn_src_port a < cn_src_port b then True
      else if cn_src_port a > cn_src_port b then False
      else if cn_dst_port a < cn_dst_port b then True
      else False)"

definition conn_init_proto_state :: "int \<Rightarrow> ps result" where
  "conn_init_proto_state proto =
     (if proto = 0 then Inr PS_TCP_INIT_1
      else if proto = 1 then Inr PS_UDP_REQ
      else if proto = 2 then Inr PS_ICMP_ECHO_REQ
      else Inl (Runtime_error ''Unknown protocol: ''))"

definition conn_init :: "nat \<Rightarrow> connection \<Rightarrow> 'w model \<Rightarrow> 'w model result" where
  "conn_init conn_idx c m =
     (let orig_conn = get_conn m;
          m = set_conn (int conn_idx) m;
          m = set_executable 2 m in
      bindR (conn_init_proto_state (cn_protocol c)) (\<lambda>proto_state.
      let m = set_proto_state proto_state m;
          m = set_src_ip (cn_src_ip c) m;
          m = set_dst_ip_ec (cn_dst_ip_ec c) m;
          m = set_src_port (cn_src_port c) m;
          m = set_dst_port (cn_dst_port c) m;
          m = set_seq (cn_seq c) m;
          m = set_ack (cn_ack c) m in
      bindR (get_payload_from_model m) (\<lambda>(pl, m).
      let m = set_payload pl m;
          m = set_src_node (cn_src_node c) m;
          m = set_tx_node (cn_src_node c) m;
          m = set_rx_node 0 m;
          m = set_fwd_mode FIRST_COLLECT m;
          m = set_pkt_location (cn_src_node c) m;
          m = set_ingress_intf 0 m;
          m = reset_candidates m;
          m = reset_injection_results m in
      bindR (update_fib m) (\<lambda>m.
      let m = set_path_choices [] m in
      Inr (set_conn orig_conn m)))))"

section \<open>Connection specifications\<close>

record connspec =
  sp_protocol :: int
  sp_src_nodes :: "nat list"
  sp_dst_ip :: ip_range
  sp_src_port :: "16 word"
  sp_dst_ports :: "16 word list"
  sp_owned_dst_only :: bool

text \<open>The destination range converts to the argument of the only public \<open>add_ec\<close> that takes it,
  an \<open>IPNetwork\<close>.\<close>

definition update_inv_ecs :: "(nat list \<Rightarrow> nat) \<Rightarrow> connspec \<Rightarrow> eqclassmgr \<Rightarrow> eqclassmgr result" where
  "update_inv_ecs alloc sp ecs =
     bindR (network_of_range (sp_dst_ip sp)) (\<lambda>net. add_ec_net alloc net ecs)"

definition spec_dst_ports :: "connspec \<Rightarrow> eqclassmgr \<Rightarrow> 16 word list" where
  "spec_dst_ports sp ecs =
     (if sp_dst_ports sp = [] then
        if sp_protocol sp = 0 \<or> sp_protocol sp = 1 then mgr_ports ecs else oset_insert 0 []
      else sp_dst_ports sp)"

definition compute_connections :: "connspec \<Rightarrow> eqclassmgr \<Rightarrow> connection list" where
  "compute_connections sp ecs =
     (let dst_ip_ecs = get_overlapped_ecs (ecrange_of_range (sp_dst_ip sp)) (sp_owned_dst_only sp) ecs;
          dst_ports = spec_dst_ports sp ecs in
      fold (\<lambda>src_node. fold (\<lambda>dst_ip_ec. fold (\<lambda>dst_port.
          set_insert conn_less
            (mk_connection (sp_protocol sp) src_node dst_ip_ec (sp_src_port sp) dst_port))
        dst_ports) dst_ip_ecs) (sp_src_nodes sp) [])"

section \<open>The Cartesian product of connections\<close>

record conn_matrix =
  cm_product :: "connection list list"
  cm_itrs :: "nat list"
  cm_traversed_all :: bool

definition conn_matrix_init :: conn_matrix where
  "conn_matrix_init = \<lparr>cm_product = [], cm_itrs = [], cm_traversed_all = False\<rparr>"

text \<open>\<open>size_t\<close> arithmetic.\<close>

definition matrix_num_conns :: "conn_matrix \<Rightarrow> 64 word" where
  "matrix_num_conns cm = fold (\<lambda>conn_set num. num * of_nat (length conn_set)) (cm_product cm) 1"

definition matrix_clear :: "conn_matrix \<Rightarrow> conn_matrix" where
  "matrix_clear cm = cm\<lparr>cm_product := [], cm_itrs := [], cm_traversed_all := False\<rparr>"

definition matrix_reset :: "conn_matrix \<Rightarrow> conn_matrix" where
  "matrix_reset cm = cm\<lparr>cm_itrs := replicate (length (cm_product cm)) 0, cm_traversed_all := False\<rparr>"

definition matrix_add :: "connection list \<Rightarrow> conn_matrix \<Rightarrow> conn_matrix" where
  "matrix_add conns cm = cm\<lparr>cm_product := cm_product cm @ [conns], cm_itrs := cm_itrs cm @ [0]\<rparr>"

text \<open>Dereferencing the end iterator of an empty set is undefined.\<close>

fun deref_itrs :: "connection list list \<Rightarrow> nat list \<Rightarrow> connection list result" where
  "deref_itrs (s # ss) (i # is) =
     (if i < length s then bindR (deref_itrs ss is) (\<lambda>cs. Inr (s ! i # cs))
      else Inl Undefined_behaviour)"
| "deref_itrs _ _ = Inr []"

text \<open>The loop that advances the iterators, and whether it ran over all of them.\<close>

fun advance_itrs :: "connection list list \<Rightarrow> nat list \<Rightarrow> nat list \<times> bool" where
  "advance_itrs (s # ss) (i # is) =
     (if i + 1 \<noteq> length s then ((i + 1) # is, False)
      else let (is', all) = advance_itrs ss is in (0 # is', all))"
| "advance_itrs _ is = (is, True)"

definition get_next_conns :: "conn_matrix \<Rightarrow> (connection list \<times> conn_matrix) result" where
  "get_next_conns cm =
     (if cm_traversed_all cm then Inr ([], cm)
      else
        bindR (deref_itrs (cm_product cm) (cm_itrs cm)) (\<lambda>conns.
        let (is, all) = advance_itrs (cm_product cm) (cm_itrs cm) in
        Inr (conns, cm\<lparr>cm_itrs := is, cm_traversed_all := cm_traversed_all cm \<or> all\<rparr>)))"

section \<open>The order of connections\<close>

lemma conn_less_iff:
  "conn_less a b \<longleftrightarrow>
     (cn_protocol a, cn_src_node a, cn_dst_ip_ec a, cn_src_port a, cn_dst_port a)
     < (cn_protocol b, cn_src_node b, cn_dst_ip_ec b, cn_src_port b, cn_dst_port b)"
  by (auto simp: conn_less_def less_prod_def)

interpretation cn: weak_ordered "\<lambda>_. True" conn_less
  by unfold_locales (auto simp: conn_less_iff)

section \<open>Connections of a specification\<close>

text \<open>Folding an insertion over a list whose elements are pairwise inequivalent under the
  comparator collects them all.\<close>

definition conn_key :: "connection \<Rightarrow> int \<times> nat \<times> nat \<times> 16 word \<times> 16 word" where
  "conn_key c = (cn_protocol c, cn_src_node c, cn_dst_ip_ec c, cn_src_port c, cn_dst_port c)"

lemma conn_less_key: "conn_less a b \<longleftrightarrow> conn_key a < conn_key b"
  by (simp add: conn_less_iff conn_key_def)

lemma insert_conn_set:
  assumes "cn.wf_set xs" and "\<And>y. y \<in> set xs \<Longrightarrow> conn_key y = conn_key c \<Longrightarrow> y = c"
  shows "cn.wf_set (set_insert conn_less c xs) \<and> set (set_insert conn_less c xs) = insert c (set xs)"
proof -
  have w: "cn.wf_set (set_insert conn_less c xs)" using cn.set_insert_wf[OF assms(1)] by simp
  have "set (set_insert conn_less c xs) = insert c (set xs)"
  proof (cases "\<exists>y \<in> set xs. \<not> conn_less c y \<and> \<not> conn_less y c")
    case True
    then have "c \<in> set xs" using assms(2) by (force simp: conn_less_key not_less dest: antisym)
    then show ?thesis using cn.set_insert_spec[OF assms(1)] True
      by (metis (no_types, lifting) cn.set_find_None_iff cn.set_set_insert insert_absorb assms(1))
  next
    case False
    then show ?thesis using cn.set_set_insert[OF assms(1), of c] cn.set_find_None_iff[OF assms(1), of c]
      by auto
  qed
  with w show ?thesis by blast
qed
lemma fold_insert_conns:
  assumes "cn.wf_set acc" and "inj_on conn_key (set cs \<union> set acc)"
  shows "cn.wf_set (fold (set_insert conn_less) cs acc)
    \<and> set (fold (set_insert conn_less) cs acc) = set cs \<union> set acc"
  using assms
proof (induction cs arbitrary: acc)
  case (Cons c cs)
  have "y = c" if "y \<in> set acc" "conn_key y = conn_key c" for y
    using inj_onD[OF Cons.prems(2) that(2)] that(1) by simp
  from insert_conn_set[OF Cons.prems(1) this]
  have i: "cn.wf_set (set_insert conn_less c acc)" "set (set_insert conn_less c acc) = insert c (set acc)"
    by simp_all
  have "inj_on conn_key (set cs \<union> set (set_insert conn_less c acc))"
    using Cons.prems(2) unfolding i(2) by simp
  from Cons.IH[OF i(1) this] show ?case unfolding i(2) by simp
qed simp

lemma mk_connection_key: "conn_key (mk_connection p s e sp dp) = (p, s, e, sp, dp)"
  by (simp add: conn_key_def mk_connection_def)

lemma compute_connections_fold:
  "compute_connections sp ecs = fold (set_insert conn_less)
     (map (\<lambda>(s, e, p). mk_connection (sp_protocol sp) s e (sp_src_port sp) p)
       (concat (map (\<lambda>s. concat (map (\<lambda>e. map (\<lambda>p. (s, e, p)) (spec_dst_ports sp ecs))
          (get_overlapped_ecs (ecrange_of_range (sp_dst_ip sp)) (sp_owned_dst_only sp) ecs)))
         (sp_src_nodes sp)))) []"
proof -
  have a: "fold f (concat (map g xs)) = fold (\<lambda>x. fold f (g x)) xs" for f :: "'x \<Rightarrow> 'y \<Rightarrow> 'y" and g :: "'z \<Rightarrow> 'x list" and xs
    by (induction xs) auto
  show ?thesis
    by (simp add: compute_connections_def Let_def fold_map a comp_def case_prod_beta)
qed

text \<open>The connections of a specification are the set, in the order of \<open>Connection\<close>'s
  comparison and without repetition, of one connection per source node, destination class that
  overlaps the destination range (owned ones only, if so specified) and destination port: the
  ports of the specification, or else every port of the class manager for TCP and UDP and 0 for
  ICMP.\<close>

theorem compute_connections_spec:
  "cn.wf_set (compute_connections sp ecs) \<and>
   set (compute_connections sp ecs) =
     {mk_connection (sp_protocol sp) s e (sp_src_port sp) p | s e p.
        s \<in> set (sp_src_nodes sp)
        \<and> e \<in> set (get_overlapped_ecs (ecrange_of_range (sp_dst_ip sp)) (sp_owned_dst_only sp) ecs)
        \<and> p \<in> (if sp_dst_ports sp \<noteq> [] then set (sp_dst_ports sp)
                else if sp_protocol sp \<in> {0, 1} then set (mgr_ports ecs) else {0})}"
proof -
  let ?cs = "map (\<lambda>(s, e, p). mk_connection (sp_protocol sp) s e (sp_src_port sp) p)
       (concat (map (\<lambda>s. concat (map (\<lambda>e. map (\<lambda>p. (s, e, p)) (spec_dst_ports sp ecs))
          (get_overlapped_ecs (ecrange_of_range (sp_dst_ip sp)) (sp_owned_dst_only sp) ecs)))
         (sp_src_nodes sp)))"
  have ports: "set (spec_dst_ports sp ecs) = (if sp_dst_ports sp \<noteq> [] then set (sp_dst_ports sp)
                else if sp_protocol sp \<in> {0, 1} then set (mgr_ports ecs) else {0})"
    by (simp add: spec_dst_ports_def)
  have "inj_on conn_key (set ?cs \<union> set [])"
    by (rule inj_onI) (auto simp: mk_connection_key)
  from fold_insert_conns[OF cn.wf_set_Nil this] have f: "cn.wf_set (fold (set_insert conn_less) ?cs [])
      \<and> set (fold (set_insert conn_less) ?cs []) = set ?cs \<union> set []"
    .
  have r: "cn.wf_set (compute_connections sp ecs)" "set (compute_connections sp ecs) = set ?cs"
    unfolding compute_connections_fold using f by (simp_all only: list.set Un_empty_right)
  show ?thesis unfolding r(2) ports[symmetric] using r(1) by (auto simp: image_iff) blast
qed

section \<open>The matrix enumerates the product\<close>

text \<open>The tuples of a list of lists, the first component varying fastest.\<close>

fun tuples :: "'a list list \<Rightarrow> 'a list list" where
  "tuples [] = [[]]"
| "tuples (s # ss) = concat (map (\<lambda>cs. map (\<lambda>c. c # cs) s) (tuples ss))"

lemma set_tuples: "set (tuples ss) = {cs. list_all2 (\<lambda>c s. c \<in> set s) cs ss}"
  by (induction ss) (auto simp: list_all2_Cons2)

lemma length_tuples: "length (tuples ss) = prod_list (map length ss)"
  by (induction ss) (auto simp: length_concat comp_def sum_list_triv)

lemma distinct_tuples: "list_all distinct ss \<Longrightarrow> distinct (tuples ss)"
proof (induction ss)
  case (Cons s ss)
  then have d: "distinct (tuples ss)" "distinct s" by simp_all
  have "distinct (concat (map (\<lambda>cs. map (\<lambda>c. c # cs) s) ts))" if "distinct ts" for ts
    using that d(2) by (induction ts) (auto simp: distinct_map inj_on_def)
  then show ?case using d(1) by simp
qed simp

text \<open>Position \<open>k\<close> of the iterators, and what they then point to.\<close>

fun digits :: "'a list list \<Rightarrow> nat \<Rightarrow> nat list" where
  "digits [] k = []"
| "digits (s # ss) k = (k mod length s) # digits ss (k div length s)"

fun pick :: "'a list list \<Rightarrow> nat \<Rightarrow> 'a list" where
  "pick [] k = []"
| "pick (s # ss) k = s ! (k mod length s) # pick ss (k div length s)"

lemma nonempty_prod: "list_all (\<lambda>s. s \<noteq> []) ss \<Longrightarrow> 0 < prod_list (map length ss)"
  by (induction ss) auto

lemma deref_digits: "list_all (\<lambda>s. s \<noteq> []) ss \<Longrightarrow> deref_itrs ss (digits ss k) = Inr (pick ss k)"
  by (induction ss arbitrary: k) auto

lemma advance_digits:
  assumes "list_all (\<lambda>s. s \<noteq> []) ss" and "k < prod_list (map length ss)"
  shows "advance_itrs ss (digits ss k) = (digits ss (Suc k), Suc k = prod_list (map length ss))"
  using assms
proof (induction ss arbitrary: k)
  case (Cons s ss)
  define n where "n = length s"
  define P where "P = prod_list (map length ss)"
  have n: "0 < n" using Cons.prems(1) by (simp add: n_def)
  have kP: "k div n < P" using Cons.prems(2) n
    by (simp add: n_def[symmetric] P_def[symmetric] div_less_iff_less_mult mult.commute)
  show ?case
  proof (cases "Suc (k mod n) = n")
    case False
    then have m: "Suc k mod n = Suc (k mod n)" "Suc k div n = k div n"
      by (simp_all add: mod_Suc div_Suc)
    then have "Suc k \<noteq> n * P" by (metis mod_mult_self1_is_0 nat.distinct(1))
    then show ?thesis using m False by (simp add: n_def[symmetric] P_def[symmetric])
  next
    case True
    then have m: "Suc k mod n = 0" "Suc k div n = Suc (k div n)"
      by (simp_all add: mod_Suc div_Suc)
    have e: "Suc k = n * P \<longleftrightarrow> Suc (k div n) = P"
      using m n by (metis div_mult_mod_eq add_0_right mult.commute nonzero_mult_div_cancel_left not_gr0)
    have "advance_itrs ss (digits ss (k div n)) = (digits ss (Suc (k div n)), Suc (k div n) = P)"
      using Cons.IH[of "k div n"] Cons.prems(1) kP by (simp add: P_def)
    then show ?thesis using m True e by (simp add: n_def[symmetric] P_def[symmetric])
  qed
qed simp

lemma digits_0: "digits ss 0 = replicate (length ss) 0"
  by (induction ss) auto

lemma upt_mult: "[0..<n * P] = concat (map (\<lambda>q. map (\<lambda>r. q * n + r) [0..<n]) [0..<P])"
proof (induction P)
  case (Suc P)
  have "[0..<n * Suc P] = [0..<n * P] @ [n * P..<n * P + n]"
    using upt_add_eq_append[of 0 "n * P" n] by (simp add: add.commute)
  moreover have "map (\<lambda>r. P * n + r) [0..<n] = [n * P..<n * P + n]"
    by (simp add: map_add_upt mult.commute add.commute)
  ultimately show ?case using Suc by simp
qed simp

lemma pick_tuples: "map (pick ss) [0..<prod_list (map length ss)] = tuples ss"
proof (induction ss)
  case (Cons s ss)
  have "map (\<lambda>r. pick (s # ss) (q * length s + r)) [0..<length s] = map (\<lambda>c. c # pick ss q) s" for q
  proof (rule nth_equalityI)
    fix i
    assume "i < length (map (\<lambda>r. pick (s # ss) (q * length s + r)) [0..<length s])"
    then have i: "i < length s" by simp
    then have "(q * length s + i) div length s = q"
      by (metis div_less div_mult_self3 gr_implies_not_zero add.right_neutral)
    then show "map (\<lambda>r. pick (s # ss) (q * length s + r)) [0..<length s] ! i
        = map (\<lambda>c. c # pick ss q) s ! i"
      using i by simp
  qed simp
  then have "map (pick (s # ss)) [0..<length s * prod_list (map length ss)] =
      concat (map (\<lambda>q. map (\<lambda>c. c # pick ss q) s) [0..<prod_list (map length ss)])"
    by (simp add: upt_mult map_concat comp_def del: pick.simps)
  also have "\<dots> = concat (map (\<lambda>cs. map (\<lambda>c. c # cs) s) (map (pick ss) [0..<prod_list (map length ss)]))"
    by (simp add: comp_def)
  finally show ?case unfolding Cons.IH by (simp del: pick.simps)
qed simp

text \<open>The results of the next \<open>n\<close> calls.\<close>

fun next_conns :: "nat \<Rightarrow> conn_matrix \<Rightarrow> connection list list result" where
  "next_conns 0 cm = Inr []"
| "next_conns (Suc n) cm =
     bindR (get_next_conns cm) (\<lambda>(conns, cm'). bindR (next_conns n cm') (\<lambda>rest. Inr (conns # rest)))"

definition matrix_at :: "connection list list \<Rightarrow> nat \<Rightarrow> conn_matrix" where
  "matrix_at ss k = \<lparr>cm_product = ss, cm_itrs = digits ss k,
     cm_traversed_all = (k \<ge> prod_list (map length ss))\<rparr>"

lemma next_conns_done: "cm_traversed_all cm \<Longrightarrow> next_conns n cm = Inr (replicate n [])"
  by (induction n) (simp_all add: get_next_conns_def)

lemma next_conns_at:
  assumes "list_all (\<lambda>s. s \<noteq> []) ss" and "k + n \<le> prod_list (map length ss)"
  shows "next_conns (n + j) (matrix_at ss k) =
    bindR (next_conns j (matrix_at ss (k + n))) (\<lambda>rest. Inr (map (pick ss) [k..<k + n] @ rest))"
  using assms(2)
proof (induction n arbitrary: k)
  case 0
  then show ?case by (cases "next_conns j (matrix_at ss k)") simp_all
next
  case (Suc n)
  have "get_next_conns (matrix_at ss k) = Inr (pick ss k, matrix_at ss (Suc k))"
    using Suc.prems assms(1) deref_digits[OF assms(1), of k] advance_digits[OF assms(1), of k]
    by (auto simp: get_next_conns_def matrix_at_def)
  then show ?case using Suc.IH[of "Suc k"] Suc.prems
    by (simp add: bindR_assoc upt_rec[of k "Suc (k + n)"] del: upt_Suc)
qed

lemma matrix_build:
  "fold matrix_add ss (matrix_clear cm) = \<lparr>cm_product = ss, cm_itrs = replicate (length ss) 0, cm_traversed_all = False\<rparr>"
proof -
  have "fold matrix_add ss \<lparr>cm_product = p, cm_itrs = replicate (length p) 0, cm_traversed_all = False\<rparr>
      = \<lparr>cm_product = p @ ss, cm_itrs = replicate (length (p @ ss)) 0, cm_traversed_all = False\<rparr>" for p
  proof (induction ss arbitrary: p)
    case (Cons s ss)
    then show ?case using Cons.IH[of "p @ [s]"]
      by (simp add: matrix_add_def replicate_add replicate_append_same)
  qed simp
  from this[of "[]"] show ?thesis by (cases cm) (simp add: matrix_clear_def)
qed

lemma next_conns_all:
  assumes "list_all (\<lambda>s. s \<noteq> []) ss"
  shows "next_conns (prod_list (map length ss) + j) (fold matrix_add ss (matrix_clear cm)) =
    Inr (tuples ss @ replicate j [])"
proof -
  let ?P = "prod_list (map length ss)"
  have "fold matrix_add ss (matrix_clear cm) = matrix_at ss 0"
    using nonempty_prod[OF assms] by (simp add: matrix_build matrix_at_def digits_0)
  moreover have "next_conns j (matrix_at ss ?P) = Inr (replicate j [])"
    by (rule next_conns_done) (simp add: matrix_at_def)
  ultimately show ?thesis using next_conns_at[OF assms, of 0 ?P j] pick_tuples[of ss] by simp
qed

lemma pick_nth:
  assumes "i < length ss"
  shows "length (pick ss k) = length ss"
    and "pick ss k ! i = ss ! i ! (k div prod_list (map length (take i ss)) mod length (ss ! i))"
proof -
  show "length (pick ss k) = length ss" by (induction ss k rule: pick.induct) simp_all
  show "pick ss k ! i = ss ! i ! (k div prod_list (map length (take i ss)) mod length (ss ! i))"
    using assms by (induction ss k arbitrary: i rule: pick.induct)
      (auto simp: nth_Cons' take_Cons' div_mult2_eq)
qed

text \<open>C33. A matrix filled with non-empty sets of connections hands out every tuple of the
  Cartesian product exactly once and then empty vectors. The tuples come in the order of a
  counter whose first digit is the least significant: the \<open>k\<close>-th one holds, for the specification at
  \<open>i\<close>, the connection at position \<open>k\<close> divided by the number of tuples of the specifications before
  it, modulo the number of its own connections. So the connections of the first specification vary
  fastest.\<close>

theorem get_next_conns_product:
  assumes "list_all (\<lambda>s. s \<noteq> []) ss" and "list_all cn.wf_set ss"
  shows "\<exists>results. next_conns (prod_list (map length ss) + j) (fold matrix_add ss (matrix_clear cm)) =
      Inr (results @ replicate j [])
    \<and> length results = prod_list (map length ss) \<and> distinct results
    \<and> set results = {cs. list_all2 (\<lambda>c s. c \<in> set s) cs ss}
    \<and> (\<forall>k < length results. \<forall>i < length ss. results ! k ! i =
         ss ! i ! (k div prod_list (map length (take i ss)) mod length (ss ! i)))"
proof (intro exI conjI allI impI)
  show "next_conns (prod_list (map length ss) + j) (fold matrix_add ss (matrix_clear cm)) =
      Inr (tuples ss @ replicate j [])"
    by (rule next_conns_all[OF assms(1)])
  show "distinct (tuples ss)"
    by (rule distinct_tuples) (use assms(2) cn.wf_set_distinct in \<open>auto simp: list_all_iff\<close>)
  fix k i
  assume k: "k < length (tuples ss)" and i: "i < length ss"
  have "tuples ss ! k = pick ss k" using k unfolding length_tuples by (simp flip: pick_tuples)
  then show "tuples ss ! k ! i = ss ! i ! (k div prod_list (map length (take i ss)) mod length (ss ! i))"
    using pick_nth(2)[OF i] by simp
qed (simp_all add: length_tuples set_tuples)

definition sample_conns :: "connection list list" where
  "sample_conns = [[mk_connection 0 1 1 1000 80, mk_connection 0 2 1 1000 80],
     [mk_connection 1 1 1 1000 53, mk_connection 1 1 2 1000 53]]"

theorem get_next_conns_product_witness:
  "\<exists>results. next_conns 5 (fold matrix_add sample_conns (matrix_clear conn_matrix_init)) = Inr (results @ [[]])
    \<and> length results = 4 \<and> distinct results
    \<and> results ! 1 ! 0 = mk_connection 0 2 1 1000 80 \<and> results ! 1 ! 1 = mk_connection 1 1 1 1000 53"
proof -
  have a: "list_all (\<lambda>s. s \<noteq> []) sample_conns" by (simp add: sample_conns_def)
  have b: "list_all cn.wf_set sample_conns"
    by (simp add: sample_conns_def sorted_set_def conn_less_def mk_connection_def)
  have c: "prod_list (map length sample_conns) = 4" by (simp add: sample_conns_def)
  have d: "(4 :: nat) + 1 = 5" "replicate 1 [] = [[]]" by simp_all
  obtain rs where r: "next_conns 5 (fold matrix_add sample_conns (matrix_clear conn_matrix_init)) = Inr (rs @ [[]])"
      "length rs = 4" "distinct rs"
    and at: "\<forall>k < length rs. \<forall>i < length sample_conns. rs ! k ! i =
      sample_conns ! i ! (k div prod_list (map length (take i sample_conns)) mod length (sample_conns ! i))"
    using get_next_conns_product[OF a b, of 1 conn_matrix_init] unfolding c d by blast
  have "rs ! 1 ! 0 = mk_connection 0 2 1 1000 80" "rs ! 1 ! 1 = mk_connection 1 1 1 1000 53"
    using at[rule_format, of 1 0] at[rule_format, of 1 1] r(2) by (simp_all add: sample_conns_def)
  then show ?thesis using r by blast
qed

section \<open>Initialising a connection\<close>

lemma update_fib_form: "update_fib m = Inr m' \<Longrightarrow> \<exists>fib. m' = set_fib fib m"
  by (auto simp: update_fib_def bindR_eq_Inr_iff)

lemma payload_of_first:
  assumes "ps_is_first (get_proto_state m)"
  shows "get_payload_from_model m = Inr (None, m)"
proof -
  have "get_proto_state m \<in> {1, 11, 13}" using assms by (auto simp: ps_is_first_def)
  then have "(ucast (get_proto_state m) :: 8 word) \<in> {1, 11, 13}" by auto
  then show ?thesis by (auto simp: get_payload_from_model_def payload_key_def Let_def)
qed

lemma conn_init_proto_state_first: "conn_init_proto_state p = Inr st \<Longrightarrow> ps_is_first st"
  by (auto simp: conn_init_proto_state_def ps_is_first_def split: if_splits)

text \<open>The table depends on the class, the network and the installed updates only.\<close>

lemma update_fib_cong:
  assumes "m_net m' = m_net m" "m_ecs m' = m_ecs m" "m_updates m' = m_updates m"
    "get_openflow_update_state m' = get_openflow_update_state m"
    "get_dst_ip_ec m' = get_dst_ip_ec m"
  shows "update_fib m = Inr (set_fib f m) \<Longrightarrow> update_fib m' = Inr (set_fib f m')"
proof -
  have i: "installed_at m' = installed_at m"
    using assms by (simp add: fun_eq_iff installed_at_def ec_addr_def node_at_def)
  have inj: "set_fib a m = set_fib b m \<Longrightarrow> a = b" for a b
    by (drule arg_cong[where f = get_fib]) (simp add: model_defs)
  assume "update_fib m = Inr (set_fib f m)"
  then show "update_fib m' = Inr (set_fib f m')"
    using assms i by (auto simp: update_fib_def get_installed_updates_def ec_addr_def bindR_eq_Inr_iff
      dest!: inj)
qed

lemma conn_init_ok:
  assumes "conn_init_proto_state (cn_protocol c) = Inr st"
    and "is_ok (update_fib (set_dst_ip_ec (cn_dst_ip_ec c) m))"
  shows "is_ok (conn_init idx c m)"
proof -
  obtain f where f: "update_fib (set_dst_ip_ec (cn_dst_ip_ec c) m) = Inr (set_fib f (set_dst_ip_ec (cn_dst_ip_ec c) m))"
    using assms(2) update_fib_form by (metis is_ok_iff)
  let ?m1 = "set_ack (cn_ack c) (set_seq (cn_seq c) (set_dst_port (cn_dst_port c)
    (set_src_port (cn_src_port c) (set_dst_ip_ec (cn_dst_ip_ec c) (set_src_ip (cn_src_ip c)
    (set_proto_state st (set_executable 2 (set_conn (int idx) m))))))))"
  have "get_proto_state ?m1 = st" by (simp add: model_defs)
  then have pl: "get_payload_from_model ?m1 = Inr (None, ?m1)"
    using conn_init_proto_state_first[OF assms(1)] by (intro payload_of_first) simp
  let ?m2 = "reset_injection_results (reset_candidates (set_ingress_intf 0
      (set_pkt_location (cn_src_node c) (set_fwd_mode 0 (set_rx_node 0 (set_tx_node (cn_src_node c)
      (set_src_node (cn_src_node c) (set_payload None ?m1))))))))"
  have "update_fib ?m2 = Inr (set_fib f ?m2)"
    by (rule update_fib_cong[OF _ _ _ _ _ f]) (simp_all add: model_defs)
  then show ?thesis unfolding conn_init_def Let_def assms(1) bindR_Inr pl by simp
qed

lemma conn_init_effect:
  assumes "conn_init idx c m = Inr m'"
  shows "\<exists>st fib. conn_init_proto_state (cn_protocol c) = Inr st \<and> ps_is_first st \<and>
    m' = m\<lparr>m_now := (m_now m)\<lparr>now_conn_state := (now_conn_state (m_now m))(int idx :=
      \<lparr>cs_executable = 2, cs_proto_state = st, cs_src_ip = cn_src_ip c, cs_dst_ip_ec = cn_dst_ip_ec c,
       cs_src_port = cn_src_port c, cs_dst_port = cn_dst_port c, cs_seq = cn_seq c,
       cs_ack = cn_ack c, cs_payload = None, cs_src_node = cn_src_node c,
       cs_tx_node = cn_src_node c, cs_rx_node = 0, cs_fwd_mode = FIRST_COLLECT,
       cs_pkt_location = cn_src_node c, cs_ingress_intf = 0, cs_candidates = None,
       cs_inj_results = None, cs_fib = Some fib, cs_path_choices = Some [],
       cs_visited_hops = cs_visited_hops (now_conn_state (m_now m) (int idx))\<rparr>)\<rparr>\<rparr>"
proof -
  obtain st where st: "conn_init_proto_state (cn_protocol c) = Inr st"
    using assms by (auto simp: conn_init_def Let_def bindR_eq_Inr_iff)
  note first = conn_init_proto_state_first[OF st]
  let ?m1 = "set_ack (cn_ack c) (set_seq (cn_seq c) (set_dst_port (cn_dst_port c)
    (set_src_port (cn_src_port c) (set_dst_ip_ec (cn_dst_ip_ec c) (set_src_ip (cn_src_ip c)
    (set_proto_state st (set_executable 2 (set_conn (int idx) m))))))))"
  have "get_proto_state ?m1 = st" by (simp add: model_defs)
  then have pl: "get_payload_from_model ?m1 = Inr (None, ?m1)"
    using first by (intro payload_of_first) simp
  obtain m2 where m2: "update_fib (reset_injection_results (reset_candidates (set_ingress_intf 0
      (set_pkt_location (cn_src_node c) (set_fwd_mode 0 (set_rx_node 0 (set_tx_node (cn_src_node c)
      (set_src_node (cn_src_node c) (set_payload None ?m1))))))))) = Inr m2"
    and m': "m' = set_conn (get_conn m) (set_path_choices [] m2)"
    using assms unfolding conn_init_def Let_def st bindR_Inr pl
    by (auto simp: bindR_eq_Inr_iff)
  obtain fib where fib: "m2 = set_fib fib (reset_injection_results (reset_candidates (set_ingress_intf 0
      (set_pkt_location (cn_src_node c) (set_fwd_mode 0 (set_rx_node 0 (set_tx_node (cn_src_node c)
      (set_src_node (cn_src_node c) (set_payload None ?m1)))))))))"
    using update_fib_form[OF m2] by blast
  have "now_conn_state (m_now m') (int idx) = \<lparr>cs_executable = 2, cs_proto_state = st, cs_src_ip = cn_src_ip c, cs_dst_ip_ec = cn_dst_ip_ec c,
       cs_src_port = cn_src_port c, cs_dst_port = cn_dst_port c, cs_seq = cn_seq c,
       cs_ack = cn_ack c, cs_payload = None, cs_src_node = cn_src_node c,
       cs_tx_node = cn_src_node c, cs_rx_node = 0, cs_fwd_mode = FIRST_COLLECT,
       cs_pkt_location = cn_src_node c, cs_ingress_intf = 0, cs_candidates = None,
       cs_inj_results = None, cs_fib = Some fib, cs_path_choices = Some [],
       cs_visited_hops = cs_visited_hops (now_conn_state (m_now m) (int idx))\<rparr>" (is "_ = ?cs")
    unfolding m' fib by (rule conn_state.equality) (simp_all add: model_defs)
  moreover have "m' = m\<lparr>m_now := (m_now m)\<lparr>now_conn_state :=
      (now_conn_state (m_now m))(int idx := now_conn_state (m_now m') (int idx))\<rparr>\<rparr>"
    unfolding m' fib by (simp add: model_defs)
  ultimately show ?thesis using st first by metis
qed

text \<open>C32. \<open>Connection::init\<close> overwrites the whole state of its connection but the visited hops,
  which keep the value an earlier exploration left, and touches no other connection, the selected
  connection or anything outside the state vector: the connection is executable, in the first
  state of its protocol, at its source node with that node as sender and no receiver, about to
  collect next hops, without payload, candidates, results or path choices.\<close>

theorem conn_init_spec:
  assumes "conn_init idx c m = Inr m'"
  shows "\<exists>st fib. conn_init_proto_state (cn_protocol c) = Inr st \<and> ps_is_first st \<and>
    m' = m\<lparr>m_now := (m_now m)\<lparr>now_conn_state := (now_conn_state (m_now m))(int idx :=
      \<lparr>cs_executable = 2, cs_proto_state = st, cs_src_ip = cn_src_ip c, cs_dst_ip_ec = cn_dst_ip_ec c,
       cs_src_port = cn_src_port c, cs_dst_port = cn_dst_port c, cs_seq = cn_seq c,
       cs_ack = cn_ack c, cs_payload = None, cs_src_node = cn_src_node c,
       cs_tx_node = cn_src_node c, cs_rx_node = 0, cs_fwd_mode = FIRST_COLLECT,
       cs_pkt_location = cn_src_node c, cs_ingress_intf = 0, cs_candidates = None,
       cs_inj_results = None, cs_fib = Some fib, cs_path_choices = Some [],
       cs_visited_hops = cs_visited_hops (now_conn_state (m_now m) (int idx))\<rparr>)\<rparr>\<rparr>"
  by (rule conn_init_effect[OF assms])

theorem conn_init_spec_witness:
  "\<exists>m'. conn_init 2 (mk_connection 0 1 1 49152 80) sample_of_model = Inr m'
     \<and> cs_fwd_mode (now_conn_state (m_now m') 2) = FIRST_COLLECT
     \<and> cs_proto_state (now_conn_state (m_now m') 2) = PS_TCP_INIT_1"
proof -
  have f: "is_ok (update_fib (set_dst_ip_ec (cn_dst_ip_ec (mk_connection 0 1 1 49152 80)) sample_of_model))"
    by code_simp
  have "conn_init_proto_state (cn_protocol (mk_connection 0 1 1 49152 80)) = Inr PS_TCP_INIT_1"
    by (simp add: conn_init_proto_state_def mk_connection_def)
  from conn_init_ok[OF this f, of 2]
  have "is_ok (conn_init 2 (mk_connection 0 1 1 49152 80) sample_of_model)" .
  then obtain m' where m': "conn_init 2 (mk_connection 0 1 1 49152 80) sample_of_model = Inr m'"
    by (auto simp: is_ok_iff)
  obtain st where st: "conn_init_proto_state (cn_protocol (mk_connection 0 1 1 49152 80)) = Inr st"
      "cs_fwd_mode (now_conn_state (m_now m') 2) = FIRST_COLLECT"
      "cs_proto_state (now_conn_state (m_now m') 2) = st"
    using conn_init_spec[OF m'] by auto
  then have "st = PS_TCP_INIT_1" by (simp add: conn_init_proto_state_def mk_connection_def)
  then show ?thesis using m' st by blast
qed

end
