(* ===== verification/Received.thy ===== *)
theory Received
  imports Connections "HOL-Library.Multiset"
begin

text \<open>
  Received packets (\<open>src/lib/net.cpp\<close>): the protocol state of a packet is inferred from its TCP
  flags and the state of its connection, the connection from the addresses and ports, and the
  sequence numbers are checked. An operation that changes the packet passed to it returns the new
  packet. The selected connection is changed and restored by some of them; as nothing is left
  changed when they return, they take the model and do not return it. \<open>MAX_CONNS\<close> is a build
  parameter, the argument \<open>max_conns\<close>.
\<close>

section \<open>Protocol states of received packets\<close>

abbreviation (input) TH_FIN :: "16 word" where "TH_FIN \<equiv> 0x01"
abbreviation (input) TH_SYN :: "16 word" where "TH_SYN \<equiv> 0x02"
abbreviation (input) TH_PUSH :: "16 word" where "TH_PUSH \<equiv> 0x08"
abbreviation (input) TH_ACK :: "16 word" where "TH_ACK \<equiv> 0x10"

definition is_tcp_ack_or_psh_ack :: "packet \<Rightarrow> bool result" where
  "is_tcp_ack_or_psh_ack p =
     bindR (assertR (ps_unconverted (pk_proto_state p))) (\<lambda>_.
     Inr (pk_proto_state p = or 0x800 TH_ACK \<or> pk_proto_state p = or (or 0x800 TH_PUSH) TH_ACK))"

text \<open>The state a segment with the flags ACK or PSH/ACK puts a connection into.\<close>

definition convert_ack :: "bool \<Rightarrow> nat \<Rightarrow> ps \<Rightarrow> ps result" where
  "convert_ack opposite payloadlen old =
     (if old = PS_TCP_INIT_2 \<or> old = PS_TCP_TERM_2 then
        bindR (assertR opposite) (\<lambda>_. Inr (old + 1))
      else if old = PS_TCP_INIT_3 \<or> old = PS_TCP_L7_REQ_A then
        bindR (assertR (\<not> opposite)) (\<lambda>_. Inr (if payloadlen = 0 then old else old + 1))
      else if old = PS_TCP_L7_REQ then
        if payloadlen = 0 then bindR (assertR opposite) (\<lambda>_. Inr (old + 1))
        else Inr (if opposite then old + 2 else old)
      else if old = PS_TCP_L7_REP then
        if payloadlen = 0 then bindR (assertR opposite) (\<lambda>_. Inr (old + 1))
        else bindR (assertR (\<not> opposite)) (\<lambda>_. Inr old)
      else if old = PS_TCP_L7_REP_A \<or> old = PS_TCP_TERM_3 then
        bindR (assertR (payloadlen = 0)) (\<lambda>_. bindR (assertR (\<not> opposite)) (\<lambda>_. Inr old))
      else Inl (Runtime_error ''Invalid TCP flags: ''))"

definition convert_fin :: "bool \<Rightarrow> ps \<Rightarrow> ps result" where
  "convert_fin opposite old =
     (if old = PS_TCP_INIT_3 \<or> old = PS_TCP_L7_REQ_A \<or> old = PS_TCP_L7_REP_A then Inr PS_TCP_TERM_1
      else if old = PS_TCP_TERM_1 then Inr (if opposite then PS_TCP_TERM_2 else old)
      else if old = PS_TCP_TERM_2 then bindR (assertR (\<not> opposite)) (\<lambda>_. Inr old)
      else Inl (Runtime_error ''Invalid TCP flags: ''))"

definition convert_flags :: "packet \<Rightarrow> ps \<Rightarrow> ps result" where
  "convert_flags p old =
     (let flags = and (pk_proto_state p) (not 0x800); payloadlen = get_payload_size p in
      bindR (assertR (pk_is_new p \<longrightarrow> flags = TH_SYN)) (\<lambda>_.
      if flags = TH_SYN then Inr PS_TCP_INIT_1
      else if flags = or TH_SYN TH_ACK then Inr PS_TCP_INIT_2
      else if flags = TH_ACK \<or> flags = or TH_PUSH TH_ACK then
        convert_ack (pk_opposite_dir p) payloadlen old
      else if flags = or TH_FIN TH_ACK then convert_fin (pk_opposite_dir p) old
      else Inl (Runtime_error ''Invalid TCP flags: '')))"

definition convert_proto_state :: "ps \<Rightarrow> packet \<Rightarrow> packet result" where
  "convert_proto_state old p =
     (if ps_unconverted (pk_proto_state p) then
        bindR (convert_flags p old) (\<lambda>proto_state. Inr (p\<lparr>pk_proto_state := proto_state\<rparr>))
      else if ps_is_udp (pk_proto_state p) then
        if pk_is_new p then Inr (p\<lparr>pk_proto_state := PS_UDP_REQ\<rparr>)
        else if pk_opposite_dir p then
          bindR (assertR (uint old + 1 = uint PS_UDP_REP)) (\<lambda>_. Inr (p\<lparr>pk_proto_state := old + 1\<rparr>))
        else Inr (p\<lparr>pk_proto_state := old\<rparr>)
      else if ps_is_icmp_echo (pk_proto_state p) then
        bindR (assertR (pk_is_new p \<longrightarrow> pk_proto_state p = PS_ICMP_ECHO_REQ)) (\<lambda>_. Inr p)
      else Inr p)"

definition process_proto_state :: "packet \<Rightarrow> 'w model \<Rightarrow> packet result" where
  "process_proto_state p m =
     (let old_proto_state = get_proto_state_for_conn (pk_conn p) m in
      bindR (convert_proto_state old_proto_state p) (\<lambda>p.
      if pk_is_new p then
        bindR (assertR (ps_is_first (pk_proto_state p))) (\<lambda>_. Inr (p\<lparr>pk_next_phase := False\<rparr>))
      else if pk_proto_state p = old_proto_state then Inr (p\<lparr>pk_next_phase := False\<rparr>)
      else if pk_proto_state p > old_proto_state then Inr (p\<lparr>pk_next_phase := True\<rparr>)
      else Inr (p\<lparr>pk_proto_state := PS_INVALID\<rparr>)))"

section \<open>Segments of one message\<close>

text \<open>The packets received at each interface, in the order the interfaces were first seen. The
  sum of a sequence number and a payload size is a \<open>size_t\<close>.\<close>

definition continues_segment :: "packet \<Rightarrow> packet \<Rightarrow> bool result" where
  "continues_segment lp p =
     (if pk_src_ip lp = pk_src_ip p \<and> pk_dst_ip lp = pk_dst_ip p
         \<and> pk_src_port lp = pk_src_port p \<and> pk_dst_port lp = pk_dst_port p
      then bindR (is_tcp_ack_or_psh_ack lp) (\<lambda>a.
           if \<not> a then Inr False else
           bindR (is_tcp_ack_or_psh_ack p) (\<lambda>b.
           Inr (b \<and> unat (pk_seq lp) + get_payload_size lp = unat (pk_seq p)
             \<and> pk_ack lp = pk_ack p)))
      else Inr False)"

definition reassemble_one :: "packet \<Rightarrow> (nat \<times> packet list) list \<Rightarrow> (nat \<times> packet list) list result" where
  "reassemble_one p tbl =
     (let intf_pkts = (case map_of tbl (pk_intf p) of None \<Rightarrow> [] | Some ps \<Rightarrow> ps);
          append = AList.update (pk_intf p) (intf_pkts @ [p]) tbl in
      if intf_pkts \<noteq> [] then
        let lp = last intf_pkts in
        bindR (continues_segment lp p) (\<lambda>cont.
        Inr (if cont
          then AList.update (pk_intf p)
            (butlast intf_pkts @ [lp\<lparr>pk_payload := Some (payload_append (pk_payload lp) (pk_payload p))\<rparr>]) tbl
          else append))
      else Inr append)"

text \<open>\<open>perm\<close> is the iteration order of the unordered map.\<close>

definition reassemble_segments ::
    "((nat \<times> packet list) list \<Rightarrow> (nat \<times> packet list) list) \<Rightarrow> packet list \<Rightarrow> packet list result" where
  "reassemble_segments perm pkts =
     bindR (foldR reassemble_one pkts []) (\<lambda>tbl. Inr (concat (map snd (perm tbl))))"

section \<open>The connection of a packet\<close>

definition packet_belongs_to_connection :: "packet \<Rightarrow> 'w model \<Rightarrow> int \<Rightarrow> (bool \<times> bool) result" where
  "packet_belongs_to_connection p m conn =
     (let m = set_conn conn m;
          src_ip = get_src_ip m; dst_ip_ec = get_dst_ip_ec m;
          src_port = get_src_port m; dst_port = get_dst_port m;
          conn_protocol = ps_to_proto (get_proto_state m);
          pkt_protocol =
            (if ps_unconverted (pk_proto_state p) then Tcp else ps_to_proto (pk_proto_state p));
          contains = (\<lambda>b a. if b then bindR (deref_ec (m_ecs m) dst_ip_ec) (\<lambda>ec. Inr (ec_contains ec a))
                            else Inr False) in
      bindR (contains (pk_src_ip p = src_ip) (pk_dst_ip p)) (\<lambda>dst_in.
      if dst_in \<and> pk_src_port p = src_port \<and> pk_dst_port p = dst_port
         \<and> pkt_protocol = conn_protocol
      then Inr (True, True)
      else
        bindR (contains (pk_dst_ip p = src_ip) (pk_src_ip p)) (\<lambda>src_in.
        if src_in \<and> pk_dst_port p = src_port \<and> pk_src_port p = dst_port
           \<and> pkt_protocol = conn_protocol
        then Inr (True, False) else Inr (False, False))))"

text \<open>The loop over the other connections: the first one the packet belongs to, and the
  direction.\<close>

fun find_conn :: "packet \<Rightarrow> 'w model \<Rightarrow> int \<Rightarrow> int list \<Rightarrow> (int \<times> bool) option result" where
  "find_conn p m orig [] = Inr None"
| "find_conn p m orig (c # cs) =
     (if c = orig then find_conn p m orig cs
      else bindR (packet_belongs_to_connection p m c) (\<lambda>(same_conn, same_direction).
        if same_conn then Inr (Some (c, same_direction)) else find_conn p m orig cs))"

definition identify_conn :: "int \<Rightarrow> packet \<Rightarrow> 'w model \<Rightarrow> packet result" where
  "identify_conn max_conns p m =
     (let orig_conn = get_conn m in
      bindR (packet_belongs_to_connection p m orig_conn) (\<lambda>(same_conn, same_direction).
      if same_conn then
        Inr (p\<lparr>pk_is_new := False, pk_opposite_dir := \<not> same_direction, pk_conn := orig_conn\<rparr>)
      else
        bindR (find_conn p m orig_conn [0 .. get_num_conns m - 1]) (\<lambda>found.
        case found of
          Some (c, same_direction) \<Rightarrow>
            Inr (p\<lparr>pk_is_new := False, pk_opposite_dir := \<not> same_direction, pk_conn := c\<rparr>)
        | None \<Rightarrow>
            let c = max 0 (get_num_conns m) in
            if c \<ge> max_conns then Inl (Runtime_error ''Exceeding the maximum number of connections'')
            else Inr (p\<lparr>pk_is_new := True, pk_opposite_dir := False, pk_conn := c\<rparr>))))"

section \<open>Sequence and acknowledgement numbers\<close>

text \<open>The sequence number after a packet of a connection: its payload, or the bit of a SYN or
  FIN.\<close>

definition seq_after :: "ps \<Rightarrow> payload option \<Rightarrow> 32 word \<Rightarrow> 32 word" where
  "seq_after st pl sq =
     (let size = (case pl of None \<Rightarrow> 0 | Some p \<Rightarrow> payload_size p) in
      if size > 0 then sq + size
      else if ps_has_syn st \<or> ps_has_fin st then sq + 1
      else sq)"

definition check_seq_ack :: "packet \<Rightarrow> 'w model \<Rightarrow> unit result" where
  "check_seq_ack p m =
     (if \<not> ps_is_tcp (pk_proto_state p) then Inr ()
      else
        let m = set_conn (pk_conn p) m in
        if pk_is_new p then
          bindR (assertR (pk_seq p = 0)) (\<lambda>_. assertR (pk_ack p = 0))
        else if pk_next_phase p then
          let old_proto_state = ucast (ucast (get_proto_state m) :: 8 word);
              old_seq = seq_after old_proto_state (get_payload m) (get_seq m);
              old_ack = get_ack m in
          if pk_opposite_dir p then
            bindR (assertR (pk_seq p = old_ack)) (\<lambda>_. assertR (pk_ack p = old_seq))
          else
            bindR (assertR (pk_seq p = old_seq)) (\<lambda>_. assertR (pk_ack p = old_ack))
        else
          bindR (assertR (pk_seq p = get_seq m)) (\<lambda>_.
          bindR (assertR (pk_ack p = get_ack m)) (\<lambda>_.
          assertR (pk_payload p = get_payload m))))"

section \<open>The control flags of a segment\<close>

text \<open>The flags \<open>build_tcp\<close> puts into the header of a packet.\<close>

definition tcp_ctrl_flags :: "ps \<Rightarrow> 8 word" where
  "tcp_ctrl_flags st =
     (if st = PS_TCP_INIT_1 then ucast TH_SYN
      else if st = PS_TCP_INIT_2 then ucast (or TH_SYN TH_ACK)
      else if st = PS_TCP_INIT_3 \<or> st = PS_TCP_L7_REQ_A \<or> st = PS_TCP_L7_REP_A \<or> st = PS_TCP_TERM_3
        then ucast TH_ACK
      else if st = PS_TCP_L7_REQ \<or> st = PS_TCP_L7_REP then ucast (or TH_PUSH TH_ACK)
      else if st = PS_TCP_TERM_1 \<or> st = PS_TCP_TERM_2 then ucast (or TH_FIN TH_ACK)
      else 0)"

text \<open>What \<open>deserialize\<close> stores for a segment with these flags.\<close>

definition unconverted_state :: "ps \<Rightarrow> ps" where
  "unconverted_state st = or 0x800 (ucast (tcp_ctrl_flags st))"

definition turns_around :: "ps \<Rightarrow> bool" where
  "turns_around st \<longleftrightarrow> st \<in> {1, 2, 4, 6, 8, 9}"

lemma unconverted_states:
  "unconverted_state 1 = 0x802" "unconverted_state 2 = 0x812" "unconverted_state 3 = 0x810"
  "unconverted_state 4 = 0x818" "unconverted_state 5 = 0x810" "unconverted_state 6 = 0x818"
  "unconverted_state 7 = 0x810" "unconverted_state 8 = 0x811" "unconverted_state 9 = 0x811"
  "unconverted_state 10 = 0x810"
  by (simp_all add: unconverted_state_def tcp_ctrl_flags_def)

lemma tcp_stateE:
  assumes "st \<in> {1 .. 10}"
  obtains "st = 1" | "st = 2" | "st = 3" | "st = 4" | "st = 5" | "st = 6" | "st = 7" | "st = 8"
    | "st = 9" | "st = (10 :: ps)"
proof -
  have "1 \<le> st" "st \<le> 14" "st \<le> 10" using assms order.trans[of st 10 14] by auto
  then have "st \<in> set proto_states" "st \<le> 10" using valid_ps_iff by blast+
  then show ?thesis using that by (auto simp: proto_states_def)
qed

lemma convert_flags_state:
  assumes "st \<in> {1 .. 10}" and "(old = st \<and> \<not> pk_opposite_dir p) \<or>
      (old + 1 = st \<and> (pk_opposite_dir p \<longleftrightarrow> turns_around old) \<and> old \<noteq> 0) \<or>
      (old = 7 \<and> st = 8)"
    and "pk_proto_state p = unconverted_state st" and "\<not> pk_is_new p"
    and "get_payload_size p > 0 \<longleftrightarrow> st \<in> {4, 6}"
  shows "convert_flags p old = Inr st"
proof -
  have o: "old = st \<or> old = st - 1" using assms(2) by auto
  show ?thesis
    using assms(1)
  proof (cases st rule: tcp_stateE)
    case 1
    then show ?thesis using assms(3-5) by (simp add: convert_flags_def unconverted_states)
  next
    case 2
    then show ?thesis using assms(3-5) by (simp add: convert_flags_def unconverted_states)
  next
    case 3
    then consider "old = 3" "\<not> pk_opposite_dir p" | "old = 2" "pk_opposite_dir p = turns_around 2"
      using assms(2) o by fastforce
    then show ?thesis using 3 assms(3-5)
      by cases (simp_all add: convert_flags_def unconverted_states convert_ack_def turns_around_def)
  next
    case 4
    then consider "old = 4" "\<not> pk_opposite_dir p" | "old = 3" "pk_opposite_dir p = turns_around 3"
      using assms(2) o by fastforce
    then show ?thesis using 4 assms(3-5)
      by cases (simp_all add: convert_flags_def unconverted_states convert_ack_def turns_around_def)
  next
    case 5
    then consider "old = 5" "\<not> pk_opposite_dir p" | "old = 4" "pk_opposite_dir p = turns_around 4"
      using assms(2) o by fastforce
    then show ?thesis using 5 assms(3-5)
      by cases (simp_all add: convert_flags_def unconverted_states convert_ack_def turns_around_def)
  next
    case 6
    then consider "old = 6" "\<not> pk_opposite_dir p" | "old = 5" "pk_opposite_dir p = turns_around 5"
      using assms(2) o by fastforce
    then show ?thesis using 6 assms(3-5)
      by cases (simp_all add: convert_flags_def unconverted_states convert_ack_def turns_around_def)
  next
    case 7
    then consider "old = 7" "\<not> pk_opposite_dir p" | "old = 6" "pk_opposite_dir p = turns_around 6"
      using assms(2) o by fastforce
    then show ?thesis using 7 assms(3-5)
      by cases (simp_all add: convert_flags_def unconverted_states convert_ack_def turns_around_def)
  next
    case 8
    then consider "old = 8" "\<not> pk_opposite_dir p" | "old = 7" "True"
      using assms(2) o by fastforce
    then show ?thesis using 8 assms(3-5)
      by cases (simp_all add: convert_flags_def unconverted_states convert_fin_def turns_around_def)
  next
    case 9
    then consider "old = 9" "\<not> pk_opposite_dir p" | "old = 8" "pk_opposite_dir p = turns_around 8"
      using assms(2) o by fastforce
    then show ?thesis using 9 assms(3-5)
      by cases (simp_all add: convert_flags_def unconverted_states convert_fin_def turns_around_def)
  next
    case 10
    then consider "old = 10" "\<not> pk_opposite_dir p" | "old = 9" "pk_opposite_dir p = turns_around 9"
      using assms(2) o by fastforce
    then show ?thesis using 10 assms(3-5)
      by cases (simp_all add: convert_flags_def unconverted_states convert_ack_def turns_around_def)
  qed
qed

text \<open>The protocol state of a TCP packet survives the wire: a packet of state \<open>st\<close>, sent with
  the flags of \<open>st\<close>, with a payload exactly when it is a request or a reply, and in the direction
  a packet of \<open>st\<close> has relative to the connection, is given the state \<open>st\<close> again, both when the
  connection is already in \<open>st\<close> (a forwarded packet) and when it is in the state before.\<close>

theorem tcp_state_survives_wire:
  assumes "st \<in> {1 .. 10}" and "(old = st \<and> \<not> pk_opposite_dir p) \<or>
      (old + 1 = st \<and> (pk_opposite_dir p \<longleftrightarrow> turns_around old) \<and> old \<noteq> 0) \<or>
      (old = 7 \<and> st = 8)"
    and "pk_proto_state p = unconverted_state st" and "\<not> pk_is_new p"
    and "get_payload_size p > 0 \<longleftrightarrow> st \<in> {4, 6}"
  shows "convert_proto_state old p = Inr (p\<lparr>pk_proto_state := st\<rparr>)"
proof -
  have "ps_unconverted (pk_proto_state p)"
    unfolding assms(3) using assms(1)
    by (cases st rule: tcp_stateE) (simp_all add: ps_unconverted_def unconverted_states)
  then show ?thesis using convert_flags_state[OF assms] by (simp add: convert_proto_state_def)
qed


definition sample_segment :: packet where
  "sample_segment = (mk_packet 12 0x0A000001 0x0A000002 49152 80 1 1 0x818)\<lparr>pk_payload := Some [71]\<rparr>"

theorem tcp_state_survives_wire_witness:
  "convert_proto_state 3 sample_segment = Inr (sample_segment\<lparr>pk_proto_state := 4\<rparr>)"
proof -
  have h: "pk_proto_state sample_segment = unconverted_state 4" "\<not> pk_is_new sample_segment"
      "\<not> pk_opposite_dir sample_segment" "get_payload_size sample_segment = 1"
    by (simp_all add: sample_segment_def mk_packet_def packet_init_def unconverted_states
      get_payload_size_def payload_size_def)
  show ?thesis
    by (rule tcp_state_survives_wire) (use h in \<open>auto simp: turns_around_def\<close>)
qed

section \<open>The inferred state never goes back\<close>

text \<open>What the flags of a segment say about a connection in the state \<open>old\<close>: it repeats the state,
  or is the next segment of the protocol with the direction that segment has, or a reply that
  acknowledges the request, or closes the connection.\<close>

definition flags_state :: "ps \<Rightarrow> packet \<Rightarrow> ps \<Rightarrow> bool" where
  "flags_state old p st \<longleftrightarrow>
     (let flags = and (pk_proto_state p) (not 0x800); opp = pk_opposite_dir p in
      flags = TH_SYN \<and> st = PS_TCP_INIT_1
      \<or> flags = or TH_SYN TH_ACK \<and> st = PS_TCP_INIT_2
      \<or> flags \<in> {TH_ACK, or TH_PUSH TH_ACK, or TH_FIN TH_ACK}
        \<and> (flags = or TH_FIN TH_ACK \<longleftrightarrow> st = PS_TCP_TERM_1 \<or> st = PS_TCP_TERM_2)
        \<and> (st = PS_TCP_L7_REQ \<or> st = PS_TCP_L7_REP \<longrightarrow> get_payload_size p > 0)
        \<and> (st = PS_TCP_L7_REQ_A \<or> st = PS_TCP_L7_REP_A \<longrightarrow> get_payload_size p = 0)
        \<and> 3 \<le> st \<and> st \<le> 10
        \<and> (st = old \<and> \<not> opp
           \<or> st = old + 1 \<and> (opp \<longleftrightarrow> turns_around old)
           \<or> old = PS_TCP_L7_REQ \<and> st = PS_TCP_L7_REP \<and> opp
           \<or> old \<in> {PS_TCP_INIT_3, PS_TCP_L7_REQ_A, PS_TCP_L7_REP_A} \<and> st = PS_TCP_TERM_1))"

lemma convert_flags_spec:
  assumes "convert_flags p old = Inr st"
  shows "flags_state old p st"
proof -
  define flags opp len where "flags = and (pk_proto_state p) (not 0x800)" and "opp = pk_opposite_dir p"
    and "len = get_payload_size p"
  note fs = flags_state_def[of old p st, unfolded Let_def, folded flags_def opp_def len_def]
  consider (syn) "flags = TH_SYN" "st = PS_TCP_INIT_1" | (syn_ack) "flags = or TH_SYN TH_ACK" "st = PS_TCP_INIT_2"
    | (ack) "flags = TH_ACK \<or> flags = or TH_PUSH TH_ACK" "convert_ack opp len old = Inr st"
    | (fin) "flags = or TH_FIN TH_ACK" "convert_fin opp old = Inr st"
    using assms by (auto simp: convert_flags_def flags_def opp_def len_def Let_def bindR_eq_Inr_iff split: if_splits)
  then show ?thesis
  proof cases
    case ack
    then show ?thesis unfolding fs by (auto simp: convert_ack_def turns_around_def bindR_eq_Inr_iff split: if_splits)
  next
    case fin
    then show ?thesis unfolding fs by (auto simp: convert_fin_def turns_around_def bindR_eq_Inr_iff split: if_splits)
  next
    case syn
    then show ?thesis unfolding fs by simp
  next
    case syn_ack
    then show ?thesis unfolding fs by simp
  qed
qed



section \<open>Identifying the connection\<close>

text \<open>Which direction a packet has relative to a connection, if it belongs to it.\<close>

definition conn_direction :: "packet \<Rightarrow> 'w model \<Rightarrow> int \<Rightarrow> bool option" where
  "conn_direction p m c =
     (let cs = now_conn_state (m_now m) c;
          ec = (case ec_heap (m_ecs m) (cs_dst_ip_ec cs) of None \<Rightarrow> [] | Some ec \<Rightarrow> ec);
          same_proto = ((if ps_unconverted (pk_proto_state p) then Tcp
            else ps_to_proto (pk_proto_state p)) = ps_to_proto (cs_proto_state cs)) in
      if pk_src_ip p = cs_src_ip cs \<and> ec_contains ec (pk_dst_ip p) \<and> pk_src_port p = cs_src_port cs
         \<and> pk_dst_port p = cs_dst_port cs \<and> same_proto then Some True
      else if pk_dst_ip p = cs_src_ip cs \<and> ec_contains ec (pk_src_ip p)
         \<and> pk_dst_port p = cs_src_port cs \<and> pk_src_port p = cs_dst_port cs \<and> same_proto
      then Some False else None)"

text \<open>The class pointers of a set of connections are valid.\<close>

definition conns_ecs_ok :: "'w model \<Rightarrow> int set \<Rightarrow> bool" where
  "conns_ecs_ok m C \<longleftrightarrow> (\<forall>c \<in> C. ec_heap (m_ecs m) (cs_dst_ip_ec (now_conn_state (m_now m) c)) \<noteq> None)"

lemma bind_guarded:
  "bindR (if a then bindR (Inr x) (\<lambda>ec. Inr (f ec)) else Inr False) (\<lambda>d. if d \<and> r then X else Y) =
    (if a \<and> f x \<and> r then X else Y)"
  by simp

lemma case_direction:
  "Inr (case (if a then Some True else if b then Some False else None) of
      None \<Rightarrow> (False, False) | Some d \<Rightarrow> (True, d)) =
    (if a then Inr (True, True) else if b then Inr (True, False) else Inr (False, False))"
  by simp

lemma belongs_direction:
  assumes "conns_ecs_ok m {c}"
  shows "packet_belongs_to_connection p m c =
    Inr (case conn_direction p m c of None \<Rightarrow> (False, False) | Some d \<Rightarrow> (True, d))"
proof -
  let ?cs = "now_conn_state (m_now m) c"
  obtain ec where ec: "ec_heap (m_ecs m) (cs_dst_ip_ec ?cs) = Some ec"
    using assms by (auto simp: conns_ecs_ok_def)
  have g: "get_src_ip (set_conn c m) = cs_src_ip ?cs" "get_dst_ip_ec (set_conn c m) = cs_dst_ip_ec ?cs"
      "get_src_port (set_conn c m) = cs_src_port ?cs" "get_dst_port (set_conn c m) = cs_dst_port ?cs"
      "get_proto_state (set_conn c m) = cs_proto_state ?cs" "m_ecs (set_conn c m) = m_ecs m"
    by (simp_all add: model_defs)
  have d: "deref_ec (m_ecs m) (cs_dst_ip_ec ?cs) = Inr ec" by (simp add: deref_ec_def ec)
  show ?thesis
    unfolding packet_belongs_to_connection_def conn_direction_def Let_def g d ec option.case
      bind_guarded case_direction ..
qed

lemma find_conn_spec:
  assumes "conns_ecs_ok m (set cs)"
  shows "find_conn p m orig cs = Inr (case find (\<lambda>c. c \<noteq> orig \<and> conn_direction p m c \<noteq> None) cs of
      None \<Rightarrow> None | Some c \<Rightarrow> Some (c, the (conn_direction p m c)))"
  using assms
proof (induction cs)
  case (Cons c cs)
  have "conns_ecs_ok m {c}" "conns_ecs_ok m (set cs)" using Cons.prems by (auto simp: conns_ecs_ok_def)
  then show ?case using Cons.IH belongs_direction[of m c p]
    by (cases "conn_direction p m c") auto
qed simp

text \<open>The first connection a packet belongs to, the current one tried before the others.\<close>

definition owner_conn :: "packet \<Rightarrow> 'w model \<Rightarrow> int option" where
  "owner_conn p m = find (\<lambda>c. conn_direction p m c \<noteq> None) (get_conn m # [0 .. get_num_conns m - 1])"

lemma find_skip:
  "\<not> P orig \<Longrightarrow> find (\<lambda>c. c \<noteq> orig \<and> P c) cs = find P cs"
  by (induction cs) auto

lemma identify_conn_eq:
  assumes "conns_ecs_ok m (insert (get_conn m) {0 ..< get_num_conns m})" and "0 \<le> get_num_conns m"
  shows "identify_conn max_conns p m =
    (case owner_conn p m of
       Some c \<Rightarrow> Inr (p\<lparr>pk_is_new := False, pk_opposite_dir := conn_direction p m c = Some False,
                       pk_conn := c\<rparr>)
     | None \<Rightarrow>
         if get_num_conns m < max_conns
         then Inr (p\<lparr>pk_is_new := True, pk_opposite_dir := False, pk_conn := get_num_conns m\<rparr>)
         else Inl (Runtime_error ''Exceeding the maximum number of connections''))"
proof -
  let ?cs = "[0 .. get_num_conns m - 1]"
  have o: "conns_ecs_ok m {get_conn m}" "conns_ecs_ok m (set ?cs)"
    using assms(1) by (auto simp: conns_ecs_ok_def)
  show ?thesis
  proof (cases "conn_direction p m (get_conn m)")
    case (Some d)
    have "owner_conn p m = Some (get_conn m)" using Some by (simp add: owner_conn_def)
    then show ?thesis using belongs_direction[OF o(1), of p] Some
      by (simp add: identify_conn_def Let_def)
  next
    case None
    have f: "find_conn p m (get_conn m) ?cs = Inr (case owner_conn p m of
        None \<Rightarrow> None | Some c \<Rightarrow> Some (c, the (conn_direction p m c)))"
      using find_conn_spec[OF o(2), of p "get_conn m"] None
        find_skip[of "\<lambda>c. conn_direction p m c \<noteq> None" "get_conn m" ?cs]
      by (simp add: owner_conn_def)
    have d: "owner_conn p m = Some c \<Longrightarrow> conn_direction p m c \<noteq> None" for c
      unfolding owner_conn_def find_Some_iff by blast
    show ?thesis using None belongs_direction[OF o(1), of p] f d assms(2)
      by (auto simp: identify_conn_def Let_def not_less max_def split: option.splits)
  qed
qed

lemma owner_conn_Some:
  assumes "owner_conn p m = Some c" "0 \<le> get_conn m" "get_conn m < get_num_conns m"
  shows "0 \<le> c" and "c < get_num_conns m" and "\<exists>d. conn_direction p m c = Some d"
    and "conn_direction p m (get_conn m) \<noteq> None \<Longrightarrow> c = get_conn m"
    and "c \<noteq> get_conn m \<Longrightarrow> 0 \<le> c' \<Longrightarrow> c' < c \<Longrightarrow> conn_direction p m c' = None"
proof -
  let ?N = "get_num_conns m"
  show "0 \<le> c" "c < ?N" "conn_direction p m (get_conn m) \<noteq> None \<Longrightarrow> c = get_conn m"
    using assms by (auto simp: owner_conn_def find_Some_iff split: if_splits)
  show "\<exists>d. conn_direction p m c = Some d" using assms(1) unfolding owner_conn_def find_Some_iff by blast
  show "conn_direction p m c' = None" if h: "c \<noteq> get_conn m" "0 \<le> c'" "c' < c"
  proof -
    have "find (\<lambda>c. conn_direction p m c \<noteq> None) [0 .. ?N - 1] = Some c"
      using assms(1) h(1) by (simp add: owner_conn_def split: if_splits)
    then obtain i where i: "i < length [0 .. ?N - 1]" "c = [0 .. ?N - 1] ! i"
        "\<forall>j < i. \<not> conn_direction p m ([0 .. ?N - 1] ! j) \<noteq> None"
      unfolding find_Some_iff by blast
    have "nat c' < i" "[0 .. ?N - 1] ! nat c' = c'" using i(1,2) h(2,3) by auto
    then show ?thesis using i(3) by force
  qed
qed

text \<open>C17. \<open>identify_conn\<close> gives a packet to the current connection if it belongs to it, otherwise to
  the first of the other connections it belongs to, with the direction of the packet relative to
  that connection; only a packet that belongs to none opens a new connection, numbered next and
  below \<open>MAX_CONNS\<close>, and when all numbers are taken the verifier stops with an error. Only the
  fields for the connection are written.\<close>

theorem identify_conn_spec:
  assumes "conns_ecs_ok m (insert (get_conn m) {0 ..< get_num_conns m})"
    and "0 \<le> get_conn m" "get_conn m < get_num_conns m" "get_num_conns m \<le> max_conns"
    and "identify_conn max_conns p m = r"
  shows "(r = Inl (Runtime_error ''Exceeding the maximum number of connections'')
      \<and> get_num_conns m = max_conns
      \<and> (\<forall>c. 0 \<le> c \<and> c < get_num_conns m \<longrightarrow> conn_direction p m c = None)) \<or>
    (\<exists>c new opp. r = Inr (p\<lparr>pk_is_new := new, pk_opposite_dir := opp, pk_conn := c\<rparr>)
      \<and> 0 \<le> c \<and> c < max_conns
      \<and> (if new then c = get_num_conns m \<and> \<not> opp
             \<and> (\<forall>c. 0 \<le> c \<and> c < get_num_conns m \<longrightarrow> conn_direction p m c = None)
         else c < get_num_conns m \<and> conn_direction p m c = Some (\<not> opp)
             \<and> (conn_direction p m (get_conn m) \<noteq> None \<longrightarrow> c = get_conn m)
             \<and> (c \<noteq> get_conn m \<longrightarrow> (\<forall>c'. 0 \<le> c' \<and> c' < c \<longrightarrow> conn_direction p m c' = None))))"
proof -
  let ?N = "get_num_conns m"
  note eq = identify_conn_eq[OF assms(1) order.trans[OF assms(2) less_imp_le[OF assms(3)]], of max_conns p]
  show ?thesis
  proof (cases "owner_conn p m")
    case None
    then have all: "\<forall>c. 0 \<le> c \<and> c < ?N \<longrightarrow> conn_direction p m c = None"
      unfolding owner_conn_def find_None_iff by simp blast
    show ?thesis
    proof (cases "?N < max_conns")
      case True
      then have "r = Inr (p\<lparr>pk_is_new := True, pk_opposite_dir := False, pk_conn := ?N\<rparr>)"
        using eq None assms(5) by simp
      then show ?thesis using all True assms(2,3)
        by (intro disjI2 exI[of _ ?N] exI[of _ True] exI[of _ False]) simp
    next
      case False
      then have "r = Inl (Runtime_error ''Exceeding the maximum number of connections'')"
        using eq None assms(5) by simp
      then show ?thesis using all False assms(4) by simp
    qed
  next
    case (Some c)
    note c = owner_conn_Some[OF Some assms(2,3)]
    obtain d where d: "conn_direction p m c = Some d" using c(3) by blast
    have r: "r = Inr (p\<lparr>pk_is_new := False, pk_opposite_dir := \<not> d, pk_conn := c\<rparr>)"
      using eq assms(5) Some d by simp
    have only: "c \<noteq> get_conn m \<longrightarrow> (\<forall>c'. 0 \<le> c' \<and> c' < c \<longrightarrow> conn_direction p m c' = None)"
      using c(5) by blast
    show ?thesis
      by (rule disjI2, rule exI[of _ c], rule exI[of _ False], rule exI[of _ "\<not> d"], simp only: if_False)
        (intro conjI r c(1) c(2) less_le_trans[OF c(2) assms(4)] impI only; use d c(4) in simp)
  qed
qed

theorem identify_conn_spec_witness:
  "\<exists>c new opp. identify_conn 32 sample_segment sample_model =
     Inr (sample_segment\<lparr>pk_is_new := new, pk_opposite_dir := opp, pk_conn := c\<rparr>) \<and> 0 \<le> c \<and> c < 32"
proof -
  have ok: "conns_ecs_ok sample_model (insert (get_conn sample_model) {0 ..< get_num_conns sample_model})"
      "0 \<le> get_conn sample_model" "get_conn sample_model < get_num_conns sample_model"
      "get_num_conns sample_model \<le> 32"
    by (simp_all add: conns_ecs_ok_def sample_model_def sample_now_def sample_conn_def model_defs)
  have n: "get_num_conns sample_model \<noteq> 32" by code_simp
  from identify_conn_spec[OF ok refl, of sample_segment] show ?thesis
  proof
    assume "identify_conn 32 sample_segment sample_model =
        Inl (Runtime_error ''Exceeding the maximum number of connections'') \<and>
      get_num_conns sample_model = 32 \<and>
      (\<forall>c. 0 \<le> c \<and> c < get_num_conns sample_model \<longrightarrow> conn_direction sample_segment sample_model c = None)"
    then show ?thesis using n by blast
  qed blast
qed

section \<open>Reassembly\<close>

text \<open>The bytes received at an interface, in order.\<close>

definition intf_bytes :: "nat \<Rightarrow> packet list \<Rightarrow> payload" where
  "intf_bytes i pkts = concat (map (\<lambda>p. case pk_payload p of None \<Rightarrow> [] | Some pl \<Rightarrow> pl)
     (filter (\<lambda>p. pk_intf p = i) pkts))"

definition tbl_ok :: "packet list \<Rightarrow> (nat \<times> packet list) list \<Rightarrow> bool" where
  "tbl_ok pkts tbl \<longleftrightarrow> distinct (map fst tbl)
     \<and> (\<forall>(i, ps) \<in> set tbl. \<forall>p \<in> set ps. pk_intf p = i)
     \<and> (\<forall>i. intf_bytes i (case map_of tbl i of None \<Rightarrow> [] | Some ps \<Rightarrow> ps) = intf_bytes i pkts)"

lemma intf_bytes_append: "intf_bytes i (xs @ ys) = intf_bytes i xs @ intf_bytes i ys"
  by (simp add: intf_bytes_def)

lemma reassemble_one_ok:
  assumes "tbl_ok pkts tbl" and "reassemble_one p tbl = Inr tbl'"
  shows "tbl_ok (pkts @ [p]) tbl'"
proof -
  define qs where "qs = (case map_of tbl (pk_intf p) of None \<Rightarrow> [] | Some ps \<Rightarrow> ps)"
  have own: "\<forall>q \<in> set qs. pk_intf q = pk_intf p"
    using assms(1) by (auto simp: tbl_ok_def qs_def split: option.splits dest!: map_of_SomeD)
  obtain rs where tbl': "tbl' = AList.update (pk_intf p) rs tbl"
    and rs: "\<forall>q \<in> set rs. pk_intf q = pk_intf p"
      "intf_bytes (pk_intf p) rs = intf_bytes (pk_intf p) (qs @ [p])"
  proof -
    consider "tbl' = AList.update (pk_intf p) (qs @ [p]) tbl"
      | "qs \<noteq> []" "tbl' = AList.update (pk_intf p) (butlast qs @
          [last qs\<lparr>pk_payload := Some (payload_append (pk_payload (last qs)) (pk_payload p))\<rparr>]) tbl"
      using assms(2) unfolding reassemble_one_def qs_def[symmetric] Let_def
      by (auto simp: bindR_eq_Inr_iff split: if_splits)
    then show ?thesis
    proof cases
      case 1
      then show ?thesis using own that by auto
    next
      case 2
      have "qs = butlast qs @ [last qs]" using 2(1) by simp
      then have "intf_bytes (pk_intf p) (qs @ [p]) = intf_bytes (pk_intf p) (butlast qs @ [last qs] @ [p])"
        by (metis append.assoc)
      moreover have "pk_intf (last qs) = pk_intf p" "\<forall>q \<in> set (butlast qs). pk_intf q = pk_intf p"
        using own 2(1) in_set_butlastD by fastforce+
      ultimately show ?thesis
        by (intro that[OF 2(2)])
           (auto simp: intf_bytes_append intf_bytes_def payload_append_def split: option.splits)
    qed
  qed
  have "distinct (map fst tbl')" using assms(1) by (simp add: tbl' tbl_ok_def distinct_update)
  moreover have "pk_intf q = i" if "(i, ps) \<in> set tbl'" "q \<in> set ps" for i ps q
  proof -
    have "map_of tbl' i = Some ps" using that(1) \<open>distinct (map fst tbl')\<close> by simp
    then have "(i = pk_intf p \<and> ps = rs) \<or> (i, ps) \<in> set tbl"
      using map_of_SomeD by (fastforce simp: tbl' update_conv split: if_splits)
    then show ?thesis using that(2) rs(1) assms(1) by (auto simp: tbl_ok_def)
  qed
  moreover have "intf_bytes i (case map_of tbl' i of None \<Rightarrow> [] | Some ps \<Rightarrow> ps) = intf_bytes i (pkts @ [p])" for i
  proof (cases "i = pk_intf p")
    case True
    then show ?thesis using rs(2) assms(1)
      by (simp add: tbl' update_conv intf_bytes_append tbl_ok_def qs_def)
  next
    case False
    then show ?thesis using assms(1)
      by (simp add: tbl' update_conv intf_bytes_append tbl_ok_def) (simp add: intf_bytes_def)
  qed
  ultimately show ?thesis unfolding tbl_ok_def by blast
qed

lemma reassemble_all_ok:
  "foldR reassemble_one pkts tbl = Inr tbl' \<Longrightarrow> tbl_ok done tbl \<Longrightarrow> tbl_ok (done @ pkts) tbl'"
proof (induction pkts arbitrary: tbl "done")
  case (Cons p pkts)
  then obtain t where "reassemble_one p tbl = Inr t" "foldR reassemble_one pkts t = Inr tbl'"
    by (auto simp: bindR_eq_Inr_iff)
  then show ?case using Cons.IH[of t "done @ [p]"] reassemble_one_ok Cons.prems(2) by simp
qed simp

lemma intf_bytes_concat:
  assumes "distinct (map fst tbl)" and "\<forall>(i, ps) \<in> set tbl. \<forall>p \<in> set ps. pk_intf p = i"
  shows "intf_bytes i (concat (map snd tbl)) =
    intf_bytes i (case map_of tbl i of None \<Rightarrow> [] | Some ps \<Rightarrow> ps)"
  using assms
proof (induction tbl)
  case (Cons e tbl)
  obtain k ps where e: "e = (k, ps)" by (cases e)
  have other: "intf_bytes i (concat (map snd tbl)) = intf_bytes i (case map_of tbl i of None \<Rightarrow> [] | Some ps \<Rightarrow> ps)"
    using Cons by simp
  show ?case
  proof (cases "k = i")
    case True
    then have "map_of tbl i = None" using Cons.prems(1) by (simp add: e map_of_eq_None_iff)
    then show ?thesis using other True by (simp add: e intf_bytes_append intf_bytes_def)
  next
    case False
    then have "filter (\<lambda>p. pk_intf p = i) ps = []" using Cons.prems(2) by (auto simp: e filter_empty_conv)
    then have "intf_bytes i ps = []" by (simp add: intf_bytes_def)
    then show ?thesis using other False by (simp add: e intf_bytes_append)
  qed
qed (simp add: intf_bytes_def)

text \<open>C30. Reassembling the received segments keeps, for every interface, exactly the bytes received
  there, in their order, whatever the iteration order of the hash table of interfaces.\<close>

theorem reassemble_keeps_bytes:
  assumes "reassemble_segments perm pkts = Inr out"
    and "\<And>tbl :: (nat \<times> packet list) list. mset (perm tbl) = mset tbl"
  shows "intf_bytes i out = intf_bytes i pkts"
proof -
  obtain tbl where t: "foldR reassemble_one pkts [] = Inr tbl" "out = concat (map snd (perm tbl))"
    using assms(1) by (auto simp: reassemble_segments_def bindR_eq_Inr_iff)
  have "tbl_ok ([] @ pkts) tbl"
    by (rule reassemble_all_ok[OF t(1)]) (simp add: tbl_ok_def)
  then have ok: "distinct (map fst tbl)" "\<forall>(i, ps) \<in> set tbl. \<forall>p \<in> set ps. pk_intf p = i"
      "intf_bytes i (case map_of tbl i of None \<Rightarrow> [] | Some ps \<Rightarrow> ps) = intf_bytes i pkts"
    by (auto simp: tbl_ok_def)
  have p: "set (perm tbl) = set tbl" "distinct (map fst (perm tbl))"
    using assms(2)[of tbl] ok(1) mset_eq_setD mset_eq_imp_distinct_iff[of "map fst (perm tbl)" "map fst tbl"]
    by (auto simp del: distinct_map)
  have "map_of (perm tbl) i = Some v \<longleftrightarrow> map_of tbl i = Some v" for v
    unfolding map_of_eq_Some_iff[OF p(2)] map_of_eq_Some_iff[OF ok(1)] p(1) ..
  then have "map_of (perm tbl) i = map_of tbl i"
    by (cases "map_of tbl i"; cases "map_of (perm tbl) i") auto
  then show ?thesis
    using intf_bytes_concat[OF p(2), of i] ok(2,3) p(1) t(2) by simp
qed

definition sample_segments :: "packet list" where
  "sample_segments = [sample_segment\<lparr>pk_proto_state := 0x810\<rparr>,
     sample_segment\<lparr>pk_seq := 2, pk_payload := Some [69, 84]\<rparr>]"

theorem reassemble_keeps_bytes_witness:
  "\<exists>out. reassemble_segments id sample_segments = Inr out \<and> length out = 1 \<and> intf_bytes 12 out = [71, 69, 84]"
proof -
  define out where "out = projr (reassemble_segments id sample_segments)"
  have "is_ok (reassemble_segments id sample_segments)" "length out = 1"
      "intf_bytes 12 sample_segments = [71, 69, 84]"
    unfolding out_def by code_simp+
  moreover from this have "reassemble_segments id sample_segments = Inr out" by (auto simp: out_def is_ok_iff)
  ultimately show ?thesis using reassemble_keeps_bytes[of id sample_segments out 12] by simp
qed

text \<open>Reassembly asserts that the packets it compares are TCP segments with unconverted flags:
  two packets in a row of the same flow at the same interface that are not (two UDP datagrams,
  two echo requests) abort the verifier.\<close>

theorem reassemble_same_flow_not_tcp:
  assumes "pk_intf p = pk_intf q" "pk_src_ip p = pk_src_ip q" "pk_dst_ip p = pk_dst_ip q"
    and "pk_src_port p = pk_src_port q" "pk_dst_port p = pk_dst_port q"
    and "\<not> ps_unconverted (pk_proto_state p)"
  shows "reassemble_segments perm (p # q # pkts) = Inl Assertion_failed"
  using assms
  by (simp add: reassemble_segments_def reassemble_one_def continues_segment_def
    is_tcp_ack_or_psh_ack_def Let_def)

theorem reassemble_same_flow_not_tcp_witness:
  "reassemble_segments id [mk_packet 12 0x0A000001 0x0A000002 49152 53 0 0 PS_UDP_REQ,
     (mk_packet 12 0x0A000001 0x0A000002 49152 53 0 0 PS_UDP_REQ)\<lparr>pk_payload := Some [1]\<rparr>] =
   Inl Assertion_failed"
  by (rule reassemble_same_flow_not_tcp)
     (simp_all add: mk_packet_def packet_init_def ps_unconverted_def)

section \<open>Sequence numbers\<close>

lemma check_seq_ack_next:
  assumes "ps_is_tcp (pk_proto_state p)" "\<not> pk_is_new p" "pk_next_phase p"
    and "get_proto_state_for_conn (pk_conn p) m \<le> 14"
  shows "check_seq_ack p m = Inr () \<longleftrightarrow>
    (let cs = now_conn_state (m_now m) (pk_conn p);
         sq = seq_after (cs_proto_state cs) (cs_payload cs) (cs_seq cs) in
     (pk_seq p, pk_ack p) = (if pk_opposite_dir p then (cs_ack cs, sq) else (sq, cs_ack cs)))"
proof -
  define st where "st = cs_proto_state (now_conn_state (m_now m) (pk_conn p))"
  have "st \<le> 14" using assms(4) by (simp add: st_def model_defs)
  then have "ucast (ucast st :: 8 word) = st"
  proof -
    have "unat st \<le> 14" using \<open>st \<le> 14\<close> by (simp add: word_le_nat_alt)
    then have "unat (ucast (ucast st :: 8 word) :: ps) = unat st" by (simp add: unsigned_ucast_eq unsigned_take_bit_eq take_bit_nat_eq_self)
    then show ?thesis using word_unat_eq_iff by blast
  qed
  then show ?thesis using assms(1-3) unfolding st_def
    by (simp add: check_seq_ack_def Let_def model_defs bindR_eq_Inr_iff)
qed

end
