(* ===== verification/Frames.thy ===== *)
theory Frames
  imports Received
begin

text \<open>
  Ethernet frames (\<open>src/lib/net.cpp\<close>, \<open>src/pktbuffer.cpp\<close>): \<open>Net::serialize\<close>, which builds the
  headers of a packet with libnet, and \<open>Net::deserialize\<close>, which reads the fields at fixed offsets
  of a received frame. A buffer is the list of its bytes; reading or copying past its end is
  undefined. The host is little-endian: \<open>memcpy\<close> into an integer reads the low byte first, and
  \<open>ntohs\<close>, \<open>ntohl\<close>, \<open>htonl\<close> reverse the bytes. libnet is a parameter.
\<close>

section \<open>Bytes of a buffer\<close>

type_synonym byte = "8 word"

definition read8 :: "byte list \<Rightarrow> nat \<Rightarrow> byte result" where
  "read8 b i = (if i < length b then Inr (b ! i) else Inl Undefined_behaviour)"

definition read16 :: "byte list \<Rightarrow> nat \<Rightarrow> 16 word result" where
  "read16 b i =
     bindR (read8 b i) (\<lambda>lo. bindR (read8 b (i + 1)) (\<lambda>hi. Inr (or (push_bit 8 (ucast hi)) (ucast lo))))"

definition read32 :: "byte list \<Rightarrow> nat \<Rightarrow> 32 word result" where
  "read32 b i =
     bindR (read16 b i) (\<lambda>lo. bindR (read16 b (i + 2)) (\<lambda>hi. Inr (or (push_bit 16 (ucast hi)) (ucast lo))))"

definition ntohs :: "16 word \<Rightarrow> 16 word" where
  "ntohs w = or (push_bit 8 w) (drop_bit 8 w)"

definition ntohl :: "32 word \<Rightarrow> 32 word" where
  "ntohl w = or (push_bit 16 (ucast (ntohs (ucast w)))) (ucast (ntohs (ucast (drop_bit 16 w))))"

text \<open>\<open>new uint8_t[n]\<close> and the copy of \<open>n\<close> bytes: a size that only a negative difference gives makes
  \<open>new\<close> throw.\<close>

definition copy_data :: "byte list \<Rightarrow> nat \<Rightarrow> nat \<Rightarrow> byte list result" where
  "copy_data b i n =
     (if n \<ge> 2 ^ 63 then Inl (Runtime_error ''std::bad_array_new_length'')
      else if i + n \<le> length b then Inr (take n (drop i b)) else Inl Undefined_behaviour)"

definition mem_equal :: "byte list \<Rightarrow> nat \<Rightarrow> byte list \<Rightarrow> bool result" where
  "mem_equal b i bs =
     (if i + length bs \<le> length b then Inr (take (length bs) (drop i b) = bs) else Inl Undefined_behaviour)"

section \<open>Reading a frame\<close>

definition id_eth_addr :: "byte list" where
  "id_eth_addr = [0xAA, 0xBB, 0xCC, 0xDD, 0xEE, 0xFF]"

definition store_payload :: "byte list \<Rightarrow> nat \<Rightarrow> nat \<Rightarrow> packet \<Rightarrow> packet result" where
  "store_payload b i n p =
     (if n = 0 then Inr (p\<lparr>pk_payload := None\<rparr>)
      else bindR (copy_data b i n) (\<lambda>data. Inr (p\<lparr>pk_payload := Some (payload_of_data data)\<rparr>)))"

definition parse_tcp :: "byte list \<Rightarrow> 64 word \<Rightarrow> packet \<Rightarrow> packet result" where
  "parse_tcp b buflen p =
     bindR (read16 b 34) (\<lambda>src_port.
     bindR (read16 b 36) (\<lambda>dst_port.
     let p = p\<lparr>pk_src_port := ntohs src_port, pk_dst_port := ntohs dst_port\<rparr> in
     bindR (read32 b 38) (\<lambda>sq.
     bindR (read32 b 42) (\<lambda>ak.
     let p = p\<lparr>pk_seq := ntohl sq, pk_ack := ntohl ak\<rparr> in
     bindR (read8 b 46) (\<lambda>offset.
     let offset = drop_bit 4 offset in
     bindR (read16 b 46) (\<lambda>flags.
     let flags = and (ntohs flags) 0x0fff;
         p = p\<lparr>pk_proto_state := or flags 0x800\<rparr>;
         dataoff = 34 + unat offset * 4;
         datalen = buflen - of_nat dataoff in
     store_payload b dataoff (unat datalen) p))))))"

text \<open>The length field of the UDP header is used in the byte order of the wire.\<close>

definition parse_udp :: "byte list \<Rightarrow> 64 word \<Rightarrow> packet \<Rightarrow> packet result" where
  "parse_udp b buflen p =
     bindR (read16 b 34) (\<lambda>src_port.
     bindR (read16 b 36) (\<lambda>dst_port.
     let p = p\<lparr>pk_src_port := ntohs src_port, pk_dst_port := ntohs dst_port\<rparr> in
     bindR (read16 b 38) (\<lambda>len.
     let len = len - 8;
         len = min len (ucast (buflen - 42));
         p = p\<lparr>pk_proto_state := PS_UDP_REQ\<rparr> in
     store_payload b 42 (unat len) p)))"

definition parse_icmp :: "byte list \<Rightarrow> packet \<Rightarrow> packet result" where
  "parse_icmp b p =
     bindR (read8 b 34) (\<lambda>icmp_type.
     bindR (read8 b 35) (\<lambda>_.
     if icmp_type = 8 then Inr (p\<lparr>pk_proto_state := PS_ICMP_ECHO_REQ\<rparr>)
     else if icmp_type = 0 then Inr (p\<lparr>pk_proto_state := PS_ICMP_ECHO_REP\<rparr>)
     else Inr (packet_clear p)))"

definition parse_ip :: "byte list \<Rightarrow> 64 word \<Rightarrow> packet \<Rightarrow> packet result" where
  "parse_ip b buflen p =
     bindR (read32 b 26) (\<lambda>src_ip.
     bindR (read32 b 30) (\<lambda>dst_ip.
     let p = p\<lparr>pk_src_ip := ntohl src_ip, pk_dst_ip := ntohl dst_ip\<rparr> in
     bindR (read8 b 23) (\<lambda>ip_proto.
     if ip_proto = 6 then parse_tcp b buflen p
     else if ip_proto = 17 then parse_udp b buflen p
     else if ip_proto = 1 then parse_icmp b p
     else Inr (packet_clear p))))"

definition deserialize :: "byte list \<Rightarrow> 64 word \<Rightarrow> packet \<Rightarrow> packet result" where
  "deserialize b buflen p =
     bindR (mem_equal b 0 id_eth_addr) (\<lambda>to_us.
     bindR (if to_us then Inr True else mem_equal b 6 id_eth_addr) (\<lambda>ours.
     if \<not> ours then Inr (packet_clear p)
     else
       let p = packet_clear p in
       bindR (read16 b 12) (\<lambda>ethertype.
       if ntohs ethertype = 0x0800 then parse_ip b buflen p else Inr (packet_clear p))))"

record pkt_buffer =
  pb_intf :: nat
  pb_buffer :: "byte list"
  pb_len :: "64 word"

definition deserialize_buffer :: "pkt_buffer \<Rightarrow> packet \<Rightarrow> packet result" where
  "deserialize_buffer pb p =
     bindR (deserialize (pb_buffer pb) (pb_len pb) p) (\<lambda>p.
     Inr (if \<not> packet_empty p then p\<lparr>pk_intf := pb_intf pb\<rparr> else p))"

section \<open>Building a frame\<close>

text \<open>The headers handed to libnet; a checksum of 0 is filled in by it, addresses of the IPv4 header
  are in network byte order.\<close>

record tcp_hdr =
  th_sp :: "16 word"
  th_dp :: "16 word"
  th_seq :: "32 word"
  th_ack :: "32 word"
  th_control :: byte
  th_win :: "16 word"
  th_urg :: "16 word"
  th_len :: "16 word"
  th_payload :: "byte list"

record udp_hdr =
  uh_sp :: "16 word"
  uh_dp :: "16 word"
  uh_len :: "16 word"
  uh_payload :: "byte list"

record icmp_hdr =
  ih_type :: byte
  ih_code :: byte
  ih_id :: "16 word"
  ih_seq :: "16 word"

record ip_hdr =
  ip_len :: "16 word"
  ip_tos :: byte
  ip_id :: "16 word"
  ip_frag :: "16 word"
  ip_ttl :: byte
  ip_prot :: byte
  ip_src :: "32 word"
  ip_dst :: "32 word"

record eth_hdr =
  eh_dst :: "byte list"
  eh_src :: "byte list"
  eh_type :: "16 word"

record 'l libnet =
  build_tcp_hdr :: "tcp_hdr \<Rightarrow> 'l \<Rightarrow> int \<times> 'l"
  build_udp_hdr :: "udp_hdr \<Rightarrow> 'l \<Rightarrow> int \<times> 'l"
  build_icmp_hdr :: "icmp_hdr \<Rightarrow> 'l \<Rightarrow> int \<times> 'l"
  build_ip_hdr :: "ip_hdr \<Rightarrow> 'l \<Rightarrow> int \<times> 'l"
  build_eth_hdr :: "eth_hdr \<Rightarrow> 'l \<Rightarrow> int \<times> 'l"
  cull_packet :: "'l \<Rightarrow> int \<times> byte list \<times> 'l"
  clear_packet :: "'l \<Rightarrow> 'l"

text \<open>A negative tag is an error.\<close>

definition tagged :: "string \<Rightarrow> int \<times> 'l \<Rightarrow> 'l result" where
  "tagged err = (\<lambda>(tag, l). if tag < 0 then Inl (Runtime_error err) else Inr l)"

definition ipv4_header :: "16 word \<Rightarrow> 16 word \<Rightarrow> byte \<Rightarrow> packet \<Rightarrow> ip_hdr" where
  "ipv4_header len ident prot p =
     \<lparr>ip_len = len, ip_tos = 0, ip_id = ident, ip_frag = 0, ip_ttl = 64, ip_prot = prot,
      ip_src = ntohl (pk_src_ip p), ip_dst = ntohl (pk_dst_ip p)\<rparr>"

definition payload_bytes :: "packet \<Rightarrow> byte list" where
  "payload_bytes p = (case pk_payload p of None \<Rightarrow> [] | Some pl \<Rightarrow> pl)"

definition build_tcp :: "'l libnet \<Rightarrow> packet \<Rightarrow> byte list \<Rightarrow> byte list \<Rightarrow> 'l \<Rightarrow> 'l result" where
  "build_tcp ln p src_mac dst_mac l =
     (let payload = payload_bytes p; size = of_nat (length payload) in
      bindR (tagged ''Can't build TCP header: ''
        (build_tcp_hdr ln \<lparr>th_sp = pk_src_port p, th_dp = pk_dst_port p, th_seq = pk_seq p,
           th_ack = pk_ack p, th_control = tcp_ctrl_flags (pk_proto_state p), th_win = 65535,
           th_urg = 0, th_len = 20 + size, th_payload = payload\<rparr> l)) (\<lambda>l.
      bindR (tagged ''Can't build IP header: ''
        (build_ip_hdr ln (ipv4_header (20 + 20 + size) 242 6 p) l)) (\<lambda>l.
      tagged ''Can't build ethernet header: ''
        (build_eth_hdr ln \<lparr>eh_dst = dst_mac, eh_src = src_mac, eh_type = 0x0800\<rparr> l))))"

definition build_udp :: "'l libnet \<Rightarrow> packet \<Rightarrow> byte list \<Rightarrow> byte list \<Rightarrow> 'l \<Rightarrow> 'l result" where
  "build_udp ln p src_mac dst_mac l =
     (let payload = payload_bytes p; size = of_nat (length payload) in
      bindR (tagged ''Can't build UDP header: ''
        (build_udp_hdr ln \<lparr>uh_sp = pk_src_port p, uh_dp = pk_dst_port p, uh_len = 8 + size,
           uh_payload = payload\<rparr> l)) (\<lambda>l.
      bindR (tagged ''Can't build IP header: ''
        (build_ip_hdr ln (ipv4_header (20 + 8 + size) 242 17 p) l)) (\<lambda>l.
      tagged ''Can't build ethernet header: ''
        (build_eth_hdr ln \<lparr>eh_dst = dst_mac, eh_src = src_mac, eh_type = 0x0800\<rparr> l))))"

definition build_icmp_echo :: "'l libnet \<Rightarrow> packet \<Rightarrow> byte list \<Rightarrow> byte list \<Rightarrow> 'l \<Rightarrow> 'l result" where
  "build_icmp_echo ln p src_mac dst_mac l =
     bindR (if pk_proto_state p = PS_ICMP_ECHO_REQ then Inr 8
       else if pk_proto_state p = PS_ICMP_ECHO_REP then Inr 0
       else Inl (Runtime_error ''proto_state is not related to ICMP echo'')) (\<lambda>icmp_type.
     bindR (tagged ''Can't build TCP header: ''
       (build_icmp_hdr ln \<lparr>ih_type = icmp_type, ih_code = 0, ih_id = 42, ih_seq = 0\<rparr> l)) (\<lambda>l.
     bindR (tagged ''Can't build IP header: ''
       (build_ip_hdr ln (ipv4_header (20 + 8) 42 1 p) l)) (\<lambda>l.
     tagged ''Can't build ethernet header: ''
       (build_eth_hdr ln \<lparr>eh_dst = dst_mac, eh_src = src_mac, eh_type = 0x0800\<rparr> l))))"

definition serialize ::
    "'l libnet \<Rightarrow> packet \<Rightarrow> byte list \<Rightarrow> byte list \<Rightarrow> 'l \<Rightarrow> (byte list \<times> 'l) result" where
  "serialize ln p src_mac dst_mac l =
     bindR (if ps_is_tcp (pk_proto_state p) then build_tcp ln p src_mac dst_mac l
       else if ps_is_udp (pk_proto_state p) then build_udp ln p src_mac dst_mac l
       else if ps_is_icmp_echo (pk_proto_state p) then build_icmp_echo ln p src_mac dst_mac l
       else Inl (Runtime_error ''Unsupported packet state '')) (\<lambda>l.
     let (r, b, l) = cull_packet ln l in
     if r < 0 then Inl (Runtime_error ''libnet_adv_cull_packet() failed: '')
     else Inr (b, clear_packet ln l))"

section \<open>Byte order\<close>

definition be16 :: "16 word \<Rightarrow> byte list" where
  "be16 w = [ucast (drop_bit 8 w), ucast w]"

definition be32 :: "32 word \<Rightarrow> byte list" where
  "be32 w = be16 (ucast (drop_bit 16 w)) @ be16 (ucast w)"

definition le32 :: "32 word \<Rightarrow> byte list" where
  "le32 w = rev (be32 w)"

lemma ntohs_ntohs [simp]: "ntohs (ntohs w) = w"
  by (rule bit_word_eqI) (auto simp: ntohs_def bit_simps dest: bit_imp_le_length)

lemma ntohs_bytes: "or (push_bit 8 (ucast (ucast w :: byte))) (ucast (ucast (drop_bit 8 w) :: byte)) = ntohs w"
  for w :: "16 word"
  by (rule bit_word_eqI) (auto simp: ntohs_def bit_simps dest: bit_imp_le_length)

lemma ntohl_ntohl [simp]: "ntohl (ntohl w) = w"
proof -
  have lo: "ucast (ntohl w) = ntohs (ucast (drop_bit 16 w))" for w
    by (rule bit_word_eqI) (auto simp: ntohl_def bit_simps dest: bit_imp_le_length)
  have hi: "ucast (drop_bit 16 (ntohl w)) = ntohs (ucast w)" for w
    by (rule bit_word_eqI) (auto simp: ntohl_def bit_simps dest: bit_imp_le_length)
  have "ntohl (ntohl w) = or (push_bit 16 (ucast (ucast (drop_bit 16 w) :: 16 word))) (ucast (ucast w :: 16 word))"
    by (subst ntohl_def) (simp add: lo hi)
  also have "\<dots> = w" by (rule bit_word_eqI) (auto simp: bit_simps dest: bit_imp_le_length)
  finally show ?thesis .
qed

lemma read16_be:
  assumes "take 2 (drop i b) = be16 w" "i + 2 \<le> length b"
  shows "read16 b i = Inr (ntohs w)"
proof -
  have "b ! i = take 2 (drop i b) ! 0" "b ! (i + 1) = take 2 (drop i b) ! 1" using assms(2) by simp_all
  then have "b ! i = ucast (drop_bit 8 w)" "b ! (i + 1) = ucast w" unfolding assms(1) by (simp_all add: be16_def)
  then show ?thesis using assms(2) ntohs_bytes[of w] by (simp add: read16_def read8_def)
qed

lemma read32_halves:
  assumes "take 4 (drop i b) = be16 v @ be16 w" "i + 4 \<le> length b"
  shows "read32 b i = Inr (or (push_bit 16 (ucast (ntohs w))) (ucast (ntohs v)))"
proof -
  have "take 2 (drop i b) = take 2 (take 4 (drop i b))" by simp
  then have 1: "take 2 (drop i b) = be16 v" unfolding assms(1) by (simp add: be16_def)
  have "take 2 (drop (i + 2) b) = drop 2 (take 4 (drop i b))" by (simp add: drop_take add.commute)
  then have 2: "take 2 (drop (i + 2) b) = be16 w" unfolding assms(1) by (simp add: be16_def)
  show ?thesis using read16_be[OF 1] read16_be[OF 2] assms(2) by (simp add: read32_def)
qed

lemma read32_be:
  assumes "take 4 (drop i b) = be32 w" "i + 4 \<le> length b"
  shows "read32 b i = Inr (ntohl w)"
  using read32_halves[OF assms(1)[unfolded be32_def] assms(2)] by (simp add: ntohl_def)

lemma le32_ntohl: "le32 (ntohl w) = be32 w"
proof -
  have b: "(ucast (drop_bit 8 (ntohs x)) :: byte) = ucast x" "(ucast (ntohs x) :: byte) = ucast (drop_bit 8 x)" for x
    by (rule bit_word_eqI; auto simp: ntohs_def bit_simps dest: bit_imp_le_length)+
  have lo: "ucast (ntohl w) = ntohs (ucast (drop_bit 16 w))"
    by (rule bit_word_eqI) (auto simp: ntohl_def bit_simps dest: bit_imp_le_length)
  have hi: "ucast (drop_bit 16 (ntohl w)) = ntohs (ucast w)"
    by (rule bit_word_eqI) (auto simp: ntohl_def bit_simps dest: bit_imp_le_length)
  show ?thesis by (simp add: le32_def be32_def lo hi) (simp add: be16_def b)
qed

section \<open>The format of a frame\<close>

text \<open>The headers on the wire, with the checksum libnet has filled in.\<close>

datatype header = Tcp_hdr tcp_hdr | Udp_hdr udp_hdr | Icmp_hdr icmp_hdr | Ip_hdr ip_hdr | Eth_hdr eth_hdr

fun header_bytes :: "16 word \<Rightarrow> header \<Rightarrow> byte list" where
  "header_bytes ck (Tcp_hdr h) = be16 (th_sp h) @ be16 (th_dp h) @ be32 (th_seq h) @ be32 (th_ack h)
     @ [0x50, th_control h] @ be16 (th_win h) @ be16 ck @ be16 (th_urg h) @ th_payload h"
| "header_bytes ck (Udp_hdr h) = be16 (uh_sp h) @ be16 (uh_dp h) @ be16 (uh_len h) @ be16 ck @ uh_payload h"
| "header_bytes ck (Icmp_hdr h) = [ih_type h, ih_code h] @ be16 ck @ be16 (ih_id h) @ be16 (ih_seq h)"
| "header_bytes ck (Ip_hdr h) = [0x45, ip_tos h] @ be16 (ip_len h) @ be16 (ip_id h) @ be16 (ip_frag h)
     @ [ip_ttl h, ip_prot h] @ be16 ck @ le32 (ip_src h) @ le32 (ip_dst h)"
| "header_bytes ck (Eth_hdr h) = eh_dst h @ eh_src h @ be16 (eh_type h)"

text \<open>What libnet documents: each \<open>build\<close> function puts its header in front of what the context
  holds or returns a negative tag, and \<open>libnet_adv_cull_packet\<close> returns the bytes of the headers in
  the context, checksums filled in, or a negative number; \<open>hdrs\<close> reads the context.\<close>

definition libnet_ok :: "('l \<Rightarrow> header list) \<Rightarrow> 'l libnet \<Rightarrow> bool" where
  "libnet_ok hdrs ln \<longleftrightarrow>
     (\<forall>h l. 0 \<le> fst (build_tcp_hdr ln h l) \<longrightarrow> hdrs (snd (build_tcp_hdr ln h l)) = Tcp_hdr h # hdrs l)
   \<and> (\<forall>h l. 0 \<le> fst (build_udp_hdr ln h l) \<longrightarrow> hdrs (snd (build_udp_hdr ln h l)) = Udp_hdr h # hdrs l)
   \<and> (\<forall>h l. 0 \<le> fst (build_icmp_hdr ln h l) \<longrightarrow> hdrs (snd (build_icmp_hdr ln h l)) = Icmp_hdr h # hdrs l)
   \<and> (\<forall>h l. 0 \<le> fst (build_ip_hdr ln h l) \<longrightarrow> hdrs (snd (build_ip_hdr ln h l)) = Ip_hdr h # hdrs l)
   \<and> (\<forall>h l. 0 \<le> fst (build_eth_hdr ln h l) \<longrightarrow> hdrs (snd (build_eth_hdr ln h l)) = Eth_hdr h # hdrs l)
   \<and> (\<forall>l. 0 \<le> fst (cull_packet ln l) \<longrightarrow>
        (\<exists>cks. length cks = length (hdrs l) \<and> fst (snd (cull_packet ln l)) = concat (map2 header_bytes cks (hdrs l))))
   \<and> (\<forall>l. hdrs (clear_packet ln l) = [])"

lemma tagged_ok: "tagged e r = Inr l \<longleftrightarrow> 0 \<le> fst r \<and> snd r = l"
  by (cases r) (auto simp: tagged_def)

text \<open>The bytes a packet is serialized to.\<close>

definition frame_bytes :: "16 word \<Rightarrow> 16 word \<Rightarrow> byte list \<Rightarrow> byte list \<Rightarrow> ip_hdr \<Rightarrow> header \<Rightarrow> byte list" where
  "frame_bytes c1 c2 src dst ih h =
     dst @ src @ be16 0x0800 @ header_bytes c1 (Ip_hdr ih) @ header_bytes c2 h"

lemma cull_frame:
  assumes "libnet_ok hdrs ln" "hdrs l = [Eth_hdr \<lparr>eh_dst = dst, eh_src = src, eh_type = 0x0800\<rparr>, Ip_hdr ih, h]"
    and "cull_packet ln l = (r, b, l')" "0 \<le> r"
  shows "\<exists>c1 c2. b = frame_bytes c1 c2 src dst ih h"
proof -
  obtain cks where cks: "length cks = length (hdrs l)" "b = concat (map2 header_bytes cks (hdrs l))"
  proof -
    have "0 \<le> fst (cull_packet ln l)" using assms(3,4) by simp
    then show thesis using assms(1,3) that unfolding libnet_ok_def by (metis fst_conv snd_conv)
  qed
  then obtain c0 c1 c2 where "cks = [c0, c1, c2]"
    using assms(2) by (auto simp: length_Suc_conv numeral_3_eq_3)
  then have "b = frame_bytes c1 c2 src dst ih h" using cks(2) assms(2) by (simp add: frame_bytes_def)
  then show ?thesis by blast
qed

lemma mac_cases: "length m = 6 \<Longrightarrow> \<exists>a b c d e f. m = [a, b, c, d, e, f :: byte]"
  by (auto simp: length_Suc_conv eval_nat_numeral)

lemma le32_ip: "le32 (ip_src (ipv4_header len i pr p)) = be32 (pk_src_ip p)"
    "le32 (ip_dst (ipv4_header len i pr p)) = be32 (pk_dst_ip p)"
  by (simp_all add: ipv4_header_def le32_ntohl)

text \<open>The fields of the Ethernet and IPv4 headers, at the offsets where they are read.\<close>

lemma frame_header:
  assumes "length src = 6" "length dst = 6" "length (header_bytes c2 h) \<ge> 8"
    and B: "B = frame_bytes c1 c2 src dst (ipv4_header len i pr p) h @ rest"
  shows "take 6 (drop 0 B) = dst" "take 6 (drop 6 B) = src" "take 2 (drop 12 B) = be16 0x0800"
    "take 4 (drop 26 B) = be32 (pk_src_ip p)" "take 4 (drop 30 B) = be32 (pk_dst_ip p)"
    "read8 B 23 = Inr pr" "length B = 34 + length (header_bytes c2 h) + length rest"
    "drop 34 B = header_bytes c2 h @ rest" "42 \<le> length B"
proof -
  obtain a1 a2 a3 a4 a5 a6 where s: "src = [a1, a2, a3, a4, a5, a6]" using mac_cases[OF assms(1)] by blast
  obtain b1 b2 b3 b4 b5 b6 where d: "dst = [b1, b2, b3, b4, b5, b6]" using mac_cases[OF assms(2)] by blast
  show "length B = 34 + length (header_bytes c2 h) + length rest"
    by (simp add: B frame_bytes_def s d be16_def be32_def le32_ip)
  then show "42 \<le> length B" using assms(3) by simp
  show "take 6 (drop 0 B) = dst" "take 6 (drop 6 B) = src" "take 2 (drop 12 B) = be16 0x0800"
    "take 4 (drop 26 B) = be32 (pk_src_ip p)" "take 4 (drop 30 B) = be32 (pk_dst_ip p)"
    "drop 34 B = header_bytes c2 h @ rest"
    by (simp_all add: B frame_bytes_def s d be16_def be32_def le32_ip)
  show "read8 B 23 = Inr pr"
    by (simp add: read8_def B frame_bytes_def s d be16_def be32_def le32_ip) (simp add: ipv4_header_def)
qed

lemma ours_frame:
  assumes "length src = 6" "length dst = 6" "length (header_bytes c2 h) \<ge> 8"
    and "src = id_eth_addr \<or> dst = id_eth_addr"
    and "B = frame_bytes c1 c2 src dst (ipv4_header len i pr p) h @ rest"
  shows "deserialize B n q = (let q = (packet_clear q)\<lparr>pk_src_ip := pk_src_ip p, pk_dst_ip := pk_dst_ip p\<rparr> in
     if pr = 6 then parse_tcp B n q else if pr = 17 then parse_udp B n q
     else if pr = 1 then parse_icmp B q else Inr (packet_clear q))"
proof -
  note f = frame_header[OF assms(1-3,5)]
  have l: "length id_eth_addr = 6" by (simp add: id_eth_addr_def)
  have m: "mem_equal B 0 id_eth_addr = Inr (dst = id_eth_addr)" "mem_equal B 6 id_eth_addr = Inr (src = id_eth_addr)"
    using f(9) unfolding mem_equal_def l f(1,2) by simp_all
  have e: "read16 B 12 = Inr (ntohs 0x0800)" using read16_be[OF f(3)] f(9) by simp
  have ip: "read32 B 26 = Inr (ntohl (pk_src_ip p))" "read32 B 30 = Inr (ntohl (pk_dst_ip p))"
    using read32_be[OF f(4)] read32_be[OF f(5)] f(9) by simp_all
  show ?thesis using assms(4)
    by (auto simp: deserialize_def m e ip parse_ip_def f(6) Let_def)
qed

lemma datalen_eq:
  assumes "n < 2 ^ 16" "k < 2 ^ 16"
  shows "(of_nat (k + n) :: 64 word) - of_nat k = of_nat n" "unat (of_nat n :: 64 word) = n"
    "(of_nat n :: 64 word) = 0 \<longleftrightarrow> n = 0"
proof -
  have "n < 2 ^ 64" using assms(1) by simp
  then show u: "unat (of_nat n :: 64 word) = n" by (simp add: unat_of_nat take_bit_nat_eq_self)
  show "(of_nat (k + n) :: 64 word) - of_nat k = of_nat n" by simp
  show "(of_nat n :: 64 word) = 0 \<longleftrightarrow> n = 0" using arg_cong[where f = unat, of "of_nat n :: 64 word" 0] u by auto
qed

lemma tcp_frame_parse:
  assumes "B = frame_bytes c1 c2 src dst ih (Tcp_hdr h) @ rest"
    and "drop 34 B = header_bytes c2 (Tcp_hdr h) @ rest" "length B = 34 + length (header_bytes c2 (Tcp_hdr h)) + length rest"
    and "length (th_payload h) \<le> 1460"
  shows "parse_tcp B (of_nat (54 + length (th_payload h))) q = Inr (q\<lparr>pk_src_port := th_sp h, pk_dst_port := th_dp h,
     pk_seq := th_seq h, pk_ack := th_ack h, pk_proto_state := or (ucast (th_control h)) 0x800,
     pk_payload := (if th_payload h = [] then None else Some (th_payload h))\<rparr>)"
proof -
  have d: "drop (34 + k) B = drop k (header_bytes c2 (Tcp_hdr h) @ rest)" for k
    using assms(2) by (metis add.commute drop_drop)
  have l: "length B = 54 + length (th_payload h) + length rest"
    using assms(3) by (simp add: be16_def be32_def)
  have ports: "take 2 (drop 34 B) = be16 (th_sp h)" "take 2 (drop 36 B) = be16 (th_dp h)"
      "take 4 (drop 38 B) = be32 (th_seq h)" "take 4 (drop 42 B) = be32 (th_ack h)"
      "drop 54 B = th_payload h @ rest"
    using d[of 0] d[of 2] d[of 4] d[of 8] d[of 20] by (simp_all add: be16_def be32_def)
  have off: "B ! 46 = 0x50" "B ! 47 = th_control h"
    using d[of 12] nth_drop[of 46 B 0] nth_drop[of 46 B 1] l by (simp_all add: be16_def be32_def)
  have r: "read16 B 34 = Inr (ntohs (th_sp h))" "read16 B 36 = Inr (ntohs (th_dp h))"
      "read32 B 38 = Inr (ntohl (th_seq h))" "read32 B 42 = Inr (ntohl (th_ack h))"
      "read8 B 46 = Inr 0x50"
    using read16_be[OF ports(1)] read16_be[OF ports(2)] read32_be[OF ports(3)] read32_be[OF ports(4)] l off
    by (simp_all add: read8_def)
  have f: "read16 B 46 = Inr (or (push_bit 8 (ucast (th_control h))) 0x50)"
    using l off by (simp add: read16_def read8_def)
  have fl: "and (ntohs (or (push_bit 8 (ucast (th_control h))) 0x50)) 0x0fff = ucast (th_control h)"
  proof -
    have "ntohs (or (push_bit 8 (ucast c)) 0x50) = or 0x5000 (ucast c)" for c :: byte
    proof -
      have "ntohs (or (push_bit 8 (ucast c)) 0x50) = or (ntohs 0x50) (ntohs (push_bit 8 (ucast c)))"
        by (rule bit_word_eqI) (auto simp: ntohs_def bit_simps dest: bit_imp_le_length)
      moreover have "ntohs (push_bit 8 (ucast c)) = ucast c"
        by (rule bit_word_eqI) (auto simp: ntohs_def bit_simps dest: bit_imp_le_length)
      moreover have "ntohs 0x50 = 0x5000" by code_simp
      ultimately show ?thesis by simp
    qed
    moreover have "and (or 0x5000 (ucast c)) 0x0fff = (ucast c :: 16 word)" for c :: byte
    proof -
      have dist: "and (or x y) z = or (and x z) (and y z)" for x y z :: "16 word"
        by (rule bit_word_eqI) (auto simp: bit_simps)
      have z: "and 0x5000 (0x0fff :: 16 word) = 0" by code_simp
      have m: "(0x0fff :: 16 word) = mask 12" by code_simp
      have "and (ucast c) (0x0fff :: 16 word) = ucast c" unfolding m
        by (rule bit_word_eqI) (auto simp: bit_simps dest: bit_imp_le_length)
      then show ?thesis unfolding dist z by simp
    qed
    ultimately show ?thesis by simp
  qed
  have off4: "34 + unat (drop_bit 4 (0x50 :: byte)) * 4 = 54" by code_simp
  have n: "length (th_payload h) < 2 ^ 16" using assms(4) by simp
  have dl: "(of_nat (54 + length (th_payload h)) :: 64 word) - of_nat 54 = of_nat (length (th_payload h))"
      "unat (of_nat (length (th_payload h)) :: 64 word) = length (th_payload h)"
      "(of_nat (length (th_payload h)) :: 64 word) = 0 \<longleftrightarrow> th_payload h = []"
    using datalen_eq[OF n, of 54] by simp_all
  have cp: "copy_data B 54 (length (th_payload h)) = Inr (th_payload h)"
    using n l ports(5) by (simp add: copy_data_def)
  show ?thesis unfolding parse_tcp_def r f bindR_Inr Let_def fl off4 dl
    using cp by (simp add: payload_of_data_def store_payload_def)
qed

section \<open>Round trips\<close>

lemma serialize_tcp:
  assumes "libnet_ok hdrs ln" "hdrs l = []" "serialize ln p src dst l = Inr (b, l')"
    and "ps_is_tcp (pk_proto_state p)"
  shows "\<exists>c1 c2 h. b = frame_bytes c1 c2 src dst (ipv4_header (20 + 20 + of_nat (length (payload_bytes p))) 242 6 p) (Tcp_hdr h)
    \<and> th_sp h = pk_src_port p \<and> th_dp h = pk_dst_port p \<and> th_seq h = pk_seq p \<and> th_ack h = pk_ack p
    \<and> th_control h = tcp_ctrl_flags (pk_proto_state p) \<and> th_payload h = payload_bytes p"
proof -
  define th where "th = \<lparr>th_sp = pk_src_port p, th_dp = pk_dst_port p, th_seq = pk_seq p,
           th_ack = pk_ack p, th_control = tcp_ctrl_flags (pk_proto_state p), th_win = 65535,
           th_urg = 0, th_len = 20 + of_nat (length (payload_bytes p)), th_payload = payload_bytes p\<rparr>"
  define ih where "ih = ipv4_header (20 + 20 + of_nat (length (payload_bytes p))) 242 6 p"
  define eh where "eh = \<lparr>eh_dst = dst, eh_src = src, eh_type = 0x0800\<rparr>"
  obtain l3 where l3: "build_tcp ln p src dst l = Inr l3"
    and c: "(let (r, b, l) = cull_packet ln l3 in
       if r < 0 then Inl (Runtime_error ''libnet_adv_cull_packet() failed: '')
       else Inr (b, clear_packet ln l)) = Inr (b, l')"
    using assms(3,4) by (auto simp: serialize_def bindR_eq_Inr_iff)
  obtain l1 l2 where s: "0 \<le> fst (build_tcp_hdr ln th l)" "snd (build_tcp_hdr ln th l) = l1"
      "0 \<le> fst (build_ip_hdr ln ih l1)" "snd (build_ip_hdr ln ih l1) = l2"
      "0 \<le> fst (build_eth_hdr ln eh l2)" "snd (build_eth_hdr ln eh l2) = l3"
    using l3 unfolding build_tcp_def Let_def th_def[symmetric] ih_def[symmetric] eh_def[symmetric]
    by (auto simp: bindR_eq_Inr_iff tagged_ok)
  have h: "hdrs l3 = [Eth_hdr eh, Ip_hdr ih, Tcp_hdr th]"
    using assms(1,2) s unfolding libnet_ok_def by metis
  obtain r l4 where r: "cull_packet ln l3 = (r, b, l4)" "0 \<le> r"
    using c by (cases "cull_packet ln l3") (auto simp: Let_def split: if_splits)
  from cull_frame[OF assms(1) h[unfolded eh_def] r] obtain c1 c2 where
    "b = frame_bytes c1 c2 src dst ih (Tcp_hdr th)" by blast
  then show ?thesis unfolding ih_def
    by (intro exI[of _ c1] exI[of _ c2] exI[of _ th]) (simp add: th_def)
qed

lemma serialize_udp:
  assumes "libnet_ok hdrs ln" "hdrs l = []" "serialize ln p src dst l = Inr (b, l')"
    and "ps_is_udp (pk_proto_state p)" "\<not> ps_is_tcp (pk_proto_state p)"
  shows "\<exists>c1 c2 h. b = frame_bytes c1 c2 src dst (ipv4_header (20 + 8 + of_nat (length (payload_bytes p))) 242 17 p) (Udp_hdr h)
    \<and> uh_sp h = pk_src_port p \<and> uh_dp h = pk_dst_port p \<and> uh_len h = 8 + of_nat (length (payload_bytes p))
    \<and> uh_payload h = payload_bytes p"
proof -
  define uh where "uh = \<lparr>uh_sp = pk_src_port p, uh_dp = pk_dst_port p,
     uh_len = 8 + of_nat (length (payload_bytes p)), uh_payload = payload_bytes p\<rparr>"
  define ih where "ih = ipv4_header (20 + 8 + of_nat (length (payload_bytes p))) 242 17 p"
  define eh where "eh = \<lparr>eh_dst = dst, eh_src = src, eh_type = 0x0800\<rparr>"
  obtain l3 where l3: "build_udp ln p src dst l = Inr l3"
    and c: "(let (r, b, l) = cull_packet ln l3 in
       if r < 0 then Inl (Runtime_error ''libnet_adv_cull_packet() failed: '')
       else Inr (b, clear_packet ln l)) = Inr (b, l')"
    using assms(3-5) by (auto simp: serialize_def bindR_eq_Inr_iff)
  obtain l1 l2 where s: "0 \<le> fst (build_udp_hdr ln uh l)" "snd (build_udp_hdr ln uh l) = l1"
      "0 \<le> fst (build_ip_hdr ln ih l1)" "snd (build_ip_hdr ln ih l1) = l2"
      "0 \<le> fst (build_eth_hdr ln eh l2)" "snd (build_eth_hdr ln eh l2) = l3"
    using l3 unfolding build_udp_def Let_def uh_def[symmetric] ih_def[symmetric] eh_def[symmetric]
    by (auto simp: bindR_eq_Inr_iff tagged_ok)
  have h: "hdrs l3 = [Eth_hdr eh, Ip_hdr ih, Udp_hdr uh]"
    using assms(1,2) s unfolding libnet_ok_def by metis
  obtain r l4 where r: "cull_packet ln l3 = (r, b, l4)" "0 \<le> r"
    using c by (cases "cull_packet ln l3") (auto simp: Let_def split: if_splits)
  from cull_frame[OF assms(1) h[unfolded eh_def] r] obtain c1 c2 where
    "b = frame_bytes c1 c2 src dst ih (Udp_hdr uh)" by blast
  then show ?thesis unfolding ih_def
    by (intro exI[of _ c1] exI[of _ c2] exI[of _ uh]) (simp add: uh_def)
qed

lemma udp_frame_parse:
  assumes "drop 34 B = header_bytes c2 (Udp_hdr h) @ rest" "length B = 34 + length (header_bytes c2 (Udp_hdr h)) + length rest"
    and "length (uh_payload h) \<le> 1472"
  shows "parse_udp B (of_nat (42 + length (uh_payload h))) q = Inr (q\<lparr>pk_src_port := uh_sp h, pk_dst_port := uh_dp h,
     pk_proto_state := PS_UDP_REQ,
     pk_payload := (let n = min (unat (ntohs (uh_len h) - 8)) (length (uh_payload h)) in
       if n = 0 then None else Some (take n (uh_payload h)))\<rparr>)"
proof -
  have d: "drop (34 + k) B = drop k (header_bytes c2 (Udp_hdr h) @ rest)" for k
    using assms(1) by (metis add.commute drop_drop)
  have l: "length B = 42 + length (uh_payload h) + length rest"
    using assms(2) by (simp add: be16_def)
  have f: "take 2 (drop 34 B) = be16 (uh_sp h)" "take 2 (drop 36 B) = be16 (uh_dp h)"
      "take 2 (drop 38 B) = be16 (uh_len h)" "drop 42 B = uh_payload h @ rest"
    using d[of 0] d[of 2] d[of 4] d[of 8] by (simp_all add: be16_def)
  have r: "read16 B 34 = Inr (ntohs (uh_sp h))" "read16 B 36 = Inr (ntohs (uh_dp h))"
      "read16 B 38 = Inr (ntohs (uh_len h))"
    using read16_be[OF f(1)] read16_be[OF f(2)] read16_be[OF f(3)] l by simp_all
  let ?n = "length (uh_payload h)" and ?w = "ntohs (uh_len h) - 8"
  have n: "?n < 2 ^ 16" using assms(3) by simp
  have u: "unat (of_nat ?n :: 16 word) = ?n" using n by (simp add: unat_of_nat take_bit_nat_eq_self)
  have "(of_nat (42 + ?n) :: 64 word) - 42 = of_nat ?n" by simp
  moreover have "(of_nat ?n :: 16 word) = of_nat (unat (of_nat ?n :: 64 word))"
    using datalen_eq(2)[OF n, of 42] by simp
  ultimately have "ucast ((of_nat (42 + ?n) :: 64 word) - 42) = (of_nat ?n :: 16 word)"
    by (simp only: of_nat_unat)
  then have m: "min ?w (ucast ((of_nat (42 + ?n) :: 64 word) - 42)) = min ?w (of_nat ?n)" by simp
  have um: "unat (min ?w (of_nat ?n)) = min (unat ?w) ?n"
    using u by (simp add: min_def word_le_nat_alt)
  have z: "min ?w (of_nat ?n) = 0 \<longleftrightarrow> min (unat ?w) ?n = 0"
    using um by (metis unat_eq_0)
  have cp: "copy_data B 42 k = Inr (take k (uh_payload h))" if "k \<le> ?n" for k
    using that n l f(4) by (simp add: copy_data_def)
  show ?thesis unfolding parse_udp_def r bindR_Inr Let_def m um z
    using cp[of "min (unat ?w) ?n"] by (simp add: payload_of_data_def store_payload_def del: of_nat_add)
qed

text \<open>C18. A TCP packet that Neo serializes for an emulated middlebox is read back from the frame with
  the same addresses, ports, sequence and acknowledgement numbers and payload, for every payload an
  Ethernet frame can hold and whatever bytes follow the frame in the buffer; its protocol state is
  the flags of the segment, marked as not yet converted.\<close>

theorem tcp_frame_roundtrip:
  assumes "libnet_ok hdrs ln" "hdrs l = []" "serialize ln p src dst l = Inr (b, l')"
    and "ps_is_tcp (pk_proto_state p)" "length src = 6" "length dst = 6"
    and "src = id_eth_addr \<or> dst = id_eth_addr"
    and "length (payload_bytes p) \<le> 1460" "pk_payload p \<noteq> Some []"
  shows "deserialize (b @ rest) (of_nat (length b)) q = Inr (q\<lparr>pk_intf := 0, pk_src_ip := pk_src_ip p,
    pk_dst_ip := pk_dst_ip p, pk_src_port := pk_src_port p, pk_dst_port := pk_dst_port p,
    pk_seq := pk_seq p, pk_ack := pk_ack p, pk_proto_state := unconverted_state (pk_proto_state p),
    pk_payload := pk_payload p\<rparr>)"
proof -
  obtain c1 c2 h where b: "b = frame_bytes c1 c2 src dst (ipv4_header (20 + 20 + of_nat (length (payload_bytes p))) 242 6 p) (Tcp_hdr h)"
    and h: "th_sp h = pk_src_port p" "th_dp h = pk_dst_port p" "th_seq h = pk_seq p" "th_ack h = pk_ack p"
      "th_control h = tcp_ctrl_flags (pk_proto_state p)" "th_payload h = payload_bytes p"
    using serialize_tcp[OF assms(1-4)] by blast
  have l8: "8 \<le> length (header_bytes c2 (Tcp_hdr h))" by (simp add: be16_def be32_def)
  have B: "b @ rest = frame_bytes c1 c2 src dst (ipv4_header (20 + 20 + of_nat (length (payload_bytes p))) 242 6 p) (Tcp_hdr h) @ rest"
    by (simp add: b)
  note f = frame_header[OF assms(5,6) l8 B]
  have lb: "length b = 54 + length (th_payload h)"
    using f(7) by (simp add: be16_def be32_def)
  have le: "length (th_payload h) \<le> 1460" using assms(8) h by simp
  have p: "(if th_payload h = [] then None else Some (th_payload h)) = pk_payload p"
    using assms(9) by (auto simp: h(6) payload_bytes_def split: option.splits)
  have o: "or (ucast (tcp_ctrl_flags s)) 0x800 = unconverted_state s" for s
    by (simp add: unconverted_state_def or.commute)
  show ?thesis
    unfolding ours_frame[OF assms(5,6) l8 assms(7) B] lb tcp_frame_parse[OF B f(8,7) le] p
    by (simp add: tcp_frame_parse[OF B f(8,7) le] p packet_clear_def h o)
qed

text \<open>C27. The payload of a UDP packet is read back only up to the length field with its two bytes
  exchanged: \<open>deserialize\<close> misses the \<open>ntohs\<close> it applies to every other field. The payload of a
  packet of 505 bytes, say, is cut to 250 bytes, and the packet is taken for another one.\<close>

theorem udp_payload_truncated:
  assumes "libnet_ok hdrs ln" "hdrs l = []" "serialize ln p src dst l = Inr (b, l')"
    and "ps_is_udp (pk_proto_state p)" "length src = 6" "length dst = 6"
    and "src = id_eth_addr \<or> dst = id_eth_addr" "length (payload_bytes p) \<le> 1472"
  shows "\<exists>r. deserialize (b @ rest) (of_nat (length b)) q = Inr r
    \<and> pk_src_ip r = pk_src_ip p \<and> pk_dst_ip r = pk_dst_ip p
    \<and> pk_src_port r = pk_src_port p \<and> pk_dst_port r = pk_dst_port p
    \<and> payload_bytes r = take (unat (ntohs (8 + of_nat (length (payload_bytes p))) - 8)) (payload_bytes p)"
proof -
  have nt: "\<not> ps_is_tcp (pk_proto_state p)"
  proof -
    have r: "1 \<le> pk_proto_state p" "pk_proto_state p \<le> 14"
      using assms(4) by (auto simp: ps_is_udp_def intro: order.trans[of 1 11] order.trans[of _ 12])
    have "\<forall>x \<in> set proto_states. ps_is_udp x \<longrightarrow> \<not> ps_is_tcp x" by code_simp
    from all_valid_ps[OF this r] show ?thesis using assms(4) by simp
  qed
  obtain c1 c2 h where b: "b = frame_bytes c1 c2 src dst (ipv4_header (20 + 8 + of_nat (length (payload_bytes p))) 242 17 p) (Udp_hdr h)"
    and h: "uh_sp h = pk_src_port p" "uh_dp h = pk_dst_port p" "uh_len h = 8 + of_nat (length (payload_bytes p))"
      "uh_payload h = payload_bytes p"
    using serialize_udp[OF assms(1-4) nt] by blast
  have l8: "8 \<le> length (header_bytes c2 (Udp_hdr h))" by (simp add: be16_def)
  have B: "b @ rest = frame_bytes c1 c2 src dst (ipv4_header (20 + 8 + of_nat (length (payload_bytes p))) 242 17 p) (Udp_hdr h) @ rest"
    by (simp add: b)
  note f = frame_header[OF assms(5,6) l8 B]
  have lb: "length b = 42 + length (uh_payload h)" using f(7) by (simp add: be16_def)
  have le: "length (uh_payload h) \<le> 1472" using assms(8) h by simp
  let ?k = "unat (ntohs (uh_len h) - 8)"
  define r where "r = (packet_clear q)\<lparr>pk_src_ip := pk_src_ip p, pk_dst_ip := pk_dst_ip p, pk_src_port := uh_sp h,
     pk_dst_port := uh_dp h, pk_proto_state := PS_UDP_REQ,
     pk_payload := (let n = min ?k (length (uh_payload h)) in
       if n = 0 then None else Some (take n (uh_payload h)))\<rparr>"
  have d: "deserialize (b @ rest) (of_nat (length b)) q = Inr r"
    unfolding ours_frame[OF assms(5,6) l8 assms(7) B] lb
    by (simp add: udp_frame_parse[OF f(8,7) le, unfolded of_nat_add of_nat_numeral] r_def)
  have "payload_bytes r = take (min ?k (length (uh_payload h))) (uh_payload h)"
    by (simp add: r_def payload_bytes_def Let_def)
  also have "\<dots> = take ?k (uh_payload h)" by (simp add: min_def)
  finally show ?thesis using d by (intro exI[of _ r]) (simp add: r_def h)
qed

text \<open>A libnet whose context is the list of headers and whose checksums are 0.\<close>

definition sample_libnet :: "header list libnet" where
  "sample_libnet =
     \<lparr>build_tcp_hdr = (\<lambda>h l. (1, Tcp_hdr h # l)), build_udp_hdr = (\<lambda>h l. (1, Udp_hdr h # l)),
      build_icmp_hdr = (\<lambda>h l. (1, Icmp_hdr h # l)), build_ip_hdr = (\<lambda>h l. (1, Ip_hdr h # l)),
      build_eth_hdr = (\<lambda>h l. (1, Eth_hdr h # l)),
      cull_packet = (\<lambda>l. (0, concat (map (header_bytes 0) l), l)), clear_packet = (\<lambda>_. [])\<rparr>"

lemma sample_libnet_ok: "libnet_ok (\<lambda>l. l) sample_libnet"
proof -
  have "\<exists>cks. length cks = length l \<and> concat (map (header_bytes 0) l) = concat (map2 header_bytes cks l)" for l
    by (intro exI[of _ "replicate (length l) 0"]) (simp add: zip_replicate1 split_def comp_def)
  then show ?thesis by (simp add: libnet_ok_def sample_libnet_def)
qed

definition sample_udp :: "nat \<Rightarrow> packet" where
  "sample_udp n = packet_init\<lparr>pk_src_ip := 0x0A000001, pk_dst_ip := 0x0A000002, pk_src_port := 49152,
     pk_dst_port := 53, pk_proto_state := PS_UDP_REQ, pk_payload := Some (replicate n 65)\<rparr>"

lemma sample_serialize:
  "pk_proto_state p \<in> {1, 11} \<Longrightarrow> \<exists>b. serialize sample_libnet p id_eth_addr id_eth_addr [] = Inr (b, [])"
  by (auto simp: serialize_def ps_is_tcp_def ps_is_udp_def ps_unconverted_def build_tcp_def build_udp_def
    sample_libnet_def tagged_def Let_def)

theorem tcp_frame_roundtrip_witness:
  "\<exists>b r. serialize sample_libnet (packet_init\<lparr>pk_seq := 7, pk_proto_state := 1, pk_payload := Some [65]\<rparr>)
       id_eth_addr id_eth_addr [] = Inr (b, [])
     \<and> deserialize b (of_nat (length b)) packet_init = Inr r \<and> pk_seq r = 7 \<and> pk_payload r = Some [65]"
proof -
  let ?p = "packet_init\<lparr>pk_seq := 7, pk_proto_state := 1, pk_payload := Some [65]\<rparr>"
  obtain b where b: "serialize sample_libnet ?p id_eth_addr id_eth_addr [] = Inr (b, [])"
    using sample_serialize[of ?p] by auto
  have h: "ps_is_tcp (pk_proto_state ?p)" "length id_eth_addr = 6" "length id_eth_addr = 6"
      "id_eth_addr = id_eth_addr \<or> id_eth_addr = id_eth_addr"
      "length (payload_bytes ?p) \<le> 1460" "pk_payload ?p \<noteq> Some []"
    by (simp_all add: ps_is_tcp_def id_eth_addr_def payload_bytes_def)
  from tcp_frame_roundtrip[OF sample_libnet_ok refl b h, of "[]" packet_init] b show ?thesis by simp
qed

theorem udp_payload_truncated_witness:
  "\<exists>b r. serialize sample_libnet (sample_udp 505) id_eth_addr id_eth_addr [] = Inr (b, [])
     \<and> deserialize b (of_nat (length b)) packet_init = Inr r \<and> length (payload_bytes r) = 250"
proof -
  let ?p = "sample_udp 505"
  obtain b where b: "serialize sample_libnet ?p id_eth_addr id_eth_addr [] = Inr (b, [])"
    using sample_serialize[of ?p] by (auto simp: sample_udp_def)
  have h: "ps_is_udp (pk_proto_state ?p)" "length id_eth_addr = 6" "length id_eth_addr = 6"
      "id_eth_addr = id_eth_addr \<or> id_eth_addr = id_eth_addr" "length (payload_bytes ?p) \<le> 1472"
    by (simp_all add: ps_is_udp_def id_eth_addr_def payload_bytes_def sample_udp_def)
  have "unat (ntohs (8 + of_nat 505) - 8) = 250" by code_simp
  moreover have "length (payload_bytes ?p) = 505" by (simp add: payload_bytes_def sample_udp_def)
  ultimately show ?thesis
    using udp_payload_truncated[OF sample_libnet_ok refl b h, of "[]" packet_init] b by auto
qed

section \<open>Ill-formed frames\<close>

lemma bindR_okE:
  assumes "bindR m f = Inr r"
  obtains a where "m = Inr a" "f a = Inr r"
  using assms by (auto simp: bindR_eq_Inr_iff)

text \<open>What the three parsers write into the packet.\<close>

definition stored :: "byte list \<Rightarrow> payload option \<Rightarrow> bool" where
  "stored b pl \<longleftrightarrow> (\<forall>data. pl = Some data \<longrightarrow> 0 < length data \<and> length data \<le> length b)"

lemma store_payload_form:
  assumes "store_payload b i n p = Inr r"
  shows "\<exists>pl. r = p\<lparr>pk_payload := pl\<rparr> \<and> stored b pl"
proof (cases "n = 0")
  case True
  then show ?thesis using assms by (auto simp: store_payload_def stored_def)
next
  case False
  then obtain data where "copy_data b i n = Inr data" "r = p\<lparr>pk_payload := Some data\<rparr>"
    using assms by (auto simp: store_payload_def payload_of_data_def elim: bindR_okE)
  then show ?thesis using False
    by (intro exI[of _ "Some data"]) (auto simp: stored_def copy_data_def split: if_splits)
qed

lemma parse_tcp_form:
  assumes "parse_tcp b n p = Inr r"
  shows "\<exists>a c d e fl pl. r = p\<lparr>pk_src_port := a, pk_dst_port := c, pk_seq := d, pk_ack := e,
      pk_proto_state := or (and fl 0x0fff) 0x800, pk_payload := pl\<rparr> \<and> stored b pl"
  using assms unfolding parse_tcp_def Let_def
  by (elim bindR_okE) (drule store_payload_form, fastforce)

lemma parse_udp_form:
  assumes "parse_udp b n p = Inr r"
  shows "\<exists>a c pl. r = p\<lparr>pk_src_port := a, pk_dst_port := c, pk_proto_state := PS_UDP_REQ, pk_payload := pl\<rparr>
    \<and> stored b pl"
  using assms unfolding parse_udp_def Let_def
  by (elim bindR_okE) (drule store_payload_form, fastforce)

lemma parse_ip_form:
  assumes "parse_ip b n p = Inr r"
  obtains x y where "parse_tcp b n (p\<lparr>pk_src_ip := x, pk_dst_ip := y\<rparr>) = Inr r"
    | x y where "parse_udp b n (p\<lparr>pk_src_ip := x, pk_dst_ip := y\<rparr>) = Inr r"
    | x y where "parse_icmp b (p\<lparr>pk_src_ip := x, pk_dst_ip := y\<rparr>) = Inr r"
    | x y where "r = packet_clear (p\<lparr>pk_src_ip := x, pk_dst_ip := y\<rparr>)"
  using assms unfolding parse_ip_def Let_def
  by (elim bindR_okE) (simp split: if_splits; blast)

lemma wire_flags:
  "ps_unconverted (or (and x 0x0fff) 0x800) \<and> or (and x 0x0fff) 0x800 < (0x1000 :: 16 word)"
proof
  have "bit (and (or (and x 0x0fff) 0x800) 0x800) 11" by (simp add: bit_simps)
  then show "ps_unconverted (or (and x 0x0fff) 0x800)" unfolding ps_unconverted_def by (metis bit_0_eq bot_apply bot_bool_def)
  have m: "(0x0fff :: 16 word) = mask 12" by code_simp
  have "or (and x 0x0fff) 0x800 = and (or (and x 0x0fff) 0x800) (mask 12)"
  proof -
    have "(0x800 :: 16 word) = and 0x800 (mask 12)" by code_simp
    then have "or (and x (mask 12)) 0x800 = and (or x 0x800) (mask 12)"
      by (metis bit.conj_disj_distrib2)
    then show ?thesis unfolding m by (simp add: ac_simps)
  qed
  then have "or (and x 0x0fff) 0x800 = take_bit 12 (or (and x 0x0fff) 0x800)" by (simp only: take_bit_eq_mask)
  moreover have "unat (take_bit 12 y) < 2 ^ 12" for y :: "16 word"
    unfolding unsigned_take_bit_eq by (rule take_bit_nat_less_exp)
  ultimately have "unat (or (and x 0x0fff) 0x800) < 2 ^ 12" by metis
  then show "or (and x 0x0fff) 0x800 < 0x1000" by (simp add: word_less_nat_alt)
qed

text \<open>C29. Whatever the bytes of a frame are, a packet that is read from it is well-typed: its protocol
  state is 0 when the frame is dropped, or the flags of a TCP segment with the mark that they are
  not converted, or the first UDP state, or an ICMP echo state; a payload is never empty and never
  longer than the buffer; the interface is null and the fields the verifier maintains are those of
  the packet passed in.\<close>

theorem deserialize_well_typed:
  assumes "deserialize b n q = Inr r"
  shows "(r = packet_clear q \<or> (ps_unconverted (pk_proto_state r) \<and> pk_proto_state r < 0x1000)
      \<or> pk_proto_state r \<in> {PS_UDP_REQ, PS_ICMP_ECHO_REQ, PS_ICMP_ECHO_REP})
    \<and> (\<forall>pl. pk_payload r = Some pl \<longrightarrow> 0 < length pl \<and> length pl \<le> length b)
    \<and> pk_intf r = 0 \<and> pk_conn r = pk_conn q \<and> pk_is_new r = pk_is_new q
    \<and> pk_opposite_dir r = pk_opposite_dir q \<and> pk_next_phase r = pk_next_phase q"
proof -
  have cc: "packet_clear (packet_clear q) = packet_clear q"
      "packet_clear ((packet_clear q)\<lparr>pk_src_ip := x, pk_dst_ip := y\<rparr>) = packet_clear q" for x y
    by (simp_all add: packet_clear_def)
  obtain ours where o: "(if \<not> ours then Inr (packet_clear q)
      else bindR (read16 b 12) (\<lambda>ethertype. if ntohs ethertype = 0x0800 then parse_ip b n (packet_clear q)
        else Inr (packet_clear q))) = Inr r"
    using assms unfolding deserialize_def Let_def cc by (elim bindR_okE) blast
  have "r = packet_clear q \<or> parse_ip b n (packet_clear q) = Inr r"
  proof (cases ours)
    case True
    then obtain et where "(if ntohs et = 0x0800 then parse_ip b n (packet_clear q) else Inr (packet_clear q)) = Inr r"
      using o by (cases "read16 b 12") simp_all
    then show ?thesis by (cases "ntohs et = 0x0800") simp_all
  qed (use o in simp)
  then consider "r = packet_clear q" | "parse_ip b n (packet_clear q) = Inr r" by blast
  then show ?thesis
  proof cases
    case 1
    then show ?thesis by (simp add: packet_clear_def)
  next
    case 2
    then show ?thesis
    proof (cases rule: parse_ip_form)
      case (1 x y)
      from parse_tcp_form[OF this] show ?thesis
        using wire_flags by (auto simp: packet_clear_def stored_def)
    next
      case (2 x y)
      from parse_udp_form[OF this] show ?thesis by (auto simp: packet_clear_def stored_def)
    next
      case (3 x y)
      then show ?thesis unfolding parse_icmp_def cc
        by (elim bindR_okE) (auto simp: packet_clear_def split: if_splits)
    next
      case (4 x y)
      then show ?thesis unfolding cc by (simp add: packet_clear_def)
    qed
  qed
qed

text \<open>C28. A TCP segment shorter than its own header aborts the program: the number of payload bytes is
  computed in \<open>size_t\<close>, becomes huge when the data offset points behind the end of the frame, and
  \<open>new\<close> throws an exception that nobody catches.\<close>

theorem short_tcp_frame_aborts:
  assumes "48 \<le> length b" "unat n < 34 + unat (drop_bit 4 (b ! 46)) * 4"
  shows "parse_tcp b n q = Inl (Runtime_error ''std::bad_array_new_length'')"
proof -
  define off where "off = 34 + unat (drop_bit 4 (b ! 46)) * 4"
  have "unat (drop_bit 4 (b ! 46)) \<le> 15"
  proof -
    have "unat (b ! 46) < 2 ^ LENGTH(8)" by (rule unsigned_less)
    then show ?thesis unfolding unsigned_drop_bit_eq by (simp add: drop_bit_eq_div take_bit_nat_eq_self)
  qed
  then have off: "off \<le> 94" by (simp add: off_def)
  have "unat (of_nat off :: 64 word) = off" using off by (simp add: unat_of_nat take_bit_nat_eq_self)
  then have "unat (n - of_nat off) = 2 ^ 64 + unat n - off"
    using assms(2) off unat_sub_if'[of n "of_nat off"] by (simp add: off_def)
  then have big: "2 ^ 63 \<le> unat (n - of_nat off)" "n - of_nat off \<noteq> 0" using off by auto
  obtain w1 w2 w3 w4 w5 where r: "read16 b 34 = Inr w1" "read16 b 36 = Inr w2" "read32 b 38 = Inr w3"
      "read32 b 42 = Inr w4" "read16 b 46 = Inr w5" "read8 b 46 = Inr (b ! 46)"
    using assms(1) by (simp add: read16_def read32_def read8_def)
  show ?thesis unfolding parse_tcp_def r bindR_Inr Let_def off_def[symmetric]
    using big by (simp add: copy_data_def store_payload_def unat_eq_0)
qed

definition sample_echo :: "byte list" where
  "sample_echo = id_eth_addr @ replicate 6 0 @ [8, 0] @ replicate 9 0 @ [1] @ replicate 10 0 @ [8] @ replicate 7 0"

theorem deserialize_well_typed_witness:
  "\<exists>r. deserialize sample_echo 42 packet_init = Inr r \<and> pk_proto_state r \<in> {PS_UDP_REQ, PS_ICMP_ECHO_REQ, PS_ICMP_ECHO_REP}"
proof -
  have d: "deserialize sample_echo 42 packet_init = Inr (packet_init\<lparr>pk_proto_state := PS_ICMP_ECHO_REQ\<rparr>)"
    by code_simp
  have "\<not> ps_unconverted PS_ICMP_ECHO_REQ" by code_simp
  moreover have "packet_init\<lparr>pk_proto_state := PS_ICMP_ECHO_REQ\<rparr> \<noteq> packet_clear packet_init"
    by (simp add: packet_init_def packet_clear_def)
  ultimately show ?thesis using deserialize_well_typed[OF d] d by (simp del: insert_iff)
qed

theorem short_tcp_frame_aborts_witness:
  "parse_tcp (replicate 46 0 @ [0x50, 2] @ replicate 20 0) 40 packet_init
     = Inl (Runtime_error ''std::bad_array_new_length'')"
  by (rule short_tcp_frame_aborts) code_simp+

end
