(* ===== verification/Forwarding.thy ===== *)
theory Forwarding
  imports Received
begin

text \<open>
  The forwarding process (\<open>src/process/forwarding.cpp\<close>): one handler per forwarding mode of a
  connection, the transition between protocol states, the injection of a packet into an emulated
  middlebox and the processing of what came back. The middlebox's operations on its emulation
  (\<open>src/middlebox.cpp\<close>) are a parameter, the record \<open>emu_ops\<close>, over a state of any type that
  the model carries as \<open>m_world\<close>. Statistics and log messages are left out, the pointers a
  message dereferences are not.
\<close>

section \<open>Middleboxes\<close>

record 'w emu_ops =
  op_rewind :: "nat \<Rightarrow> node_pkt_hist \<Rightarrow> 'w \<Rightarrow> 'w result"
  op_set_nph :: "nat \<Rightarrow> node_pkt_hist \<Rightarrow> 'w \<Rightarrow> 'w result"
  op_send_pkt :: "nat \<Rightarrow> packet \<Rightarrow> 'w \<Rightarrow> (injection_results \<times> 'w) result"

definition set_world :: "'w \<Rightarrow> 'w model \<Rightarrow> 'w model" where
  "set_world w m = m\<lparr>m_world := w\<rparr>"

definition set_cache :: "injection_cache \<Rightarrow> 'w model \<Rightarrow> 'w model" where
  "set_cache c m = m\<lparr>m_cache := c\<rparr>"

section \<open>Initialisation\<close>

definition forwarding_init :: "'w model \<Rightarrow> 'w model result" where
  "forwarding_init m = bindR (mk_pkt_hist (m_net m)) (\<lambda>pkt_hist. Inr (set_pkt_hist pkt_hist m))"

section \<open>Injecting a packet\<close>

definition use_injection_results :: "injection_results \<Rightarrow> 'w model \<Rightarrow> 'w model" where
  "use_injection_results results m =
     set_fwd_mode CHOOSE_INJ_RES (set_injection_results results (set_choice_count (int (length results)) m))"

definition inject_packet :: "'w emu_ops \<Rightarrow> nat \<Rightarrow> 'w model \<Rightarrow> 'w model result" where
  "inject_packet ops mb m =
     bindR (valR (get_pkt_hist m)) (\<lambda>pkt_hist.
     bindR (get_node_pkt_hist pkt_hist mb) (\<lambda>current_nph.
     bindR (op_rewind ops mb current_nph (m_world m)) (\<lambda>w.
     let m = set_world w m in
     bindR (packet_of_model m) (\<lambda>p.
     let (new_pkt, m) = store_packet p m;
         new_nph = mk_node_pkt_hist new_pkt current_nph in
     bindR (op_set_nph ops mb new_nph (m_world m)) (\<lambda>w.
     let m = set_world w m;
         m = set_pkt_hist (set_node_pkt_hist mb new_nph pkt_hist) m in
     case cache_get (m_cache m) mb new_nph of
       Some cached_results \<Rightarrow> Inr (use_injection_results cached_results m)
     | None \<Rightarrow>
         bindR (op_send_pkt ops mb new_pkt (m_world m)) (\<lambda>(results, w).
         let m = use_injection_results results (set_world w m) in
         Inr (set_cache (cache_insert mb new_nph results (m_cache m)) m)))))))"

section \<open>Collecting next hops\<close>

text \<open>The candidates of a node with several next hops: the choice made before for the same class
  and node, if it is still one of them.\<close>

definition candidates_of :: "fib_ipnh list \<Rightarrow> fib_ipnh option \<Rightarrow> candidates" where
  "candidates_of next_hops choice =
     (case choice of
        Some c \<Rightarrow> if length next_hops > 1 \<and> set_count ipnh_less c next_hops then candidates_add c []
                  else fold candidates_add next_hops []
      | None \<Rightarrow> fold candidates_add next_hops [])"

definition drop_packet :: "'w model \<Rightarrow> 'w model" where
  "drop_packet m = set_executable 0 (set_fwd_mode DROPPED m)"

definition collect_next_hops :: "'w emu_ops \<Rightarrow> 'w model \<Rightarrow> 'w model result" where
  "collect_next_hops ops m =
     (let current_node = get_pkt_location m in
      bindR (node_at m current_node) (\<lambda>nd.
      if is_emulated nd then inject_packet ops current_node m
      else
        bindR (valR (get_fib m)) (\<lambda>fib.
        bindR (fib_lookup fib current_node) (\<lambda>next_hops.
        if next_hops = [] then Inr (drop_packet m)
        else
          bindR (valR (get_path_choices m)) (\<lambda>choices.
          let choice = get_path_choice choices (get_dst_ip_ec m) current_node;
              candidates = candidates_of next_hops choice in
          Inr (set_fwd_mode FORWARD_PACKET
            (set_candidates candidates (set_choice_count (int (length candidates)) m))))))))"

definition first_collect :: "'w emu_ops \<Rightarrow> 'w model \<Rightarrow> 'w model result" where
  "first_collect ops m =
     bindR (collect_next_hops ops m) (\<lambda>m. Inr (set_fwd_mode FIRST_FORWARD m))"

section \<open>Forwarding to the chosen next hop\<close>

text \<open>In case of several candidates, the choice made at this node is remembered.\<close>

definition remember_choice :: "candidates \<Rightarrow> 'w model \<Rightarrow> 'w model result" where
  "remember_choice candidates m =
     (if length candidates > 1 then
        bindR (valR (get_path_choices m)) (\<lambda>choices.
        bindR (candidates_at candidates (get_choice m)) (\<lambda>nh.
        bindR (add_choice (get_dst_ip_ec m) (get_pkt_location m) nh choices) (\<lambda>new_choices.
        Inr (set_path_choices new_choices m))))
      else Inr m)"

definition deliver_packet :: "'w model \<Rightarrow> 'w model result" where
  "deliver_packet m =
     (let current_node = get_pkt_location m;
          m = (if ps_is_first (get_proto_state m) then set_rx_node current_node m else m) in
      bindR (node_at m current_node) (\<lambda>_.
      Inr (set_choice_count 1 (set_fwd_mode ACCEPTED m))))"

definition move_packet :: "nat \<Rightarrow> nat \<Rightarrow> 'w model \<Rightarrow> 'w model result" where
  "move_packet next_hop ingress_intf m =
     bindR (node_at m next_hop) (\<lambda>nd.
     let m = (if is_emulated nd then
           let m = (if ps_is_first (get_proto_state m) then set_rx_node next_hop m else m) in
           set_executable 1 m
         else m);
         m = set_ingress_intf ingress_intf (set_pkt_location next_hop m) in
     bindR (intf_at m ingress_intf) (\<lambda>_.
     Inr (set_choice_count 1 (set_fwd_mode COLLECT_NHOPS m))))"

definition forward_packet :: "'w model \<Rightarrow> 'w model result" where
  "forward_packet m =
     (let current_node = get_pkt_location m in
      bindR (valR (get_candidates m)) (\<lambda>candidates.
      bindR (remember_choice candidates m) (\<lambda>m.
      bindR (candidates_at candidates (get_choice m)) (\<lambda>nh.
      let next_hop = l3_node nh; ingress_intf = l3_intf nh in
      if next_hop = current_node then deliver_packet m
      else move_packet next_hop ingress_intf m))))"

text \<open>The source address of a new connection, from the next hop chosen at its source.\<close>

definition source_addr :: "'w model \<Rightarrow> fib_ipnh \<Rightarrow> ipv4 result" where
  "source_addr m next_hop =
     (if l2_intf next_hop \<noteq> 0 then
        bindR (node_at m (l2_node next_hop)) (\<lambda>nd.
        bindR (intf_at m (l2_intf next_hop)) (\<lambda>i.
        bindR (intf_at m (snd (get_peer nd (if_name i)))) if_addr))
      else
        let current_node = get_pkt_location m in
        bindR (assertR (l3_intf next_hop = 0 \<and> l2_intf next_hop = 0)) (\<lambda>_.
        bindR (assertR (l3_node next_hop = l2_node next_hop \<and> l2_node next_hop = current_node)) (\<lambda>_.
        bindR (node_at m current_node) (\<lambda>nd.
        bindR (intf_at m (loopback_intf nd)) (\<lambda>lo.
        if is_l2 lo then Inl (Runtime_error ''Loopback interfaces are not fully implemented'')
        else if_addr lo)))))"

definition first_forward :: "'w model \<Rightarrow> 'w model result" where
  "first_forward m =
     bindR (if ps_is_first (get_proto_state m) \<and> get_src_ip m = 0 then
         bindR (valR (get_candidates m)) (\<lambda>candidates.
         bindR (candidates_at candidates (get_choice m)) (\<lambda>next_hop.
         bindR (source_addr m next_hop) (\<lambda>a. Inr (set_src_ip a m))))
       else Inr m) forward_packet"

section \<open>Protocol state transitions\<close>

text \<open>The sequence and acknowledgement numbers of the next packet.\<close>

definition update_seq_ack :: "bool \<Rightarrow> 'w model \<Rightarrow> 'w model" where
  "update_seq_ack change_direction m =
     (let old_proto_state = get_proto_state m in
      if ps_is_tcp old_proto_state then
        let sq = seq_after old_proto_state (get_payload m) (get_seq m);
            ak = get_ack m;
            (sq, ak) = (if change_direction then (ak, sq) else (sq, ak)) in
        set_ack ak (set_seq sq m)
      else m)"

text \<open>Swapping the end points of the connection for a packet in the other direction.\<close>

definition turn_around :: "'w model \<Rightarrow> 'w model result" where
  "turn_around m =
     (let src_ip = get_src_ip m; dst_ip_ec = get_dst_ip_ec m in
      bindR (ec_addr m dst_ip_ec) (\<lambda>a.
      let m = set_src_ip a m in
      bindR (find_ec src_ip (m_ecs m)) (\<lambda>next_dst_ip_ec.
      let m = set_dst_ip_ec next_dst_ip_ec m;
          m = set_src_node (get_pkt_location m) m;
          src_port = get_src_port m; dst_port = get_dst_port m;
          m = set_dst_port src_port (set_src_port dst_port m) in
      update_fib m)))"

definition phase_transition :: "ps \<Rightarrow> bool \<Rightarrow> 'w model \<Rightarrow> 'w model result" where
  "phase_transition next_proto_state change_direction m =
     (let new_src_node = (if change_direction then get_pkt_location m else get_src_node m) in
      bindR (node_at m new_src_node) (\<lambda>nd.
      if is_emulated nd then Inr (set_executable 0 m)
      else
        let m = set_proto_state next_proto_state (update_seq_ack change_direction m) in
        bindR (if change_direction then turn_around m
               else Inr (set_pkt_location (get_src_node m) m)) (\<lambda>m.
        bindR (get_payload_from_model m) (\<lambda>(pl, m).
        let m = set_payload pl m;
            m = set_fwd_mode FIRST_COLLECT m;
            m = set_ingress_intf 0 m;
            m = reset_candidates m;
            m = reset_injection_results m in
        print_conn_states m))))"

definition accepted :: "'w model \<Rightarrow> 'w model result" where
  "accepted m =
     (let proto_state = get_proto_state m in
      if proto_state = PS_TCP_INIT_1 then phase_transition PS_TCP_INIT_2 True m
      else if proto_state = PS_TCP_INIT_2 then phase_transition PS_TCP_INIT_3 True m
      else if proto_state = PS_TCP_INIT_3 then phase_transition PS_TCP_L7_REQ False m
      else if proto_state = PS_TCP_L7_REQ then phase_transition PS_TCP_L7_REQ_A True m
      else if proto_state = PS_TCP_L7_REQ_A then phase_transition PS_TCP_L7_REP False m
      else if proto_state = PS_TCP_L7_REP then phase_transition PS_TCP_L7_REP_A True m
      else if proto_state = PS_TCP_L7_REP_A then
        bindR (node_at m (get_pkt_location m)) (\<lambda>pkt_loc.
        if is_emulated pkt_loc then phase_transition PS_TCP_TERM_1 False m
        else phase_transition PS_TCP_TERM_1 True m)
      else if proto_state = PS_TCP_TERM_1 then phase_transition PS_TCP_TERM_2 True m
      else if proto_state = PS_TCP_TERM_2 then phase_transition PS_TCP_TERM_3 True m
      else if proto_state = PS_TCP_TERM_3 then Inr (set_executable 0 m)
      else if proto_state = PS_UDP_REQ then phase_transition PS_UDP_REP True m
      else if proto_state = PS_UDP_REP then Inr (set_executable 0 m)
      else if proto_state = PS_ICMP_ECHO_REQ then phase_transition PS_ICMP_ECHO_REP True m
      else if proto_state = PS_ICMP_ECHO_REP then Inr (set_executable 0 m)
      else Inl (Runtime_error ''Unknown protocol state ''))"

section \<open>Processing an injection result\<close>

text \<open>The connection state written from a received packet, for the selected connection.\<close>

definition map_packet :: "packet \<Rightarrow> 'w model \<Rightarrow> 'w model result" where
  "map_packet p m =
     (let old_dst_ip_ec = get_dst_ip_ec m;
          m = set_executable 2 m;
          m = set_proto_state (pk_proto_state p) m;
          m = set_src_ip (pk_src_ip p) m in
      bindR (find_ec (pk_dst_ip p) (m_ecs m)) (\<lambda>ec.
      let m = set_dst_ip_ec ec m;
          m = set_src_port (pk_src_port p) m;
          m = set_dst_port (pk_dst_port p) m;
          m = set_seq (pk_seq p) m;
          m = set_ack (pk_ack p) m;
          m = set_payload (pk_payload p) m in
      if old_dst_ip_ec \<noteq> get_dst_ip_ec m then update_fib m else Inr m))"

definition update_remaining :: "nat \<Rightarrow> packet \<Rightarrow> 'w model \<Rightarrow> 'w model" where
  "update_remaining mb p m =
     (if pk_is_new p then
        let m = set_num_conns (get_num_conns m + 1) m;
            m = set_src_node mb m;
            m = set_tx_node mb m;
            m = set_rx_node 0 m;
            m = set_pkt_location mb m;
            m = set_fwd_mode FIRST_FORWARD m;
            m = set_ingress_intf 0 m in
        set_path_choices [] m
      else if pk_next_phase p then
        let m = (if pk_opposite_dir p then set_src_node mb m
                 else set_pkt_location (get_src_node m) m);
            m = set_fwd_mode FIRST_FORWARD m in
        set_ingress_intf 0 m
      else set_fwd_mode FORWARD_PACKET m)"

definition set_next_hop :: "nat \<Rightarrow> packet \<Rightarrow> 'w model \<Rightarrow> 'w model result" where
  "set_next_hop mb p m =
     bindR (intf_at m (pk_intf p)) (\<lambda>i.
     bindR (node_at m mb) (\<lambda>nd.
     bindR (get_ipnh (net_objs (m_net m)) nd (if_name i) (pk_dst_ip p)) (\<lambda>next_hop.
     let candidates = (if l3_node next_hop \<noteq> 0 then candidates_add next_hop [] else []) in
     Inr (set_candidates candidates (set_choice_count (int (length candidates)) m)))))"

text \<open>One received packet; the flags tell whether the current and another connection have been
  updated.\<close>

definition process_recv_pkt ::
    "int \<Rightarrow> nat \<Rightarrow> packet \<Rightarrow> 'w model \<times> bool \<times> bool \<Rightarrow> ('w model \<times> bool \<times> bool) result" where
  "process_recv_pkt max_conns mb p = (\<lambda>(m, current_updated, other_updated).
     let orig_conn = get_conn m in
     if packet_empty p then Inr (m, current_updated, other_updated)
     else
       bindR (identify_conn max_conns p m) (\<lambda>p.
       bindR (process_proto_state p m) (\<lambda>p.
       if pk_proto_state p = PS_INVALID then Inr (m, current_updated, other_updated)
       else
         bindR (check_seq_ack p m) (\<lambda>_.
         let (current_updated, other_updated) =
           (if pk_conn p = orig_conn then (True, other_updated) else (current_updated, True));
             m = set_conn (pk_conn p) m in
         bindR (map_packet p m) (\<lambda>m.
         bindR (set_next_hop mb p (update_remaining mb p m)) (\<lambda>m.
         Inr (set_conn orig_conn m, current_updated, other_updated)))))))"

text \<open>What happens to the current connection when no packet of it came back.\<close>

definition no_packet_received :: "nat \<Rightarrow> bool \<Rightarrow> bool \<Rightarrow> 'w model \<Rightarrow> 'w model" where
  "no_packet_received mb dropped other_updated m =
     (if dropped then drop_packet m
      else if other_updated then
        let m = set_executable 2 m;
            m = set_fwd_mode FORWARD_PACKET m;
            candidates = candidates_add (FIB_IPNH mb 0 mb 0) [];
            m = set_candidates candidates m in
        set_choice_count 1 m
      else drop_packet m)"

definition update_model_from_injection_result ::
    "int \<Rightarrow> nat \<Rightarrow> injection_result \<Rightarrow> 'w model \<Rightarrow> 'w model result" where
  "update_model_from_injection_result max_conns mb result m =
     (if explicit_drop result \<and> recv_pkts result \<noteq> []
      then Inl (Runtime_error ''Sent packet dropped but still received packets'')
      else
        bindR (foldR (process_recv_pkt max_conns mb) (recv_pkts result) (m, False, False))
          (\<lambda>(m, current_updated, other_updated).
        if \<not> current_updated then Inr (no_packet_received mb (explicit_drop result) other_updated m)
        else
          bindR (valR (get_candidates m)) (\<lambda>candidates.
          Inr (if candidates = [] then drop_packet m
               else set_choice_count (int (length candidates)) m))))"

definition choose_injection_results :: "int \<Rightarrow> 'w model \<Rightarrow> 'w model result" where
  "choose_injection_results max_conns m =
     bindR (valR (get_injection_results m)) (\<lambda>results.
     bindR (results_at results (get_choice m)) (\<lambda>result.
     update_model_from_injection_result max_conns (get_pkt_location m) result m))"

section \<open>One step\<close>

definition forwarding_exec_step :: "int \<Rightarrow> 'w emu_ops \<Rightarrow> 'w model \<Rightarrow> 'w model result" where
  "forwarding_exec_step max_conns ops m =
     (let mode = get_fwd_mode m in
      if mode = FIRST_COLLECT then first_collect ops m
      else if mode = FIRST_FORWARD then first_forward m
      else if mode = COLLECT_NHOPS then collect_next_hops ops m
      else if mode = CHOOSE_INJ_RES then choose_injection_results max_conns m
      else if mode = FORWARD_PACKET then forward_packet m
      else if mode = ACCEPTED then accepted m
      else if mode = DROPPED then Inr (set_executable 0 m)
      else Inl (Runtime_error ''Unknown forwarding mode: ''))"

section \<open>What a handler may change\<close>

text \<open>A handler works on the current connection: it leaves the other connections, their number,
  the selection, the process and the network alone.\<close>

definition frame :: "'w model \<Rightarrow> 'w model \<Rightarrow> bool" where
  "frame m m' \<longleftrightarrow> m_net m' = m_net m \<and> get_conn m' = get_conn m
     \<and> get_num_conns m' = get_num_conns m \<and> get_process_id m' = get_process_id m
     \<and> (\<forall>c. c \<noteq> get_conn m \<longrightarrow> now_conn_state (m_now m') c = now_conn_state (m_now m) c)"

named_theorems frames

lemma frame_refl [frames]: "frame m m"
  by (simp add: frame_def)

lemma frame_trans: "frame a b \<Longrightarrow> frame b c \<Longrightarrow> frame a c"
  by (simp add: frame_def)

lemma frame_upd_cur: "frame m (upd_cur f m)"
  by (simp add: frame_def model_defs)

lemma frame_setters [frames]:
  "frame m (set_executable e m)" "frame m (set_proto_state st m)" "frame m (set_src_ip a m)"
  "frame m (set_dst_ip_ec n m)" "frame m (set_src_port p m)" "frame m (set_dst_port p m)"
  "frame m (set_seq s m)" "frame m (set_ack s m)" "frame m (set_payload pl m)"
  "frame m (set_src_node n m)" "frame m (set_tx_node n m)" "frame m (set_rx_node n m)"
  "frame m (set_fwd_mode md m)" "frame m (set_pkt_location n m)" "frame m (set_ingress_intf n m)"
  "frame m (set_candidates cs m)" "frame m (reset_candidates m)"
  "frame m (set_injection_results rs m)" "frame m (reset_injection_results m)"
  "frame m (set_fib f m)" "frame m (set_path_choices ch m)" "frame m (set_visited_hops vh m)"
  unfolding set_executable_def set_proto_state_def set_src_ip_def set_dst_ip_ec_def
    set_src_port_def set_dst_port_def set_seq_def set_ack_def set_payload_def set_src_node_def
    set_tx_node_def set_rx_node_def set_fwd_mode_def set_pkt_location_def set_ingress_intf_def
    set_candidates_def reset_candidates_def set_injection_results_def reset_injection_results_def
    set_fib_def set_path_choices_def set_visited_hops_def
  by (rule frame_upd_cur)+

lemma frame_others [frames]:
  "frame m (set_choice_count c m)" "frame m (set_choice c m)" "frame m (set_pkt_hist h m)"
  "frame m (set_world w m)" "frame m (set_cache ca m)" "frame m (set_violated b m)"
  "frame m (set_reach_counts rc m)" "frame m (set_openflow_update_state u m)"
  by (simp_all add: frame_def model_defs set_world_def set_cache_def)

lemma frame_update_fib [frames]: "update_fib m = Inr m' \<Longrightarrow> frame m m'"
  using update_fib_form frame_setters(20) by blast

lemma frame_payload [frames]: "get_payload_from_model m = Inr (pl, m') \<Longrightarrow> frame m m'"
  by (auto simp: get_payload_from_model_def payload_key_def Let_def bindR_eq_Inr_iff frame_def model_defs
    split: if_splits option.splits)

lemma frame_store [frames]: "store_packet p m = (q, m') \<Longrightarrow> frame m m'"
  by (auto simp: store_packet_def frame_def model_defs split: option.splits)

lemma frame_print [frames]: "print_conn_states m = Inr m' \<Longrightarrow> frame m m'"
  using print_conn_states_id frame_refl by blast

text \<open>Fields a step leaves alone are read through the updates.\<close>

lemma cur_payload: "get_payload_from_model m = Inr (pl, m') \<Longrightarrow> m_now m' = m_now m"
  by (auto simp: get_payload_from_model_def payload_key_def Let_def bindR_eq_Inr_iff
    split: if_splits option.splits)

lemma payload_frame:
  "get_payload_from_model m = Inr (pl, m') \<Longrightarrow> m_net m' = m_net m \<and> m_ecs m' = m_ecs m \<and> m_updates m' = m_updates m"
  by (auto simp: get_payload_from_model_def payload_key_def Let_def bindR_eq_Inr_iff
    split: if_splits option.splits)

lemma cur_store: "store_packet p m = (q, m') \<Longrightarrow> m_now m' = m_now m"
  by (auto simp: store_packet_def split: option.splits)

section \<open>Collecting next hops\<close>

definition emulated_at :: "network \<Rightarrow> nat \<Rightarrow> bool" where
  "emulated_at net p \<longleftrightarrow> (\<exists>nd. node_heap (net_objs net) p = Some nd \<and> is_emulated nd)"

lemma node_at_emulated: "node_at m p = Inr nd \<Longrightarrow> emulated_at (m_net m) p = is_emulated nd"
  by (auto simp: node_at_def derefR_def emulated_at_def split: option.splits)

lemma inject_packet_effect:
  assumes "inject_packet ops mb m = Inr m'"
  shows "frame m m'" and "\<exists>rs. cur m' = (cur m)\<lparr>cs_fwd_mode := CHOOSE_INJ_RES, cs_inj_results := Some rs\<rparr>
    \<and> get_choice_count m' = int (length rs)"
proof -
  have "\<exists>w p q m1 M rs ca w3. store_packet p (set_world w m) = (q, m1)
      \<and> frame m1 M \<and> now_conn_state (m_now M) = now_conn_state (m_now m1)
      \<and> (m' = use_injection_results rs M \<or> m' = set_cache ca (use_injection_results rs (set_world w3 M)))"
  proof -
    obtain h nph w p where 1: "bindR (packet_of_model (set_world w m)) (\<lambda>p.
        let (new_pkt, m) = store_packet p (set_world w m);
         new_nph = mk_node_pkt_hist new_pkt nph in
        bindR (op_set_nph ops mb new_nph (m_world m)) (\<lambda>w.
        let m = set_world w m;
            m = set_pkt_hist (set_node_pkt_hist mb new_nph h) m in
        case cache_get (m_cache m) mb new_nph of
          Some cached_results \<Rightarrow> Inr (use_injection_results cached_results m)
        | None \<Rightarrow>
            bindR (op_send_pkt ops mb new_pkt (m_world m)) (\<lambda>(results, w).
            let m = use_injection_results results (set_world w m) in
            Inr (set_cache (cache_insert mb new_nph results (m_cache m)) m)))) = Inr m'"
      using assms unfolding inject_packet_def Let_def by (fastforce simp: bindR_eq_Inr_iff)
    then obtain p where p: "packet_of_model (set_world w m) = Inr p" by (auto simp: bindR_eq_Inr_iff)
    obtain q m1 where q: "store_packet p (set_world w m) = (q, m1)" by fastforce
    from 1 obtain w2 where w2: "(case cache_get (m_cache (set_pkt_hist (set_node_pkt_hist mb (mk_node_pkt_hist q nph) h) (set_world w2 m1))) mb (mk_node_pkt_hist q nph) of
          Some cached_results \<Rightarrow> Inr (use_injection_results cached_results (set_pkt_hist (set_node_pkt_hist mb (mk_node_pkt_hist q nph) h) (set_world w2 m1)))
        | None \<Rightarrow>
            bindR (op_send_pkt ops mb q (m_world (set_pkt_hist (set_node_pkt_hist mb (mk_node_pkt_hist q nph) h) (set_world w2 m1)))) (\<lambda>(results, w).
            let m = use_injection_results results (set_world w (set_pkt_hist (set_node_pkt_hist mb (mk_node_pkt_hist q nph) h) (set_world w2 m1))) in
            Inr (set_cache (cache_insert mb (mk_node_pkt_hist q nph) results (m_cache m)) m))) = Inr m'"
      unfolding p q Let_def bindR_Inr by (auto simp: bindR_eq_Inr_iff)
    define M where "M = set_pkt_hist (set_node_pkt_hist mb (mk_node_pkt_hist q nph) h) (set_world w2 m1)"
    have "\<exists>rs ca w3. m' = use_injection_results rs M \<or> m' = set_cache ca (use_injection_results rs (set_world w3 M))"
    proof (cases "cache_get (m_cache M) mb (mk_node_pkt_hist q nph)")
      case (Some rs)
      then have "m' = use_injection_results rs M" using w2 by (simp add: M_def)
      then show ?thesis by blast
    next
      case None
      then obtain rs w where "m' = set_cache (cache_insert mb (mk_node_pkt_hist q nph) rs
          (m_cache (use_injection_results rs (set_world w M)))) (use_injection_results rs (set_world w M))"
        using w2 by (auto simp: M_def bindR_eq_Inr_iff Let_def)
      then show ?thesis by blast
    qed
    moreover have "frame m1 M" unfolding M_def by (rule frame_trans[OF frame_others(4) frame_others(3)])
    moreover have "now_conn_state (m_now M) = now_conn_state (m_now m1)"
      by (simp add: M_def model_defs set_world_def)
    ultimately show ?thesis using q by blast
  qed
  then obtain w p q m1 M rs ca w3 where a: "store_packet p (set_world w m) = (q, m1)" "frame m1 M"
      "now_conn_state (m_now M) = now_conn_state (m_now m1)"
      "m' = use_injection_results rs M \<or> m' = set_cache ca (use_injection_results rs (set_world w3 M))"
    by blast
  have n: "m_now m1 = m_now m" using cur_store[OF a(1)] by (simp add: set_world_def)
  have f: "frame m M"
    using frame_trans[OF frame_trans[OF frame_others(4) frame_store[OF a(1)]] a(2)] .
  have u: "frame x (use_injection_results rs x)" for x :: "'a model"
    unfolding use_injection_results_def
    by (rule frame_trans[OF frame_others(1) frame_trans[OF frame_setters(18) frame_setters(13)]])
  show "frame m m'" using a(4) f u frame_others(4,5) frame_trans by metis
  have c: "cur M = cur m" using f by (simp add: cur_def a(3) n frame_def get_conn_def)
  have "cur (use_injection_results rs x) = (cur x)\<lparr>cs_fwd_mode := CHOOSE_INJ_RES, cs_inj_results := Some rs\<rparr>
      \<and> get_choice_count (use_injection_results rs x) = int (length rs)" for x :: "'a model"
    by (simp add: use_injection_results_def model_defs)
  moreover have "cur (set_world w3 M) = cur M" "cur (set_cache ca x) = cur x"
      "get_choice_count (set_cache ca x) = get_choice_count x" for x :: "'a model"
    by (simp_all add: cur_def set_world_def set_cache_def get_choice_count_def)
  ultimately show "\<exists>rs. cur m' = (cur m)\<lparr>cs_fwd_mode := CHOOSE_INJ_RES, cs_inj_results := Some rs\<rparr>
    \<and> get_choice_count m' = int (length rs)"
    using a(4) c by metis
qed

lemma frame_drop [frames]: "frame m (drop_packet m)"
  unfolding drop_packet_def by (rule frame_trans[OF frame_setters(13) frame_setters(1)])

lemma fold_candidates_add: "fold candidates_add xs acc = acc @ xs"
  by (induction xs arbitrary: acc) (auto simp: candidates_add_def)

lemma candidates_of_eq:
  "candidates_of next_hops choice =
     (case choice of Some c \<Rightarrow> if length next_hops > 1 \<and> set_count ipnh_less c next_hops then [c] else next_hops
      | None \<Rightarrow> next_hops)"
  by (simp add: candidates_of_def fold_candidates_add candidates_add_def split: option.splits)

lemma collect_plain:
  assumes "node_at m (get_pkt_location m) = Inr nd" "\<not> is_emulated nd"
    and "collect_next_hops ops m = Inr m'"
  shows "\<exists>fib nhs. get_fib m = Some fib \<and> fib_lookup fib (get_pkt_location m) = Inr nhs \<and>
    (if nhs = [] then m' = drop_packet m
     else \<exists>ch. get_path_choices m = Some ch \<and>
       (let cs = candidates_of nhs (get_path_choice ch (get_dst_ip_ec m) (get_pkt_location m)) in
        m' = set_fwd_mode FORWARD_PACKET (set_candidates cs (set_choice_count (int (length cs)) m))))"
proof -
  have "bindR (valR (get_fib m)) (\<lambda>fib.
        bindR (fib_lookup fib (get_pkt_location m)) (\<lambda>next_hops.
        if next_hops = [] then Inr (drop_packet m)
        else
          bindR (valR (get_path_choices m)) (\<lambda>choices.
          let candidates = candidates_of next_hops (get_path_choice choices (get_dst_ip_ec m) (get_pkt_location m)) in
          Inr (set_fwd_mode FORWARD_PACKET
            (set_candidates candidates (set_choice_count (int (length candidates)) m)))))) = Inr m'"
    using assms unfolding collect_next_hops_def Let_def by simp
  then obtain fib nhs where f: "get_fib m = Some fib" "fib_lookup fib (get_pkt_location m) = Inr nhs"
    and r: "(if nhs = [] then Inr (drop_packet m)
        else
          bindR (valR (get_path_choices m)) (\<lambda>choices.
          let candidates = candidates_of nhs (get_path_choice choices (get_dst_ip_ec m) (get_pkt_location m)) in
          Inr (set_fwd_mode FORWARD_PACKET
            (set_candidates candidates (set_choice_count (int (length candidates)) m))))) = Inr m'"
    unfolding bindR_eq_Inr_iff valR_eq_Inr_iff by blast
  show ?thesis
  proof (cases "nhs = []")
    case True
    then show ?thesis using f r by simp
  next
    case False
    then obtain ch where "get_path_choices m = Some ch" "Inr m' =
        (let candidates = candidates_of nhs (get_path_choice ch (get_dst_ip_ec m) (get_pkt_location m)) in
          Inr (set_fwd_mode FORWARD_PACKET
            (set_candidates candidates (set_choice_count (int (length candidates)) m))) :: 'a model result)"
      using r by (auto simp only: if_False bindR_eq_Inr_iff valR_eq_Inr_iff)
    then show ?thesis using f False by (auto simp: Let_def)
  qed
qed

lemma collect_cases:
  assumes "collect_next_hops ops m = Inr m'"
  obtains (inject) "emulated_at (m_net m) (get_pkt_location m)"
      "inject_packet ops (get_pkt_location m) m = Inr m'"
    | (drop) "\<not> emulated_at (m_net m) (get_pkt_location m)" "m' = drop_packet m"
    | (forward) cs where "\<not> emulated_at (m_net m) (get_pkt_location m)" "cs \<noteq> []"
      "m' = set_fwd_mode FORWARD_PACKET (set_candidates cs (set_choice_count (int (length cs)) m))"
proof -
  obtain nd where nd: "node_at m (get_pkt_location m) = Inr nd"
    using assms by (auto simp: collect_next_hops_def Let_def bindR_eq_Inr_iff)
  show ?thesis
  proof (cases "is_emulated nd")
    case True
    then show ?thesis using assms nd node_at_emulated[OF nd]
      by (intro inject) (simp_all add: collect_next_hops_def Let_def)
  next
    case False
    obtain fib nhs where c: "if nhs = [] then m' = drop_packet m
     else \<exists>ch. get_path_choices m = Some ch \<and>
       (let cs = candidates_of nhs (get_path_choice ch (get_dst_ip_ec m) (get_pkt_location m)) in
        m' = set_fwd_mode FORWARD_PACKET (set_candidates cs (set_choice_count (int (length cs)) m)))"
      using collect_plain[OF nd False assms] by blast
    have e: "\<not> emulated_at (m_net m) (get_pkt_location m)" using node_at_emulated[OF nd] False by simp
    show ?thesis
    proof (cases "nhs = []")
      case True
      then show ?thesis using c e drop by simp
    next
      case ne: False
      then obtain ch where "m' = (let cs = candidates_of nhs (get_path_choice ch (get_dst_ip_ec m) (get_pkt_location m)) in
          set_fwd_mode FORWARD_PACKET (set_candidates cs (set_choice_count (int (length cs)) m)))"
        using c by (auto simp: Let_def)
      moreover have "candidates_of nhs ch' \<noteq> []" for ch'
        using ne by (simp add: candidates_of_eq split: option.splits)
      ultimately show ?thesis
        by (intro forward[OF e, of "candidates_of nhs (get_path_choice ch (get_dst_ip_ec m) (get_pkt_location m))"])
          (simp_all add: Let_def)
    qed
  qed
qed

lemma collect_frame: "collect_next_hops ops m = Inr m' \<Longrightarrow> frame m m'"
proof (erule collect_cases)
  show "frame m m'" if "inject_packet ops (get_pkt_location m) m = Inr m'"
    using inject_packet_effect(1)[OF that] .
  show "frame m m'" if "m' = drop_packet m" using frame_drop that by simp
  show "frame m m'" if "m' = set_fwd_mode FORWARD_PACKET (set_candidates cs (set_choice_count (int (length cs)) m))" for cs
    unfolding that by (rule frame_trans[OF frame_trans[OF frame_others(1) frame_setters(16)] frame_setters(13)])
qed

text \<open>C10. A node that is not emulated drops a packet for which its table has no next hop, and
  otherwise offers all its next hops as candidates, one choice each; after a choice has been made
  for the same class at this node, that choice alone, as long as it is still one of several next
  hops. Nothing else of the connection changes.\<close>

theorem collect_next_hops_spec:
  assumes "node_at m (get_pkt_location m) = Inr nd" "\<not> is_emulated nd"
    and "get_fib m = Some fib" "fib_lookup fib (get_pkt_location m) = Inr nhs" "oset nhs"
    and "collect_next_hops ops m = Inr m'"
  shows "frame m m' \<and>
    (if nhs = [] then cur m' = (cur m)\<lparr>cs_fwd_mode := DROPPED, cs_executable := 0\<rparr>
     else \<exists>ch cs. get_path_choices m = Some ch
       \<and> cs = (case get_path_choice ch (get_dst_ip_ec m) (get_pkt_location m) of
             Some c \<Rightarrow> if c \<in> set nhs then [c] else nhs | None \<Rightarrow> nhs)
       \<and> get_choice_count m' = int (length cs) \<and> cs \<noteq> [] \<and> set cs \<subseteq> set nhs
       \<and> cur m' = (cur m)\<lparr>cs_candidates := Some cs, cs_fwd_mode := FORWARD_PACKET\<rparr>)"
proof -
  have cnt: "set_count ipnh_less c nhs \<longleftrightarrow> c \<in> set nhs" for c
  proof -
    have "(\<lambda>a b :: fib_ipnh. ipnh_less a b) = (<)" by (simp add: less_fib_ipnh_def fun_eq_iff)
    then show ?thesis using oset_find_None[OF assms(5), of c] by (auto simp: set_count_def)
  qed
  show ?thesis
  proof (cases "nhs = []")
    case True
    then have "m' = drop_packet m" using collect_plain[OF assms(1,2,6)] assms(3,4) by auto
    then show ?thesis using True collect_frame[OF assms(6)] by (simp add: drop_packet_def model_defs)
  next
    case False
    then obtain ch where ch: "get_path_choices m = Some ch"
      and m': "m' = (let cs = candidates_of nhs (get_path_choice ch (get_dst_ip_ec m) (get_pkt_location m)) in
        set_fwd_mode FORWARD_PACKET (set_candidates cs (set_choice_count (int (length cs)) m)))"
      using collect_plain[OF assms(1,2,6)] assms(3,4) by (auto simp: Let_def)
    define cs where "cs = (case get_path_choice ch (get_dst_ip_ec m) (get_pkt_location m) of
             Some c \<Rightarrow> if c \<in> set nhs then [c] else nhs | None \<Rightarrow> nhs)"
    have "candidates_of nhs (get_path_choice ch (get_dst_ip_ec m) (get_pkt_location m)) = cs"
    proof (cases "length nhs > 1")
      case True
      then show ?thesis unfolding candidates_of_eq cs_def cnt by (simp split: option.splits)
    next
      case small: False
      then obtain x where "nhs = [x]" using False by (cases nhs) auto
      then show ?thesis unfolding candidates_of_eq cs_def cnt by (auto split: option.splits)
    qed
    then have "m' = set_fwd_mode FORWARD_PACKET (set_candidates cs (set_choice_count (int (length cs)) m))"
      using m' by (simp add: Let_def)
    then have "get_choice_count m' = int (length cs)"
        "cur m' = (cur m)\<lparr>cs_candidates := Some cs, cs_fwd_mode := FORWARD_PACKET\<rparr>"
      by (simp_all add: model_defs)
    moreover have "cs \<noteq> []" "set cs \<subseteq> set nhs" using False by (auto simp: cs_def split: option.splits)
    ultimately show ?thesis using ch cs_def collect_frame[OF assms(6)] False by auto
  qed
qed

text \<open>At a source without a next hop for its class, \<open>first_collect\<close> overwrites the mode that
  records the drop: the connection is left not executable in \<open>FIRST_FORWARD\<close>, so that no check of
  an invariant sees it dropped before the connection is chosen again.\<close>

theorem first_collect_hides_drop:
  assumes "node_at m (get_pkt_location m) = Inr nd" "\<not> is_emulated nd"
    and "get_fib m = Some fib" "fib_lookup fib (get_pkt_location m) = Inr []"
  shows "\<exists>m'. first_collect ops m = Inr m' \<and> get_fwd_mode m' = FIRST_FORWARD \<and> get_executable m' = 0
    \<and> get_candidates m' = get_candidates m"
proof -
  have "collect_next_hops ops m = Inr (drop_packet m)"
    using assms by (simp add: collect_next_hops_def Let_def)
  then show ?thesis by (simp add: first_collect_def drop_packet_def model_defs)
qed

section \<open>Forwarding\<close>

text \<open>The effect of \<open>forward_packet\<close> on the current connection.\<close>

definition forwarded_state :: "network \<Rightarrow> fib_ipnh \<Rightarrow> choices option \<Rightarrow> conn_state \<Rightarrow> conn_state" where
  "forwarded_state net nh ch cs =
     (let first = ps_is_first (cs_proto_state cs); cs' = cs\<lparr>cs_path_choices := ch\<rparr> in
      if l3_node nh = cs_pkt_location cs then
        (if first then cs'\<lparr>cs_rx_node := cs_pkt_location cs\<rparr> else cs')\<lparr>cs_fwd_mode := ACCEPTED\<rparr>
      else
        (if emulated_at net (l3_node nh)
         then (if first then cs'\<lparr>cs_rx_node := l3_node nh\<rparr> else cs')\<lparr>cs_executable := 1\<rparr>
         else cs')\<lparr>cs_pkt_location := l3_node nh, cs_ingress_intf := l3_intf nh, cs_fwd_mode := COLLECT_NHOPS\<rparr>)"

lemma forward_packet_effect:
  assumes "forward_packet m = Inr m'"
  shows "\<exists>cs nh ch. get_candidates m = Some cs \<and> candidates_at cs (get_choice m) = Inr nh
    \<and> (if length cs > 1 then \<exists>old new. get_path_choices m = Some old \<and> ch = Some new
         \<and> add_choice (get_dst_ip_ec m) (get_pkt_location m) nh old = Inr new
       else ch = get_path_choices m)
    \<and> m' = set_choice_count 1 (upd_cur (forwarded_state (m_net m) nh ch) m)"
proof -
  obtain cs m1 nh where cs: "get_candidates m = Some cs" "remember_choice cs m = Inr m1"
      "candidates_at cs (get_choice m1) = Inr nh"
    and r: "(if l3_node nh = get_pkt_location m then deliver_packet m1
       else move_packet (l3_node nh) (l3_intf nh) m1) = Inr m'"
    using assms unfolding forward_packet_def Let_def bindR_eq_Inr_iff valR_eq_Inr_iff by blast
  obtain ch where m1: "m1 = upd_cur (\<lambda>c. c\<lparr>cs_path_choices := ch\<rparr>) m"
    and ch: "if length cs > 1 then \<exists>old new. get_path_choices m = Some old \<and> ch = Some new
         \<and> add_choice (get_dst_ip_ec m) (get_pkt_location m) nh old = Inr new
       else ch = get_path_choices m"
  proof (cases "length cs > 1")
    case True
    then obtain old nh' new where o: "get_path_choices m = Some old"
        "candidates_at cs (get_choice m) = Inr nh'"
        "add_choice (get_dst_ip_ec m) (get_pkt_location m) nh' old = Inr new" "m1 = set_path_choices new m"
      using cs(2) by (auto simp: remember_choice_def bindR_eq_Inr_iff)
    moreover have "nh' = nh" using o(2,4) cs(3) by (simp add: model_defs)
    ultimately show ?thesis using True by (intro that[of "Some new"]) (auto simp: set_path_choices_def)
  next
    case False
    then have "m1 = m" using cs(2) by (simp add: remember_choice_def)
    then show ?thesis using False by (intro that[of "get_path_choices m"]) (simp_all add: model_defs)
  qed
  have c: "candidates_at cs (get_choice m) = Inr nh" using cs(3) by (simp add: m1)
  have "m' = set_choice_count 1 (upd_cur (forwarded_state (m_net m) nh ch) m)"
  proof (cases "l3_node nh = get_pkt_location m")
    case True
    then have "m' = set_choice_count 1 (set_fwd_mode ACCEPTED
        (if ps_is_first (get_proto_state m1) then set_rx_node (get_pkt_location m1) m1 else m1))"
      using r by (auto simp: deliver_packet_def Let_def bindR_eq_Inr_iff)
    then show ?thesis using True by (simp add: m1 forwarded_state_def model_defs)
  next
    case False
    then obtain nd where nd: "node_at m1 (l3_node nh) = Inr nd"
      and m': "m' = set_choice_count 1 (set_fwd_mode COLLECT_NHOPS (set_ingress_intf (l3_intf nh)
        (set_pkt_location (l3_node nh) (if is_emulated nd then set_executable 1
          (if ps_is_first (get_proto_state m1) then set_rx_node (l3_node nh) m1 else m1) else m1))))"
      using r by (auto simp: move_packet_def Let_def bindR_eq_Inr_iff)
    have e: "emulated_at (m_net m) (l3_node nh) = is_emulated nd"
      using node_at_emulated[OF nd] by (simp add: m1)
    show ?thesis using False unfolding m' by (simp add: m1 forwarded_state_def model_defs e)
  qed
  then show ?thesis using cs(1) c ch by blast
qed

lemma forward_frame: "forward_packet m = Inr m' \<Longrightarrow> frame m m'"
  using forward_packet_effect frame_trans[OF frame_upd_cur frame_others(1)] by blast

text \<open>C9. Forwarding follows the chosen candidate: if it is the node itself the packet is accepted
  there, otherwise it moves to the candidate's node and interface and next hops are collected
  again; a middlebox ahead makes the connection wait for its turn. The receiver of a new connection
  is recorded at the node that accepts the packet or at the first middlebox, and a choice among
  several candidates is remembered for the class and node. No other connection changes.\<close>

theorem forward_packet_spec:
  assumes "forward_packet m = Inr m'"
  shows "\<exists>cs nh. get_candidates m = Some cs \<and> candidates_at cs (get_choice m) = Inr nh \<and> frame m m'
    \<and> get_choice_count m' = 1
    \<and> (if l3_node nh = get_pkt_location m
       then get_fwd_mode m' = ACCEPTED \<and> get_pkt_location m' = get_pkt_location m
         \<and> get_executable m' = get_executable m
       else get_fwd_mode m' = COLLECT_NHOPS \<and> get_pkt_location m' = l3_node nh
         \<and> get_ingress_intf m' = l3_intf nh
         \<and> get_executable m' = (if emulated_at (m_net m) (l3_node nh) then 1 else get_executable m))
    \<and> get_rx_node m' =
       (if ps_is_first (get_proto_state m) \<and> (l3_node nh = get_pkt_location m \<or> emulated_at (m_net m) (l3_node nh))
        then l3_node nh else get_rx_node m)
    \<and> (length cs > 1 \<longrightarrow> (\<exists>ch. get_path_choices m' = Some ch
         \<and> get_path_choice ch (get_dst_ip_ec m) (get_pkt_location m) = Some nh))"
proof -
  obtain cs nh ch where e: "get_candidates m = Some cs" "candidates_at cs (get_choice m) = Inr nh"
      "if length cs > 1 then \<exists>old new. get_path_choices m = Some old \<and> ch = Some new
         \<and> add_choice (get_dst_ip_ec m) (get_pkt_location m) nh old = Inr new
       else ch = get_path_choices m"
    and m': "m' = set_choice_count 1 (upd_cur (forwarded_state (m_net m) nh ch) m)"
    using forward_packet_effect[OF assms] by blast
  have c: "cur m' = forwarded_state (m_net m) nh ch (cur m)"
    unfolding m' by (simp add: cur_upd_cur[symmetric] del: cur_upd_cur) (simp add: model_defs)
  have "length cs > 1 \<longrightarrow> (\<exists>ch'. ch = Some ch'
      \<and> get_path_choice ch' (get_dst_ip_ec m) (get_pkt_location m) = Some nh)"
    using e(3) by (auto simp: add_choice_def omap_insert_def get_path_choice_def split: option.splits)
  moreover have "cs_path_choices (forwarded_state (m_net m) nh ch (cur m)) = ch"
    by (simp add: forwarded_state_def Let_def)
  ultimately have p: "length cs > 1 \<longrightarrow> (\<exists>ch. get_path_choices m' = Some ch
         \<and> get_path_choice ch (get_dst_ip_ec m) (get_pkt_location m) = Some nh)"
    by (simp add: get_path_choices_def c)
  have f: "frame m m'" unfolding m' by (rule frame_trans[OF frame_upd_cur frame_others(1)])
  have n: "get_choice_count m' = 1" unfolding m' by (simp add: model_defs)
  show ?thesis using e(1,2) f n p
    by (intro exI[of _ cs] exI[of _ nh] conjI)
      (simp_all add: get_fwd_mode_def get_pkt_location_def get_executable_def get_ingress_intf_def
        get_rx_node_def get_proto_state_def c forwarded_state_def Let_def)
qed

text \<open>A second choice for the same class and node is an error: when the remembered next hop has
  left the table (an OpenFlow update was installed since) and several next hops remain, the node
  offers them all and forwarding to any of them stops the verifier.\<close>

theorem duplicate_choice_after_table_change:
  assumes "node_at m (get_pkt_location m) = Inr nd" "\<not> is_emulated nd"
    and "get_fib m = Some fib" "fib_lookup fib (get_pkt_location m) = Inr nhs"
    and "get_path_choices m = Some ch"
    and "get_path_choice ch (get_dst_ip_ec m) (get_pkt_location m) = Some old"
    and "\<not> set_count ipnh_less old nhs" "length nhs > 1" "k < length nhs"
  shows "\<exists>m'. collect_next_hops ops m = Inr m' \<and> get_choice_count m' = int (length nhs)
    \<and> forward_packet (set_choice (int k) m') = Inl (Runtime_error ''Duplicate choice key: '')"
proof -
  have ne: "nhs \<noteq> []" using assms(8) by auto
  let ?m' = "set_fwd_mode FORWARD_PACKET (set_candidates nhs (set_choice_count (int (length nhs)) m))"
  have "candidates_of nhs (get_path_choice ch (get_dst_ip_ec m) (get_pkt_location m)) = nhs"
    by (simp add: candidates_of_eq assms(6,7))
  then have "collect_next_hops ops m = Inr ?m'"
    using assms(1-5) ne unfolding collect_next_hops_def Let_def by simp
  moreover have "map_of ch (get_dst_ip_ec m, get_pkt_location m) = Some old"
    using assms(6) by (simp add: get_path_choice_def)
  then have "forward_packet (set_choice (int k) ?m') = Inl (Runtime_error ''Duplicate choice key: '')"
    using assms(5,8,9)
    by (simp add: forward_packet_def remember_choice_def Let_def candidates_at_def add_choice_def
      omap_insert_def model_defs)
  moreover have "get_choice_count ?m' = int (length nhs)" by (simp add: model_defs)
  ultimately show ?thesis by blast
qed

definition sample_ops :: "unit emu_ops" where
  "sample_ops = \<lparr>op_rewind = (\<lambda>_ _. Inr), op_set_nph = (\<lambda>_ _. Inr), op_send_pkt = (\<lambda>_ _ w. Inr ([], w))\<rparr>"

definition sample_router :: "string \<Rightarrow> node" where
  "sample_router n = sample_switch\<lparr>nd_name := n, nd_l2_peers := Map.empty, nd_rib := []\<rparr>"

text \<open>A node with two next hops, in the modes that collect and forward.\<close>

definition sample_fwd_model :: "fib_ipnh list \<Rightarrow> choices \<Rightarrow> candidates option \<Rightarrow> unit model" where
  "sample_fwd_model nhs ch cs =
     sample_of_model\<lparr>
       m_net := (m_net sample_of_model)\<lparr>net_objs := (net_objs (m_net sample_of_model))\<lparr>
         node_heap := [1 \<mapsto> sample_switch, 2 \<mapsto> sample_router ''h2'', 3 \<mapsto> sample_router ''h3'']\<rparr>\<rparr>,
       m_now := sample_now\<lparr>now_choice := 1, now_choice_count := 2,
         now_conn_state := (\<lambda>_. sample_conn\<lparr>cs_fib := Some [(1, nhs)], cs_path_choices := Some ch,
           cs_candidates := cs, cs_fwd_mode := COLLECT_NHOPS\<rparr>)\<rparr>\<rparr>"

abbreviation "sample_nhs \<equiv> [FIB_IPNH 2 12 2 12, FIB_IPNH 3 13 3 13]"

lemma sample_fwd_simps:
  "node_at (sample_fwd_model nhs ch cs) (get_pkt_location (sample_fwd_model nhs ch cs)) = Inr sample_switch"
  "\<not> is_emulated sample_switch"
  "get_fib (sample_fwd_model nhs ch cs) = Some [(1, nhs)]"
  "fib_lookup [(1, nhs)] (get_pkt_location (sample_fwd_model nhs ch cs)) = Inr nhs"
  "get_path_choices (sample_fwd_model nhs ch cs) = Some ch"
  by (simp_all add: sample_fwd_model_def sample_of_model_def sample_model_def sample_now_def sample_conn_def
    model_defs node_at_def derefR_def is_emulated_def sample_switch_def fib_lookup_def)

lemma sample_nhs_oset: "oset sample_nhs"
  by (simp add: oset_def sorted_set_def less_fib_ipnh_def ipnh_less_def)

theorem collect_next_hops_spec_witness:
  "\<exists>m'. collect_next_hops sample_ops (sample_fwd_model sample_nhs [] None) = Inr m'
     \<and> get_choice_count m' = 2 \<and> get_fwd_mode m' = FORWARD_PACKET"
proof -
  let ?m = "sample_fwd_model sample_nhs [] None"
  have "is_ok (collect_next_hops sample_ops ?m)"
    unfolding collect_next_hops_def Let_def by (simp add: sample_fwd_simps del: One_nat_def)
  then obtain m' where m': "collect_next_hops sample_ops ?m = Inr m'" by (auto simp: is_ok_iff)
  note t = collect_next_hops_spec[OF sample_fwd_simps(1-4) sample_nhs_oset m']
  have c: "get_path_choice [] e n = None" for e n by (simp add: get_path_choice_def)
  have "get_choice_count m' = 2" "cs_fwd_mode (cur m') = FORWARD_PACKET"
    using t by (auto simp: c sample_fwd_simps(5))
  then show ?thesis using m' by (simp add: get_fwd_mode_def)
qed

theorem first_collect_hides_drop_witness:
  "\<exists>m'. first_collect sample_ops (sample_fwd_model [] [] None) = Inr m'
     \<and> get_fwd_mode m' = FIRST_FORWARD \<and> get_executable m' = 0"
  using first_collect_hides_drop[OF sample_fwd_simps(1-4)] by blast

theorem forward_packet_spec_witness:
  "\<exists>m'. forward_packet (sample_fwd_model sample_nhs [] (Some sample_nhs)) = Inr m'
     \<and> get_fwd_mode m' = COLLECT_NHOPS \<and> get_pkt_location m' = 3"
proof -
  let ?m = "sample_fwd_model sample_nhs [] (Some sample_nhs)"
  have "is_ok (forward_packet ?m)" by code_simp
  then obtain m' where m': "forward_packet ?m = Inr m'" by (auto simp: is_ok_iff)
  have c: "get_candidates ?m = Some sample_nhs" "candidates_at sample_nhs (get_choice ?m) = Inr (FIB_IPNH 3 13 3 13)"
      "get_pkt_location ?m = 1"
    by code_simp+
  from forward_packet_spec[OF m'] c show ?thesis using m' by auto
qed

theorem duplicate_choice_after_table_change_witness:
  "\<exists>m'. collect_next_hops ops (sample_fwd_model sample_nhs [((1, 1), FIB_IPNH 4 14 4 14)] None) = Inr m'
     \<and> forward_packet (set_choice (int 0) m') = Inl (Runtime_error ''Duplicate choice key: '')"
proof -
  let ?m = "sample_fwd_model sample_nhs [((1, 1), FIB_IPNH 4 14 4 14)] None"
  have h: "get_path_choice [((1, 1), FIB_IPNH 4 14 4 14)] (get_dst_ip_ec ?m) (get_pkt_location ?m)
      = Some (FIB_IPNH 4 14 4 14)"
      "\<not> set_count ipnh_less (FIB_IPNH 4 14 4 14) sample_nhs" "length sample_nhs > 1" "0 < length sample_nhs"
    by code_simp+
  from duplicate_choice_after_table_change[OF sample_fwd_simps(1-5) h] show ?thesis by blast
qed

section \<open>Protocol state transitions\<close>

lemma turn_around_effect:
  assumes "turn_around m = Inr m'"
  shows "\<exists>a ec fib. ec_addr m (get_dst_ip_ec m) = Inr a \<and> find_ec (get_src_ip m) (m_ecs m) = Inr ec \<and>
    m' = upd_cur (\<lambda>c. c\<lparr>cs_src_ip := a, cs_dst_ip_ec := ec, cs_src_node := cs_pkt_location c,
      cs_src_port := cs_dst_port c, cs_dst_port := cs_src_port c, cs_fib := Some fib\<rparr>) m \<and> update_fib m' = Inr m'"
proof -
  obtain a where a: "ec_addr m (get_dst_ip_ec m) = Inr a"
    using assms unfolding turn_around_def Let_def bindR_eq_Inr_iff by blast
  obtain ec where ec: "find_ec (get_src_ip m) (m_ecs m) = Inr ec"
    using assms unfolding turn_around_def Let_def a bindR_Inr bindR_eq_Inr_iff
    by (auto simp: set_src_ip_def)
  let ?m = "upd_cur (\<lambda>c. c\<lparr>cs_src_ip := a, cs_dst_ip_ec := ec, cs_src_node := cs_pkt_location c,
      cs_src_port := cs_dst_port c, cs_dst_port := cs_src_port c\<rparr>) m"
  have "update_fib ?m = Inr m'"
    using assms unfolding turn_around_def Let_def a bindR_Inr
    by (simp add: ec set_src_ip_def set_dst_ip_ec_def set_src_node_def set_src_port_def set_dst_port_def
      get_pkt_location_def get_src_port_def get_dst_port_def comp_def)
      (simp add: upd_cur_def upd_now_def cur_def)
  then obtain fib where f: "update_fib ?m = Inr m'" "m' = set_fib fib ?m" using update_fib_form by blast
  have "update_fib m' = Inr m'"
    by (rule update_fib_again[OF f(1)]) (simp_all add: f(2) set_fib_def get_dst_ip_ec_def
      get_openflow_update_state_def upd_cur_def upd_now_def cur_def)
  then show ?thesis using a ec f(2) by (auto simp: set_fib_def comp_def)
qed

text \<open>The transition either freezes the connection, when the next sender is a middlebox, or has this
  effect.\<close>

definition turned :: "bool \<Rightarrow> conn_state \<Rightarrow> conn_state" where
  "turned dir cs =
     (if dir then cs\<lparr>cs_src_node := cs_pkt_location cs, cs_src_port := cs_dst_port cs,
        cs_dst_port := cs_src_port cs\<rparr>
      else cs\<lparr>cs_pkt_location := cs_src_node cs\<rparr>)"

definition next_seq_ack :: "bool \<Rightarrow> conn_state \<Rightarrow> 32 word \<times> 32 word" where
  "next_seq_ack dir cs =
     (let sq = seq_after (cs_proto_state cs) (cs_payload cs) (cs_seq cs) in
      if ps_is_tcp (cs_proto_state cs) then if dir then (cs_ack cs, sq) else (sq, cs_ack cs)
      else (cs_seq cs, cs_ack cs))"

lemma update_seq_ack_eq:
  "update_seq_ack dir m = upd_cur (\<lambda>c. c\<lparr>cs_seq := fst (next_seq_ack dir (cur m)),
     cs_ack := snd (next_seq_ack dir (cur m))\<rparr>) m"
  by (simp add: update_seq_ack_def next_seq_ack_def Let_def set_seq_def set_ack_def get_proto_state_def
    get_payload_def get_seq_def get_ack_def comp_def) (simp add: upd_cur_def upd_now_def cur_def)

lemma phase_transition_steps:
  assumes "phase_transition st dir m = Inr m'" "node_at m (if dir then get_pkt_location m else get_src_node m) = Inr n"
    and "\<not> is_emulated n" and "m1 = set_proto_state st (update_seq_ack dir m)"
  obtains m2 pl m3 where "(if dir then turn_around m1 else Inr (set_pkt_location (get_src_node m1) m1)) = Inr m2"
    and "get_payload_from_model m2 = Inr (pl, m3)"
    and "m' = reset_injection_results (reset_candidates (set_ingress_intf 0 (set_fwd_mode FIRST_COLLECT (set_payload pl m3))))"
proof -
  have "bindR (if dir then turn_around m1 else Inr (set_pkt_location (get_src_node m1) m1)) (\<lambda>m.
      bindR (get_payload_from_model m) (\<lambda>(pl, m).
      print_conn_states (reset_injection_results (reset_candidates
        (set_ingress_intf 0 (set_fwd_mode FIRST_COLLECT (set_payload pl m))))))) = Inr m'"
    using assms(1) unfolding phase_transition_def Let_def assms(2) bindR_Inr assms(4)[symmetric]
    using assms(3) by simp
  then obtain m2 pl m3 where r: "(if dir then turn_around m1 else Inr (set_pkt_location (get_src_node m1) m1)) = Inr m2"
      "get_payload_from_model m2 = Inr (pl, m3)"
      "print_conn_states (reset_injection_results (reset_candidates
        (set_ingress_intf 0 (set_fwd_mode FIRST_COLLECT (set_payload pl m3))))) = Inr m'"
    by (auto simp: bindR_eq_Inr_iff)
  show thesis by (rule that[OF r(1,2) print_conn_states_id[OF r(3)]])
qed

lemma turn_effect:
  assumes "(if dir then turn_around m1 else Inr (set_pkt_location (get_src_node m1) m1)) = Inr m2"
  obtains a ec fib where
      "m2 = upd_cur (\<lambda>c. (turned dir c)\<lparr>cs_src_ip := a, cs_dst_ip_ec := ec, cs_fib := fib\<rparr>) m1"
    and "\<not> dir \<longrightarrow> a = get_src_ip m1 \<and> ec = get_dst_ip_ec m1 \<and> fib = get_fib m1"
    and "dir \<longrightarrow> ec_addr m1 (get_dst_ip_ec m1) = Inr a \<and> find_ec (get_src_ip m1) (m_ecs m1) = Inr ec
      \<and> update_fib m2 = Inr m2"
proof (cases dir)
  case True
  then obtain a ec f where t: "ec_addr m1 (get_dst_ip_ec m1) = Inr a"
      "find_ec (get_src_ip m1) (m_ecs m1) = Inr ec"
      "m2 = upd_cur (\<lambda>c. c\<lparr>cs_src_ip := a, cs_dst_ip_ec := ec, cs_src_node := cs_pkt_location c,
        cs_src_port := cs_dst_port c, cs_dst_port := cs_src_port c, cs_fib := Some f\<rparr>) m1" "update_fib m2 = Inr m2"
    using turn_around_effect[of m1 m2] assms by auto
  have "(\<lambda>c. c\<lparr>cs_src_ip := a, cs_dst_ip_ec := ec, cs_src_node := cs_pkt_location c,
        cs_src_port := cs_dst_port c, cs_dst_port := cs_src_port c, cs_fib := Some f\<rparr>) =
      (\<lambda>c. (turned dir c)\<lparr>cs_src_ip := a, cs_dst_ip_ec := ec, cs_fib := Some f\<rparr>)"
    using True by (simp add: turned_def fun_eq_iff)
  then have t3: "m2 = upd_cur (\<lambda>c. (turned dir c)\<lparr>cs_src_ip := a, cs_dst_ip_ec := ec, cs_fib := Some f\<rparr>) m1"
    using t(3) by simp
  show thesis using t(1,2,4) True by (intro that[OF t3]) simp_all
next
  case f: False
  then have "m2 = upd_cur (\<lambda>c. c\<lparr>cs_pkt_location := cs_src_node (cur m1)\<rparr>) m1"
    using assms by (simp add: set_pkt_location_def get_src_node_def)
  also have "\<dots> = upd_cur (\<lambda>c. (turned dir c)\<lparr>cs_src_ip := get_src_ip m1, cs_dst_ip_ec := get_dst_ip_ec m1, cs_fib := get_fib m1\<rparr>) m1"
    using f by (simp add: turned_def model_defs)
  finally show thesis using f that by blast
qed

lemma phase_transition_effect:
  assumes "phase_transition st dir m = Inr m'"
    and "nd = (if dir then get_pkt_location m else get_src_node m)"
  shows "if emulated_at (m_net m) nd then m' = set_executable 0 m
    else frame m m' \<and> get_choice_count m' = get_choice_count m \<and>
      (\<exists>a ec fib pl. cur m' = (turned dir (cur m))\<lparr>cs_proto_state := st,
        cs_seq := fst (next_seq_ack dir (cur m)), cs_ack := snd (next_seq_ack dir (cur m)),
        cs_src_ip := a, cs_dst_ip_ec := ec, cs_fib := fib, cs_payload := pl,
        cs_fwd_mode := FIRST_COLLECT, cs_ingress_intf := 0, cs_candidates := None,
        cs_inj_results := None\<rparr> \<and>
       (\<not> dir \<longrightarrow> a = get_src_ip m \<and> ec = get_dst_ip_ec m \<and> fib = get_fib m) \<and>
       (dir \<longrightarrow> ec_addr m (get_dst_ip_ec m) = Inr a \<and> find_ec (get_src_ip m) (m_ecs m) = Inr ec
         \<and> update_fib m' = Inr m'))"
proof -
  obtain n where n: "node_at m nd = Inr n"
    using assms unfolding phase_transition_def Let_def bindR_eq_Inr_iff by blast
  note e = node_at_emulated[OF n]
  show ?thesis
  proof (cases "is_emulated n")
    case True
    then have "m' = set_executable 0 m"
      using assms n unfolding phase_transition_def Let_def by simp
    then show ?thesis using True e by simp
  next
    case False
    define m1 where "m1 = set_proto_state st (update_seq_ack dir m)"
    obtain m2 pl m3 where m2: "(if dir then turn_around m1 else Inr (set_pkt_location (get_src_node m1) m1)) = Inr m2"
      and pl: "get_payload_from_model m2 = Inr (pl, m3)"
      and m': "m' = reset_injection_results (reset_candidates (set_ingress_intf 0 (set_fwd_mode FIRST_COLLECT (set_payload pl m3))))"
      using phase_transition_steps[OF assms(1) n[unfolded assms(2)] False m1_def] by blast
    have m1: "m1 = upd_cur (\<lambda>c. c\<lparr>cs_seq := fst (next_seq_ack dir (cur m)),
        cs_ack := snd (next_seq_ack dir (cur m)), cs_proto_state := st\<rparr>) m"
      by (simp add: m1_def update_seq_ack_eq set_proto_state_def comp_def)
    have ea: "ec_addr m1 x = ec_addr m x" for x by (simp add: m1 ec_addr_def)
    have g: "get_src_ip m1 = get_src_ip m" "get_dst_ip_ec m1 = get_dst_ip_ec m" "get_fib m1 = get_fib m"
        "m_ecs m1 = m_ecs m"
      by (simp_all add: m1 get_dst_ip_ec_def get_src_ip_def get_fib_def)
    obtain a ec fib where m2': "m2 = upd_cur (\<lambda>c. (turned dir c)\<lparr>cs_src_ip := a, cs_dst_ip_ec := ec, cs_fib := fib\<rparr>) m1"
      and dirs: "\<not> dir \<longrightarrow> a = get_src_ip m \<and> ec = get_dst_ip_ec m \<and> fib = get_fib m"
        "dir \<longrightarrow> ec_addr m (get_dst_ip_ec m) = Inr a \<and> find_ec (get_src_ip m) (m_ecs m) = Inr ec \<and> update_fib m2 = Inr m2"
      by (rule turn_effect[OF m2]) (simp only: ea g)
    have m3: "m_now m3 = m_now m2" by (rule cur_payload[OF pl])
    then have c3: "cur m3 = cur m2" by (simp add: cur_def)
    have cur': "cur m' = (turned dir (cur m))\<lparr>cs_proto_state := st,
        cs_seq := fst (next_seq_ack dir (cur m)), cs_ack := snd (next_seq_ack dir (cur m)),
        cs_src_ip := a, cs_dst_ip_ec := ec, cs_fib := fib, cs_payload := pl,
        cs_fwd_mode := FIRST_COLLECT, cs_ingress_intf := 0, cs_candidates := None,
        cs_inj_results := None\<rparr>"
      by (simp add: m' reset_injection_results_def reset_candidates_def set_ingress_intf_def
        set_fwd_mode_def set_payload_def c3 m2' m1 turned_def comp_def)
    have f2: "frame m m2" unfolding m2' m1 by (rule frame_trans[OF frame_upd_cur frame_upd_cur])
    have "frame m3 m'" unfolding m' reset_injection_results_def reset_candidates_def
        set_ingress_intf_def set_fwd_mode_def set_payload_def upd_cur_upd_cur
      by (rule frame_upd_cur)
    then have f: "frame m m'" using f2 frame_payload[OF pl] frame_trans by blast
    have "get_choice_count m2 = get_choice_count m" by (simp add: m2' m1)
    then have "get_choice_count m' = get_choice_count m"
      using m3 by (simp add: m' model_defs)
    moreover have "update_fib m' = Inr m'" if "update_fib m2 = Inr m2"
      by (rule update_fib_again[OF that]; use payload_frame[OF pl] m3 in
        \<open>simp add: m' reset_injection_results_def reset_candidates_def set_ingress_intf_def set_fwd_mode_def
          set_payload_def get_fib_def get_dst_ip_ec_def get_openflow_update_state_def upd_cur_def upd_now_def cur_def\<close>)
    ultimately show ?thesis using e False f cur' dirs by auto
  qed
qed

text \<open>The transitions of \<open>accepted\<close>: the next state and whether the direction changes.\<close>

definition next_phase :: "ps \<Rightarrow> bool \<Rightarrow> (ps \<times> bool) option" where
  "next_phase st at_middlebox =
     (if ps_is_last st then None
      else Some (st + 1, if st = PS_TCP_L7_REP_A then \<not> at_middlebox
                         else st \<notin> {PS_TCP_INIT_3, PS_TCP_L7_REQ_A}))"

lemma proto_stateE:
  assumes "1 \<le> st" "st \<le> (14 :: ps)"
  obtains "st = 1" | "st = 2" | "st = 3" | "st = 4" | "st = 5" | "st = 6" | "st = 7" | "st = 8"
    | "st = 9" | "st = 10" | "st = 11" | "st = 12" | "st = 13" | "st = 14"
proof -
  have "st \<in> set proto_states" using assms valid_ps_iff by blast
  then show ?thesis using that by (auto simp: proto_states_def)
qed

lemma accepted_eq:
  assumes "1 \<le> get_proto_state m" "get_proto_state m \<le> 14"
    and "node_at m (get_pkt_location m) = Inr nd"
  shows "accepted m = (case next_phase (get_proto_state m) (is_emulated nd) of
      None \<Rightarrow> Inr (set_executable 0 m) | Some (st, dir) \<Rightarrow> phase_transition st dir m)"
  using assms(1,2)
  by (cases "get_proto_state m" rule: proto_stateE)
    (simp_all add: accepted_def next_phase_def ps_is_last_def assms(3))

lemma next_phase_same_proto:
  assumes "1 \<le> st" "st \<le> 14" "next_phase st b = Some (st', dir)"
  shows "ps_is_next st' st \<and> 1 \<le> st' \<and> st' \<le> 14 \<and> \<not> ps_is_first st'"
  using assms(1,2)
proof (cases st rule: proto_stateE)
qed (use assms(3) in \<open>auto simp: next_phase_def ps_defs split: if_splits\<close>)

text \<open>C8. When a packet has been accepted, the connection ends if its state is the last of its
  protocol, and it is frozen exactly if the next sender is a middlebox: only \<open>executable\<close> is
  cleared. Otherwise it moves to the next state of the same protocol and starts over at the next
  sender, which is the node that accepted the packet when the direction changes and the old sender
  when it does not. When it changes, the source address becomes that of the old destination class,
  the destination class the one of the old source address, the ports change places, and the
  forwarding table is the one of the new destination; otherwise all of these stay. The sequence
  numbers are those of the next segment, candidates and injection results are cleared, and the
  original end points stay recorded.\<close>

theorem accepted_spec:
  assumes "1 \<le> get_proto_state m" "get_proto_state m \<le> 14"
    and "node_at m (get_pkt_location m) = Inr nd" and "accepted m = Inr m'"
  shows "case next_phase (get_proto_state m) (is_emulated nd) of
      None \<Rightarrow> ps_is_last (get_proto_state m) \<and> m' = set_executable 0 m
    | Some (st, dir) \<Rightarrow>
       (let sender = (if dir then get_pkt_location m else get_src_node m) in
        if emulated_at (m_net m) sender then m' = set_executable 0 m
        else get_proto_state m' = st \<and> ps_is_next st (get_proto_state m) \<and> frame m m'
          \<and> get_fwd_mode m' = FIRST_COLLECT \<and> get_executable m' = get_executable m
          \<and> get_src_node m' = sender \<and> get_pkt_location m' = sender \<and> get_ingress_intf m' = 0
          \<and> (if dir then ec_addr m (get_dst_ip_ec m) = Inr (get_src_ip m')
               \<and> find_ec (get_src_ip m) (m_ecs m) = Inr (get_dst_ip_ec m') \<and> update_fib m' = Inr m'
             else get_src_ip m' = get_src_ip m \<and> get_dst_ip_ec m' = get_dst_ip_ec m \<and> get_fib m' = get_fib m)
          \<and> (get_src_port m', get_dst_port m') =
              (if dir then (get_dst_port m, get_src_port m) else (get_src_port m, get_dst_port m))
          \<and> (get_seq m', get_ack m') = next_seq_ack dir (cur m)
          \<and> get_candidates m' = None \<and> get_injection_results m' = None
          \<and> get_tx_node m' = get_tx_node m \<and> get_rx_node m' = get_rx_node m)"
proof (cases "next_phase (get_proto_state m) (is_emulated nd)")
  case None
  then have "m' = set_executable 0 m" using accepted_eq[OF assms(1-3)] assms(4) by simp
  then show ?thesis using None by (simp add: next_phase_def split: if_splits)
next
  case (Some sd)
  obtain st dir where sd: "sd = (st, dir)" by (cases sd)
  define sender where "sender = (if dir then get_pkt_location m else get_src_node m)"
  have "phase_transition st dir m = Inr m'" using accepted_eq[OF assms(1-3)] assms(4) Some sd by simp
  note e = phase_transition_effect[OF this sender_def]
  show ?thesis
  proof (cases "emulated_at (m_net m) sender")
    case True
    then show ?thesis using e Some sd by (simp add: sender_def[symmetric])
  next
    case False
    then obtain a ec fib pl where f: "frame m m'" and c: "cur m' = (turned dir (cur m))\<lparr>cs_proto_state := st,
        cs_seq := fst (next_seq_ack dir (cur m)), cs_ack := snd (next_seq_ack dir (cur m)),
        cs_src_ip := a, cs_dst_ip_ec := ec, cs_fib := fib, cs_payload := pl,
        cs_fwd_mode := FIRST_COLLECT, cs_ingress_intf := 0, cs_candidates := None,
        cs_inj_results := None\<rparr>"
      and d: "\<not> dir \<longrightarrow> a = get_src_ip m \<and> ec = get_dst_ip_ec m \<and> fib = get_fib m"
        "dir \<longrightarrow> ec_addr m (get_dst_ip_ec m) = Inr a \<and> find_ec (get_src_ip m) (m_ecs m) = Inr ec
          \<and> update_fib m' = Inr m'"
      using e by auto
    have n: "ps_is_next st (get_proto_state m)"
      using next_phase_same_proto[OF assms(1,2)] Some sd by auto
    note gets = get_proto_state_def get_src_node_def get_pkt_location_def get_fwd_mode_def get_executable_def
      get_src_port_def get_dst_port_def get_tx_node_def get_rx_node_def get_ingress_intf_def get_src_ip_def
      get_dst_ip_ec_def get_fib_def get_seq_def get_ack_def get_candidates_def get_injection_results_def
    have "get_src_ip m' = a" "get_dst_ip_ec m' = ec" "get_fib m' = fib" by (simp_all add: gets c)
    then have "if dir then ec_addr m (get_dst_ip_ec m) = Inr (get_src_ip m')
          \<and> find_ec (get_src_ip m) (m_ecs m) = Inr (get_dst_ip_ec m') \<and> update_fib m' = Inr m'
        else get_src_ip m' = get_src_ip m \<and> get_dst_ip_ec m' = get_dst_ip_ec m \<and> get_fib m' = get_fib m"
      using d by simp
    moreover have "get_proto_state m' = st" "get_fwd_mode m' = FIRST_COLLECT" "get_executable m' = get_executable m"
        "get_src_node m' = sender" "get_pkt_location m' = sender" "get_ingress_intf m' = 0"
        "(get_src_port m', get_dst_port m') =
          (if dir then (get_dst_port m, get_src_port m) else (get_src_port m, get_dst_port m))"
        "(get_seq m', get_ack m') = next_seq_ack dir (cur m)"
        "get_candidates m' = None" "get_injection_results m' = None"
        "get_tx_node m' = get_tx_node m" "get_rx_node m' = get_rx_node m"
      by (simp_all add: gets c turned_def sender_def)
    ultimately show ?thesis unfolding Some sd option.case prod.case Let_def sender_def[symmetric]
      using False n f by simp
  qed
qed

text \<open>C22. The number of transitions is bounded: the relation between a state in which a packet has
  been accepted and the state of the next phase is well-founded, as the protocol state only
  advances and ends.\<close>

theorem accepted_terminates:
  "wf {(m', m :: 'w model). 1 \<le> get_proto_state m \<and> get_proto_state m \<le> 14
     \<and> is_ok (node_at m (get_pkt_location m)) \<and> accepted m = Inr m'
     \<and> get_proto_state m' \<noteq> get_proto_state m}"
proof (rule wf_subset[OF wf_measure[of "\<lambda>m. 15 - unat (get_proto_state m)"]], rule subrelI)
  fix m' m :: "'w model"
  assume a: "(m', m) \<in> {(m', m). 1 \<le> get_proto_state m \<and> get_proto_state m \<le> 14
     \<and> is_ok (node_at m (get_pkt_location m)) \<and> accepted m = Inr m' \<and> get_proto_state m' \<noteq> get_proto_state m}"
  then obtain nd where nd: "node_at m (get_pkt_location m) = Inr nd" by (auto simp: is_ok_iff)
  have r: "1 \<le> get_proto_state m" "get_proto_state m \<le> 14" "accepted m = Inr m'"
      "get_proto_state m' \<noteq> get_proto_state m"
    using a by auto
  have u: "unat (get_proto_state m) \<le> 14" using r(2) by (simp add: word_le_nat_alt)
  obtain st dir where p: "next_phase (get_proto_state m) (is_emulated nd) = Some (st, dir)"
  proof (cases "next_phase (get_proto_state m) (is_emulated nd)")
    case None
    then have "m' = set_executable 0 m" using accepted_eq[OF r(1,2) nd] r(3) by simp
    then show ?thesis using r(4) by (simp add: model_defs)
  qed (use that in \<open>auto simp: prod_eq_iff\<close>)
  have "phase_transition st dir m = Inr m'" using accepted_eq[OF r(1,2) nd] r(3) p by simp
  from phase_transition_effect[OF this refl] have "get_proto_state m' = st \<or> get_proto_state m' = get_proto_state m"
    by (auto simp: get_proto_state_def cur_def[symmetric] set_executable_def split: if_splits)
  then have "get_proto_state m' = st" using r(4) by simp
  moreover have "st = get_proto_state m + 1" using p by (auto simp: next_phase_def split: if_splits)
  ultimately have "unat (get_proto_state m') = unat (get_proto_state m) + 1"
    using u by (simp add: unat_word_ariths)
  then show "(m', m) \<in> measure (\<lambda>m. 15 - unat (get_proto_state m))" using u by simp
qed

text \<open>C21. The sequence and acknowledgement numbers a transition writes are exactly the ones the
  verifier accepts from an emulated middlebox that answers with the next phase: the bytes of the
  payload, or one for a SYN or FIN, are acknowledged, modulo $2^{32}$, and the two numbers change
  places with the direction.\<close>

theorem transition_matches_check:
  assumes "phase_transition st dir m = Inr m'"
    and "\<not> emulated_at (m_net m) (if dir then get_pkt_location m else get_src_node m)"
    and "ps_is_tcp (get_proto_state m)" "get_proto_state m \<le> 14"
    and "pk_conn p = get_conn m" "ps_is_tcp (pk_proto_state p)" "\<not> pk_is_new p" "pk_next_phase p"
    and "pk_opposite_dir p = dir"
  shows "check_seq_ack p m = Inr () \<longleftrightarrow> pk_seq p = get_seq m' \<and> pk_ack p = get_ack m'"
proof -
  from phase_transition_effect[OF assms(1) refl] assms(2)
  have c: "cs_seq (cur m') = fst (next_seq_ack dir (cur m))" "cs_ack (cur m') = snd (next_seq_ack dir (cur m))"
    by auto
  have cc: "now_conn_state (m_now m) (pk_conn p) = cur m" by (simp add: cur_def assms(5) get_conn_def)
  have "get_proto_state_for_conn (pk_conn p) m \<le> 14"
    using assms(4) by (simp add: get_proto_state_for_conn_def get_proto_state_def cc)
  from check_seq_ack_next[OF assms(6-8) this]
  have "check_seq_ack p m = Inr () \<longleftrightarrow> (pk_seq p, pk_ack p) = next_seq_ack dir (cur m)"
    using assms(3,9) by (simp add: cc next_seq_ack_def Let_def get_proto_state_def)
  then show ?thesis by (auto simp: get_seq_def get_ack_def c prod_eq_iff)
qed

text \<open>A middlebox, an end point of its connection, has accepted the acknowledgement of its reply.\<close>

definition sample_mb :: node where
  "sample_mb = (sample_router ''mb'')\<lparr>nd_middlebox := Some \<lparr>mb_packets_per_injection = 1,
     ec_ip_prefixes = [], ec_ip_addrs = [], ec_ports = []\<rparr>\<rparr>"

definition sample_accepted_model :: "unit model" where
  "sample_accepted_model =
     sample_of_model\<lparr>
       m_net := (m_net sample_of_model)\<lparr>net_objs := (net_objs (m_net sample_of_model))\<lparr>
         node_heap := [1 \<mapsto> sample_switch, 2 \<mapsto> sample_mb]\<rparr>\<rparr>,
       m_now := sample_now\<lparr>now_conn_state := (\<lambda>_. sample_conn\<lparr>cs_proto_state := PS_TCP_L7_REP_A,
         cs_fwd_mode := ACCEPTED, cs_pkt_location := 2\<rparr>)\<rparr>\<rparr>"

lemma sample_accepted_simps:
  "get_proto_state sample_accepted_model = 7"
  "node_at sample_accepted_model (get_pkt_location sample_accepted_model) = Inr sample_mb"
  "is_emulated sample_mb"
  "\<not> emulated_at (m_net sample_accepted_model) (if False then get_pkt_location sample_accepted_model
     else get_src_node sample_accepted_model)"
  "get_conn sample_accepted_model = 0" "get_seq sample_accepted_model = 1" "get_ack sample_accepted_model = 1"
  by (simp_all add: sample_accepted_model_def sample_of_model_def sample_model_def sample_now_def
    sample_conn_def model_defs node_at_def derefR_def emulated_at_def is_emulated_def sample_switch_def
    sample_mb_def)

text \<open>Pointers a message dereferences.\<close>

definition conn_ptrs_ok :: "'w model \<Rightarrow> conn_state \<Rightarrow> bool" where
  "conn_ptrs_ok m cs \<longleftrightarrow> is_ok (node_at m (cs_src_node cs)) \<and> is_ok (deref_ec (m_ecs m) (cs_dst_ip_ec cs))
     \<and> is_ok (node_at m (cs_pkt_location cs))"

lemma print_conn_states_ok:
  assumes "\<And>c. 0 \<le> c \<Longrightarrow> c < get_num_conns m \<Longrightarrow> conn_ptrs_ok m (now_conn_state (m_now m) c)"
  shows "print_conn_states m = Inr m"
proof -
  define f where "f = (\<lambda>conn m.
          let m = set_conn conn m in
          bindR (node_at m (get_src_node m)) (\<lambda>_.
          bindR (deref_ec (m_ecs m) (get_dst_ip_ec m)) (\<lambda>_.
          bindR (node_at m (get_pkt_location m)) (\<lambda>_. Inr m))) :: 'a model result)"
  have step: "f c (set_conn d m) = Inr (set_conn c m)" if "0 \<le> c" "c < get_num_conns m" for c d
    using assms[OF that] unfolding f_def Let_def
    by (auto simp: conn_ptrs_ok_def is_ok_iff model_defs node_at_def)
  have "foldR f cs (set_conn d m) = Inr (set_conn (last (d # cs)) m)"
    if "set cs \<subseteq> {0 ..< get_num_conns m}" for cs d
    using that
  proof (induction cs arbitrary: d)
    case (Cons c cs)
    then show ?case using step[of c d] by simp
  qed simp
  from this[of "[0 .. get_num_conns m - 1]" "get_conn m"]
  obtain d where "foldR f [0 .. get_num_conns m - 1] (set_conn (get_conn m) m) = Inr (set_conn d m)"
    by fastforce
  moreover have "set_conn (get_conn m) m = m" "set_conn (get_conn m) (set_conn d m) = m"
    by (simp_all add: model_defs)
  ultimately show ?thesis unfolding print_conn_states_def Let_def f_def[unfolded Let_def, symmetric]
    by (simp add: f_def[unfolded Let_def])
qed

text \<open>A transition that keeps the direction and has no payload succeeds.\<close>

lemma phase_transition_ok:
  assumes "node_at m (get_src_node m) = Inr nd" "\<not> is_emulated nd"
    and "(ucast st :: 8 word) \<notin> {4, 6}"
    and "\<And>c. 0 \<le> c \<Longrightarrow> c < get_num_conns m \<Longrightarrow> conn_ptrs_ok m (now_conn_state (m_now m) c)"
    and "is_ok (deref_ec (m_ecs m) (get_dst_ip_ec m))"
  shows "is_ok (phase_transition st False m)"
proof -
  define m1 where "m1 = set_proto_state st (update_seq_ack False m)"
  define m2 where "m2 = set_pkt_location (get_src_node m1) m1"
  define m3 where "m3 = reset_injection_results (reset_candidates (set_ingress_intf 0
    (set_fwd_mode FIRST_COLLECT (set_payload None m2))))"
  have "get_proto_state m2 = st" by (simp add: m2_def m1_def model_defs)
  then have pl: "get_payload_from_model m2 = Inr (None, m2)"
    using assms(3) by (simp add: get_payload_from_model_def payload_key_def Let_def)
  have m3: "m3 = upd_cur (\<lambda>c. c\<lparr>cs_seq := fst (next_seq_ack False (cur m)),
      cs_ack := snd (next_seq_ack False (cur m)), cs_proto_state := st, cs_pkt_location := cs_src_node c,
      cs_payload := None, cs_fwd_mode := FIRST_COLLECT, cs_ingress_intf := 0, cs_candidates := None,
      cs_inj_results := None\<rparr>) m"
    unfolding m3_def m2_def m1_def update_seq_ack_eq
    by (simp add: reset_injection_results_def reset_candidates_def
      set_ingress_intf_def set_fwd_mode_def set_payload_def set_pkt_location_def set_proto_state_def
      get_src_node_def comp_def) (simp add: upd_cur_def upd_now_def cur_def)
  have src: "is_ok (node_at m (cs_src_node (cur m)))" using assms(1) by (simp add: get_src_node_def)
  have ok: "conn_ptrs_ok m3 (now_conn_state (m_now m3) c)" if "0 \<le> c" "c < get_num_conns m3" for c
  proof (cases "c = get_conn m")
    case True
    then have "now_conn_state (m_now m3) c = cur m3" by (simp add: cur_def m3 get_conn_def upd_cur_def upd_now_def)
    then show ?thesis using src assms(5)
      by (simp add: conn_ptrs_ok_def node_at_def m3 get_dst_ip_ec_def)
  next
    case False
    then have "now_conn_state (m_now m3) c = now_conn_state (m_now m) c"
      by (simp add: m3 upd_cur_def upd_now_def get_conn_def)
    then show ?thesis using assms(4)[of c] that by (simp add: conn_ptrs_ok_def node_at_def m3)
  qed
  have "print_conn_states m3 = Inr m3" by (rule print_conn_states_ok[OF ok])
  then have "phase_transition st False m = Inr m3"
    using assms(1,2) unfolding phase_transition_def Let_def m1_def[symmetric] m2_def[symmetric]
    by (simp add: m2_def[symmetric] pl m3_def)
  then show ?thesis by simp
qed

lemma sample_accepted_ok: "is_ok (phase_transition PS_TCP_TERM_1 False sample_accepted_model)"
proof (rule phase_transition_ok)
  show "node_at sample_accepted_model (get_src_node sample_accepted_model) = Inr sample_switch"
    by (simp add: sample_accepted_model_def sample_of_model_def sample_model_def sample_now_def
      sample_conn_def model_defs node_at_def derefR_def)
qed (simp_all add: sample_accepted_model_def sample_of_model_def sample_model_def sample_now_def
    sample_conn_def model_defs node_at_def derefR_def conn_ptrs_ok_def is_emulated_def sample_switch_def
    deref_ec_def)

theorem accepted_spec_witness:
  "\<exists>m'. accepted sample_accepted_model = Inr m' \<and> get_proto_state m' = PS_TCP_TERM_1
     \<and> get_fwd_mode m' = FIRST_COLLECT \<and> get_src_ip m' = get_src_ip sample_accepted_model"
proof -
  obtain m' where p: "phase_transition PS_TCP_TERM_1 False sample_accepted_model = Inr m'"
    using sample_accepted_ok by (auto simp: is_ok_iff)
  have h: "1 \<le> get_proto_state sample_accepted_model" "get_proto_state sample_accepted_model \<le> 14"
    by (simp_all add: sample_accepted_simps)
  have n: "next_phase (get_proto_state sample_accepted_model) (is_emulated sample_mb) = Some (8, False)"
    by (simp add: sample_accepted_simps next_phase_def ps_is_last_def)
  then have m': "accepted sample_accepted_model = Inr m'"
    using accepted_eq[OF h sample_accepted_simps(2)] p by simp
  have e: "\<not> emulated_at (m_net sample_accepted_model) (get_src_node sample_accepted_model)"
    using sample_accepted_simps(4) by simp
  from accepted_spec[OF h sample_accepted_simps(2) m', unfolded n option.case prod.case Let_def if_False if_not_P[OF e]]
  show ?thesis using m' by blast
qed

theorem transition_matches_check_witness:
  "\<exists>p. check_seq_ack p sample_accepted_model = Inr () \<and> pk_seq p = 1 \<and> pk_next_phase p"
proof -
  obtain m' where m': "phase_transition PS_TCP_TERM_1 False sample_accepted_model = Inr m'"
    using sample_accepted_ok by (auto simp: is_ok_iff)
  have "next_seq_ack False (cur sample_accepted_model) = (1, 1)"
    by (simp add: next_seq_ack_def seq_after_def sample_accepted_model_def sample_of_model_def
      sample_model_def sample_now_def sample_conn_def model_defs ps_defs)
  with phase_transition_effect[OF m' refl] sample_accepted_simps(4)
  have s: "get_seq m' = 1" "get_ack m' = 1" by (auto simp: get_seq_def get_ack_def)
  let ?p = "packet_init\<lparr>pk_proto_state := 8, pk_seq := 1, pk_ack := 1, pk_conn := 0, pk_next_phase := True\<rparr>"
  have t: "ps_is_tcp (get_proto_state sample_accepted_model)" "get_proto_state sample_accepted_model \<le> 14"
      "pk_conn ?p = get_conn sample_accepted_model" "ps_is_tcp (pk_proto_state ?p)" "\<not> pk_is_new ?p"
      "pk_next_phase ?p" "pk_opposite_dir ?p = False"
    by (simp_all add: sample_accepted_simps ps_is_tcp_def packet_init_def)
  from transition_matches_check[OF m' sample_accepted_simps(4) t] have "check_seq_ack ?p sample_accepted_model = Inr ()"
    using s by (simp add: packet_init_def)
  then show ?thesis by (intro exI[of _ ?p]) simp
qed

section \<open>The effect of the other handlers\<close>

lemma first_forward_effect:
  assumes "first_forward m = Inr m'"
  shows "\<exists>a. forward_packet (set_src_ip a m) = Inr m'"
proof (cases "ps_is_first (get_proto_state m) \<and> get_src_ip m = 0")
  case True
  then show ?thesis using assms by (auto simp: first_forward_def bindR_eq_Inr_iff)
next
  case False
  then have "forward_packet m = Inr m'"
    using assms unfolding first_forward_def if_not_P[OF False] bindR_Inr by blast
  moreover have "set_src_ip (get_src_ip m) m = m" by (simp add: model_defs)
  ultimately show ?thesis by metis
qed

lemma find_conn_mem: "find_conn p m orig cs = Inr (Some (c, d)) \<Longrightarrow> c \<in> set cs"
  by (induction cs) (auto simp: bindR_eq_Inr_iff split: if_splits)

lemma identify_conn_bounds:
  assumes "identify_conn max_conns p m = Inr q"
    and "0 \<le> get_conn m" "get_conn m < get_num_conns m" "get_num_conns m \<le> max_conns"
  shows "0 \<le> pk_conn q \<and> pk_conn q < max_conns \<and>
    (if pk_is_new q then pk_conn q = get_num_conns m else pk_conn q < get_num_conns m)"
proof -
  obtain same dir where b: "packet_belongs_to_connection p m (get_conn m) = Inr (same, dir)"
    using assms(1) by (auto simp: identify_conn_def Let_def bindR_eq_Inr_iff)
  show ?thesis
  proof (cases same)
    case True
    then show ?thesis using assms b by (auto simp: identify_conn_def Let_def)
  next
    case False
    then obtain found where f: "find_conn p m (get_conn m) [0 .. get_num_conns m - 1] = Inr found"
      using assms(1) b by (auto simp: identify_conn_def Let_def bindR_eq_Inr_iff)
    show ?thesis
    proof (cases found)
      case None
      then show ?thesis using assms b False f by (auto simp: identify_conn_def Let_def split: if_splits)
    next
      case (Some cd)
      obtain c d where cd: "cd = (c, d)" by (cases cd)
      have "c \<in> set [0 .. get_num_conns m - 1]" using find_conn_mem f Some cd by blast
      then show ?thesis using assms b False f Some cd by (auto simp: identify_conn_def Let_def)
    qed
  qed
qed

lemma convert_keeps:
  "convert_proto_state old p = Inr q \<Longrightarrow> pk_conn q = pk_conn p \<and> pk_is_new q = pk_is_new p"
  by (auto simp: convert_proto_state_def bindR_eq_Inr_iff split: if_splits)

lemma process_proto_state_keeps:
  assumes "process_proto_state p m = Inr q"
  shows "pk_conn q = pk_conn p \<and> pk_is_new q = pk_is_new p"
proof -
  let ?old = "get_proto_state_for_conn (pk_conn p) m"
  obtain r where r: "convert_proto_state ?old p = Inr r"
    using assms by (auto simp: process_proto_state_def Let_def bindR_eq_Inr_iff)
  have "q \<in> {r\<lparr>pk_next_phase := False\<rparr>, r\<lparr>pk_next_phase := True\<rparr>, r\<lparr>pk_proto_state := PS_INVALID\<rparr>}"
    using assms unfolding process_proto_state_def Let_def r bindR_Inr
    by (auto simp: bindR_eq_Inr_iff split: if_splits)
  then show ?thesis using convert_keeps[OF r] by auto
qed

lemma map_packet_effect:
  assumes "map_packet p m = Inr m'"
  shows "frame m m' \<and> get_executable m' = 2"
proof -
  obtain ec where ec: "find_ec (pk_dst_ip p) (m_ecs (set_src_ip (pk_src_ip p) (set_proto_state (pk_proto_state p)
      (set_executable 2 m)))) = Inr ec"
    using assms unfolding map_packet_def Let_def bindR_eq_Inr_iff by blast
  define m1 where "m1 = set_payload (pk_payload p) (set_ack (pk_ack p) (set_seq (pk_seq p)
    (set_dst_port (pk_dst_port p) (set_src_port (pk_src_port p) (set_dst_ip_ec ec
    (set_src_ip (pk_src_ip p) (set_proto_state (pk_proto_state p) (set_executable 2 m))))))))"
  have m1: "m1 = upd_cur (\<lambda>c. c\<lparr>cs_executable := 2, cs_proto_state := pk_proto_state p,
      cs_src_ip := pk_src_ip p, cs_dst_ip_ec := ec, cs_src_port := pk_src_port p,
      cs_dst_port := pk_dst_port p, cs_seq := pk_seq p, cs_ack := pk_ack p, cs_payload := pk_payload p\<rparr>) m"
    by (simp add: m1_def set_payload_def set_ack_def set_seq_def set_dst_port_def set_src_port_def
      set_dst_ip_ec_def set_src_ip_def set_proto_state_def set_executable_def comp_def)
  have "(if get_dst_ip_ec m \<noteq> get_dst_ip_ec m1 then update_fib m1 else Inr m1) = Inr m'"
    using assms unfolding map_packet_def Let_def ec bindR_Inr m1_def by simp
  then have "m' = m1 \<or> (\<exists>f. m' = set_fib f m1)"
    using update_fib_form by (auto split: if_splits)
  moreover have "frame m m1" unfolding m1 by (rule frame_upd_cur)
  moreover have "get_executable m1 = 2" "get_executable (set_fib f m1) = get_executable m1" for f
    by (simp_all add: m1 get_executable_def set_fib_def)
  ultimately show ?thesis using frame_trans[of m m1, OF _ frame_setters(20)] by metis
qed

text \<open>What one received packet does to the connections.\<close>

definition conn_received :: "conn_state \<Rightarrow> bool" where
  "conn_received cs \<longleftrightarrow> cs_executable cs = 2 \<and> cs_fwd_mode cs \<in> {FIRST_FORWARD, FORWARD_PACKET}
     \<and> cs_candidates cs \<noteq> None"

definition conns_bounded :: "int \<Rightarrow> 'w model \<Rightarrow> bool" where
  "conns_bounded max_conns m \<longleftrightarrow> 0 \<le> get_conn m \<and> get_conn m < get_num_conns m \<and> get_num_conns m \<le> max_conns"

lemma update_remaining_effect:
  "m_net (update_remaining mb p m) = m_net m" "get_conn (update_remaining mb p m) = get_conn m"
  "get_process_id (update_remaining mb p m) = get_process_id m"
  "get_num_conns (update_remaining mb p m) = (if pk_is_new p then get_num_conns m + 1 else get_num_conns m)"
  "get_executable (update_remaining mb p m) = get_executable m"
  "get_fwd_mode (update_remaining mb p m) \<in> {FIRST_FORWARD, FORWARD_PACKET}"
  "c \<noteq> get_conn m \<Longrightarrow> now_conn_state (m_now (update_remaining mb p m)) c = now_conn_state (m_now m) c"
  by (auto simp: update_remaining_def Let_def model_defs)

lemma set_next_hop_effect:
  assumes "set_next_hop mb p m = Inr m'"
  shows "\<exists>cs. cur m' = (cur m)\<lparr>cs_candidates := Some cs\<rparr> \<and> frame m m'"
proof -
  obtain cs where m': "m' = set_candidates cs (set_choice_count (int (length cs)) m)"
    using assms by (auto simp: set_next_hop_def Let_def bindR_eq_Inr_iff)
  have "frame m m'" unfolding m' by (rule frame_trans[OF frame_others(1) frame_setters(16)])
  moreover have "cur m' = (cur m)\<lparr>cs_candidates := Some cs\<rparr>" by (simp add: m' model_defs)
  ultimately show ?thesis by blast
qed

lemma process_recv_pkt_effect:
  assumes "process_recv_pkt max_conns mb p (m, cu, ou) = Inr (m', cu', ou')"
    and "conns_bounded max_conns m"
  shows "(m', cu', ou') = (m, cu, ou) \<or>
    (\<exists>c cs. 0 \<le> c \<and> c < max_conns \<and> c \<le> get_num_conns m \<and> conn_received cs
      \<and> m_net m' = m_net m \<and> get_conn m' = get_conn m \<and> get_process_id m' = get_process_id m
      \<and> get_num_conns m' = (if c = get_num_conns m then get_num_conns m + 1 else get_num_conns m)
      \<and> now_conn_state (m_now m') = (now_conn_state (m_now m))(c := cs)
      \<and> cu' = (cu \<or> c = get_conn m) \<and> ou' = (ou \<or> c \<noteq> get_conn m))"
proof (cases "packet_empty p")
  case True
  then show ?thesis using assms(1) by (simp add: process_recv_pkt_def)
next
  case False
  obtain p1 where p1: "identify_conn max_conns p m = Inr p1"
    using assms(1) False by (auto simp: process_recv_pkt_def Let_def bindR_eq_Inr_iff)
  obtain q where q: "process_proto_state p1 m = Inr q"
    using assms(1) False p1 by (auto simp: process_recv_pkt_def Let_def bindR_eq_Inr_iff)
  have b: "0 \<le> pk_conn q \<and> pk_conn q < max_conns \<and>
      (if pk_is_new q then pk_conn q = get_num_conns m else pk_conn q < get_num_conns m)"
    using identify_conn_bounds[OF p1] assms(2) process_proto_state_keeps[OF q]
    by (simp add: conns_bounded_def)
  show ?thesis
  proof (cases "pk_proto_state q = PS_INVALID")
    case True
    then show ?thesis using assms(1) False p1 q by (simp add: process_recv_pkt_def Let_def)
  next
    case valid: False
    define c where "c = pk_conn q"
    have rest: "bindR (check_seq_ack q m) (\<lambda>_.
        bindR (map_packet q (set_conn c m)) (\<lambda>m1.
        bindR (set_next_hop mb q (update_remaining mb q m1)) (\<lambda>m2.
        Inr (set_conn (get_conn m) m2, cu \<or> c = get_conn m, ou \<or> c \<noteq> get_conn m)))) = Inr (m', cu', ou')"
      using assms(1) False p1 q valid
      by (cases "pk_conn q = get_conn m") (simp_all add: process_recv_pkt_def Let_def c_def)
    then obtain m1 m2 where m1: "map_packet q (set_conn c m) = Inr m1"
      and m2: "set_next_hop mb q (update_remaining mb q m1) = Inr m2"
      and r: "m' = set_conn (get_conn m) m2" "cu' = (cu \<or> c = get_conn m)" "ou' = (ou \<or> c \<noteq> get_conn m)"
      by (auto simp: bindR_eq_Inr_iff)
    note f1 = map_packet_effect[OF m1, THEN conjunct1] and e1 = map_packet_effect[OF m1, THEN conjunct2]
    obtain cands where c2: "cur m2 = (cur (update_remaining mb q m1))\<lparr>cs_candidates := Some cands\<rparr>"
      and f2: "frame (update_remaining mb q m1) m2"
      using set_next_hop_effect[OF m2] by blast
    have sel: "get_conn (set_conn c m) = c" "get_num_conns (set_conn c m) = get_num_conns m"
        "get_process_id (set_conn c m) = get_process_id m" "m_net (set_conn c m) = m_net m"
        "now_conn_state (m_now (set_conn c m)) = now_conn_state (m_now m)"
      by (simp_all add: model_defs)
    have conn: "get_conn m1 = c" "get_conn m2 = c"
      using f1 f2 by (simp_all add: frame_def sel update_remaining_effect)
    define cs where "cs = now_conn_state (m_now m2) c"
    have cur2: "cs = cur m2" using conn by (simp add: cs_def cur_def get_conn_def)
    have others: "now_conn_state (m_now m2) d = now_conn_state (m_now m) d" if "d \<noteq> c" for d
      using f1 f2 that conn(1) update_remaining_effect(7)[of d m1 mb q]
      by (simp add: frame_def sel update_remaining_effect)
    have "conn_received cs"
      using update_remaining_effect(5,6)[of mb q m1] e1
      by (auto simp: conn_received_def cur2 c2 get_executable_def get_fwd_mode_def)
    moreover have "get_num_conns m' = (if c = get_num_conns m then get_num_conns m + 1 else get_num_conns m)"
    proof -
      have "get_num_conns m' = (if pk_is_new q then get_num_conns m + 1 else get_num_conns m)"
        using f1 f2 unfolding r by (simp add: frame_def sel update_remaining_effect) (simp add: model_defs)
      then show ?thesis using b by (auto simp: c_def split: if_splits)
    qed
    moreover have "m_net m' = m_net m \<and> get_conn m' = get_conn m \<and> get_process_id m' = get_process_id m"
      using f1 f2 unfolding r by (simp add: frame_def sel update_remaining_effect) (simp add: model_defs)
    moreover have "now_conn_state (m_now m') = (now_conn_state (m_now m))(c := cs)"
    proof -
      have "now_conn_state (m_now m') = now_conn_state (m_now m2)" by (simp add: r model_defs)
      then show ?thesis using others by (auto simp: fun_eq_iff cs_def)
    qed
    moreover have "0 \<le> c \<and> c < max_conns \<and> c \<le> get_num_conns m"
      using b by (auto simp: c_def split: if_splits)
    ultimately show ?thesis using r(2,3) by (intro disjI2 exI[of _ c] exI[of _ cs]) blast
  qed
qed

end
