(* ===== verification/Invariants.thy ===== *)
theory Invariants
  imports Forwarding
begin

text \<open>
  The invariants (\<open>src/invariant/*.cpp\<close>): the connections an invariant is verified for, and the
  check that runs after every step. \<open>Conditional\<close> and \<open>Consistency\<close> combine the other kinds
  (\<open>_correlated_invs\<close>; the parser does not nest them further), so an invariant is a simple one, or
  a list of simple ones. The fields \<open>result\<close> and \<open>unset\<close> of \<open>Consistency\<close> belong to the object,
  not to the state vector. Sets of target nodes are the lists of their elements in iteration order.
\<close>

section \<open>Invariants\<close>

datatype inv_kind =
    Reachability "nat list" bool
  | Reply_reachability "nat list" bool
  | Waypoint "nat list" bool
  | One_request "nat list"
  | Load_balance "nat list" "reach_counts \<Rightarrow> bool"
      \<comment> \<open>whether the dispersion index of the targets exceeds the maximum\<close>
  | Loop_inv
  | Conditional
  | Consistency

record simple_inv =
  iv_kind :: inv_kind
  iv_conn_specs :: "connspec list"
  iv_conn_matrix :: conn_matrix
  iv_conns :: "connection list"

record invariant = simple_inv +
  iv_correlated :: "simple_inv list"
  iv_result :: bool
  iv_unset :: bool

text \<open>Number of combinations of connections, a \<open>size_t\<close>.\<close>

definition num_conn_ecs :: "invariant \<Rightarrow> 64 word" where
  "num_conn_ecs v =
     (if iv_correlated v = [] then matrix_num_conns (iv_conn_matrix v)
      else fold (\<lambda>p num. num * matrix_num_conns (iv_conn_matrix p)) (iv_correlated v) 1)"

definition first_spec :: "'a simple_inv_scheme \<Rightarrow> connspec result" where
  "first_spec p = (case iv_conn_specs p of [] \<Rightarrow> Inl Undefined_behaviour | sp # _ \<Rightarrow> Inr sp)"

definition fill_matrix :: "connspec list \<Rightarrow> eqclassmgr \<Rightarrow> conn_matrix \<Rightarrow> conn_matrix" where
  "fill_matrix specs ecs cm = fold (\<lambda>sp. matrix_add (compute_connections sp ecs)) specs (matrix_clear cm)"

definition compute_conn_matrix ::
    "(nat list \<Rightarrow> nat) \<Rightarrow> invariant \<Rightarrow> eqclassmgr \<Rightarrow> (invariant \<times> eqclassmgr) result" where
  "compute_conn_matrix alloc v ecs =
     (if iv_correlated v = [] then
        bindR (foldR (update_inv_ecs alloc) (iv_conn_specs v) ecs) (\<lambda>ecs.
        Inr (v\<lparr>iv_conn_matrix := fill_matrix (iv_conn_specs v) ecs (iv_conn_matrix v)\<rparr>, ecs))
      else
        bindR (foldR (\<lambda>p ecs. bindR (first_spec p) (\<lambda>sp. update_inv_ecs alloc sp ecs))
            (iv_correlated v) ecs) (\<lambda>ecs.
        bindR (foldR (\<lambda>p ps. bindR (first_spec p) (\<lambda>sp.
            Inr (ps @ [p\<lparr>iv_conn_matrix := fill_matrix [sp] ecs (iv_conn_matrix p)\<rparr>])))
          (iv_correlated v) []) (\<lambda>ps.
        Inr (v\<lparr>iv_correlated := ps\<rparr>, ecs))))"

text \<open>Taking the next combination of a simple invariant, and of the correlated ones.\<close>

definition set_conns_simple :: "'a simple_inv_scheme \<Rightarrow> (bool \<times> 'a simple_inv_scheme) result" where
  "set_conns_simple p =
     bindR (get_next_conns (iv_conn_matrix p)) (\<lambda>(conns, cm).
     Inr (conns \<noteq> [], p\<lparr>iv_conns := conns, iv_conn_matrix := cm\<rparr>))"

fun set_conns_correlated :: "simple_inv list \<Rightarrow> (bool \<times> simple_inv list) result" where
  "set_conns_correlated [] = Inr (False, [])"
| "set_conns_correlated (p # ps) =
     bindR (set_conns_simple p) (\<lambda>(more, p).
     if more then bindR (assertR (length (iv_conns p) = 1)) (\<lambda>_. Inr (True, p # ps))
     else
       bindR (set_conns_correlated ps) (\<lambda>(more, ps).
       Inr (more, p\<lparr>iv_conn_matrix := matrix_reset (iv_conn_matrix p)\<rparr> # ps)))"

definition set_conns :: "invariant \<Rightarrow> (bool \<times> invariant) result" where
  "set_conns v =
     (if iv_correlated v = [] then set_conns_simple v
      else bindR (set_conns_correlated (iv_correlated v)) (\<lambda>(more, ps).
        Inr (more, v\<lparr>iv_correlated := ps\<rparr>)))"

section \<open>Initialisation\<close>

text \<open>\<open>Invariant::init\<close> of an invariant without correlated ones.\<close>

definition init_conns :: "connection list \<Rightarrow> 'w model \<Rightarrow> 'w model result" where
  "init_conns conns m =
     bindR (foldR (\<lambda>(i, c). conn_init i c) (enumerate 0 conns) m) (\<lambda>m.
     print_conn_states (set_num_conns (int (length conns)) (set_conn 0 m)))"

definition reachability_init :: "connection list \<Rightarrow> 'w model \<Rightarrow> 'w model result" where
  "reachability_init conns m = bindR (init_conns conns m) (\<lambda>m. Inr (set_violated False m))"

definition reply_reachability_init :: "connection list \<Rightarrow> 'w model \<Rightarrow> 'w model result" where
  "reply_reachability_init conns m = bindR (init_conns conns m) (\<lambda>m. Inr (set_violated False m))"

definition waypoint_init :: "connection list \<Rightarrow> 'w model \<Rightarrow> 'w model result" where
  "waypoint_init conns m = bindR (init_conns conns m) (\<lambda>m. Inr (set_violated False m))"

definition one_request_init :: "connection list \<Rightarrow> 'w model \<Rightarrow> 'w model result" where
  "one_request_init conns m =
     bindR (init_conns conns m) (\<lambda>m. Inr (set_reach_counts [] (set_violated True m)))"

definition load_balance_init :: "connection list \<Rightarrow> 'w model \<Rightarrow> 'w model result" where
  "load_balance_init conns m =
     bindR (init_conns conns m) (\<lambda>m. Inr (set_reach_counts [] (set_violated False m)))"

definition loop_init :: "connection list \<Rightarrow> 'w model \<Rightarrow> 'w model result" where
  "loop_init conns m = bindR (init_conns conns m) (\<lambda>m. Inr (set_violated False m))"

definition simple_init :: "'a simple_inv_scheme \<Rightarrow> 'w model \<Rightarrow> 'w model result" where
  "simple_init p =
     (case iv_kind p of
        Reachability _ _ \<Rightarrow> reachability_init (iv_conns p)
      | Reply_reachability _ _ \<Rightarrow> reply_reachability_init (iv_conns p)
      | Waypoint _ _ \<Rightarrow> waypoint_init (iv_conns p)
      | One_request _ \<Rightarrow> one_request_init (iv_conns p)
      | Load_balance _ _ \<Rightarrow> load_balance_init (iv_conns p)
      | Loop_inv \<Rightarrow> loop_init (iv_conns p)
      | Conditional \<Rightarrow> (\<lambda>_. Inl Undefined_behaviour)
      | Consistency \<Rightarrow> (\<lambda>_. Inl Undefined_behaviour))"

definition correlated_at :: "invariant \<Rightarrow> 'w model \<Rightarrow> simple_inv result" where
  "correlated_at v m =
     (let i = get_correlated_inv_idx m in
      if 0 \<le> i \<and> nat i < length (iv_correlated v) then Inr (iv_correlated v ! nat i)
      else Inl Undefined_behaviour)"

text \<open>\<open>Invariant::init\<close> for a combination.\<close>

definition combined_init :: "invariant \<Rightarrow> 'w model \<Rightarrow> 'w model result" where
  "combined_init v m =
     (if iv_correlated v = [] then init_conns (iv_conns v) m
      else bindR (correlated_at v m) (\<lambda>p. simple_init p m))"

definition conditional_init :: "invariant \<Rightarrow> 'w model \<Rightarrow> 'w model result" where
  "conditional_init v m = combined_init v (set_correlated_inv_idx 0 m)"

definition conditional_reinit :: "invariant \<Rightarrow> 'w model \<Rightarrow> 'w model result" where
  "conditional_reinit v m = combined_init v m"

definition consistency_init :: "invariant \<Rightarrow> 'w model \<Rightarrow> (invariant \<times> 'w model) result" where
  "consistency_init v m =
     bindR (combined_init v (set_correlated_inv_idx 0 m)) (\<lambda>m. Inr (v\<lparr>iv_unset := True\<rparr>, m))"

definition consistency_reinit :: "invariant \<Rightarrow> 'w model \<Rightarrow> 'w model result" where
  "consistency_reinit v m = combined_init v m"

definition inv_init :: "invariant \<Rightarrow> 'w model \<Rightarrow> (invariant \<times> 'w model) result" where
  "inv_init v m =
     (case iv_kind v of
        Conditional \<Rightarrow> bindR (conditional_init v m) (\<lambda>m. Inr (v, m))
      | Consistency \<Rightarrow> consistency_init v m
      | _ \<Rightarrow> bindR (simple_init v m) (\<lambda>m. Inr (v, m)))"

definition inv_reinit :: "invariant \<Rightarrow> 'w model \<Rightarrow> 'w model result" where
  "inv_reinit v m =
     (case iv_kind v of
        Conditional \<Rightarrow> conditional_reinit v m
      | Consistency \<Rightarrow> consistency_reinit v m
      | _ \<Rightarrow> Inl (Runtime_error ''This shouldn't be called''))"

section \<open>Checks\<close>

definition request_is_accepted :: "fwd_mode \<Rightarrow> ps \<Rightarrow> bool" where
  "request_is_accepted mode proto_state \<longleftrightarrow>
     mode = ACCEPTED \<and> ps_is_request proto_state \<or> mode = FIRST_FORWARD \<and> ps_req_ack_or_rep proto_state"

definition packet_is_dropped :: "fwd_mode \<Rightarrow> bool" where
  "packet_is_dropped mode \<longleftrightarrow> mode = DROPPED"

definition other_executable_conns_exist :: "'w model \<Rightarrow> bool" where
  "other_executable_conns_exist m \<longleftrightarrow>
     list_ex (\<lambda>conn. conn \<noteq> get_conn m \<and> get_executable_for_conn conn m > 0) [0 .. get_num_conns m - 1]"

text \<open>The result of the check is reached: the exploration of this path ends.\<close>

definition conclude :: "bool \<Rightarrow> 'w model \<Rightarrow> 'w model" where
  "conclude violated m = set_choice_count 0 (set_violated violated m)"

definition check_reachability :: "nat list \<Rightarrow> bool \<Rightarrow> 'w model \<Rightarrow> 'w model" where
  "check_reachability target_nodes reachable m =
     (let mode = get_fwd_mode m; proto_state = get_proto_state m in
      if request_is_accepted mode proto_state \<and> get_rx_node m \<in> set target_nodes then
        conclude (reachable \<noteq> True) m
      else if (request_is_accepted mode proto_state \<or> packet_is_dropped mode)
          \<and> \<not> other_executable_conns_exist m then
        conclude (reachable \<noteq> False) m
      else m)"

definition check_reply_reachability :: "nat list \<Rightarrow> bool \<Rightarrow> 'w model \<Rightarrow> 'w model" where
  "check_reply_reachability target_nodes reachable m =
     (let mode = get_fwd_mode m; proto_state = get_proto_state m in
      if ps_is_tcp proto_state \<and> proto_state < PS_TCP_L7_REP
         \<or> ps_is_udp proto_state \<and> proto_state < PS_UDP_REP
         \<or> ps_is_icmp_echo proto_state \<and> proto_state < PS_ICMP_ECHO_REP then
        if (request_is_accepted mode proto_state \<and> get_rx_node m \<notin> set target_nodes
            \<or> mode = DROPPED) \<and> \<not> other_executable_conns_exist m
        then conclude reachable m else m
      else if ps_is_reply proto_state then
        if mode = ACCEPTED \<and> get_pkt_location m = get_tx_node m then conclude (reachable \<noteq> True) m
        else if (mode = ACCEPTED \<and> get_pkt_location m \<noteq> get_tx_node m \<or> mode = DROPPED)
            \<and> \<not> other_executable_conns_exist m
        then conclude (reachable \<noteq> False) m
        else m
      else m)"

definition check_waypoint :: "nat list \<Rightarrow> bool \<Rightarrow> 'w model \<Rightarrow> 'w model" where
  "check_waypoint target_nodes pass_through m =
     (if get_fwd_mode m = COLLECT_NHOPS \<and> get_pkt_location m \<in> set target_nodes
      then conclude (\<not> pass_through) m else m)"

definition check_one_request :: "nat list \<Rightarrow> 'w model \<Rightarrow> 'w model result" where
  "check_one_request target_nodes m =
     (if get_fwd_mode m = ACCEPTED \<and> ps_is_request (get_proto_state m) then
        let rx_node = get_rx_node m in
        if rx_node \<in> set target_nodes then
          bindR (valR (get_reach_counts m)) (\<lambda>reach_counts.
          let new_reach_counts = reach_increase rx_node reach_counts;
              m = (if total_counts new_reach_counts > 1 then conclude True m else m) in
          Inr (set_executable 0 (set_reach_counts new_reach_counts m)))
        else Inr m
      else Inr m)"

text \<open>\<open>compute_dispersion_index\<close>, over the operations of \<open>double\<close>.\<close>

record 'd double_ops =
  d_of_int :: "int \<Rightarrow> 'd"
  d_add :: "'d \<Rightarrow> 'd \<Rightarrow> 'd"
  d_sub :: "'d \<Rightarrow> 'd \<Rightarrow> 'd"
  d_mul :: "'d \<Rightarrow> 'd \<Rightarrow> 'd"
  d_div :: "'d \<Rightarrow> 'd \<Rightarrow> 'd"
  d_gt :: "'d \<Rightarrow> 'd \<Rightarrow> bool"

definition compute_dispersion_index :: "'d double_ops \<Rightarrow> nat list \<Rightarrow> reach_counts \<Rightarrow> 'd" where
  "compute_dispersion_index d target_nodes rc =
     (let size = d_of_int d (int (length target_nodes));
          sum = fold (\<lambda>node mean. d_add d mean (d_of_int d (reach_count rc node))) target_nodes (d_of_int d 0);
          mean = d_div d sum size;
          dev = (\<lambda>node. d_sub d (d_of_int d (reach_count rc node)) mean);
          total = fold (\<lambda>node v. d_add d v (d_mul d (dev node) (dev node))) target_nodes (d_of_int d 0);
          variance = d_div d total size in
      d_div d variance mean)"

definition dispersion_exceeds :: "'d double_ops \<Rightarrow> nat list \<Rightarrow> 'd \<Rightarrow> reach_counts \<Rightarrow> bool" where
  "dispersion_exceeds d target_nodes max_dispersion_index rc =
     d_gt d (compute_dispersion_index d target_nodes rc) max_dispersion_index"

definition check_loadbalance :: "nat list \<Rightarrow> (reach_counts \<Rightarrow> bool) \<Rightarrow> 'w model \<Rightarrow> 'w model result" where
  "check_loadbalance target_nodes exceeds m =
     (if get_fwd_mode m = ACCEPTED \<and> ps_is_first (get_proto_state m) then
        bindR (valR (get_reach_counts m)) (\<lambda>reach_counts.
        let rx_node = get_rx_node m;
            new_reach_counts = reach_increase rx_node reach_counts;
            m = (if rx_node \<in> set target_nodes \<and> exceeds new_reach_counts then conclude True m else m) in
        Inr (set_executable 0 (set_reach_counts new_reach_counts m)))
      else Inr m)"

section \<open>Loops\<close>

definition hop_visited :: "hop \<Rightarrow> visited_hops \<Rightarrow> bool" where
  "hop_visited h v \<longleftrightarrow> set_count (<) h (vh_hops v) \<and> vh_last_hop v \<noteq> h"

definition is_last_hop :: "hop \<Rightarrow> visited_hops \<Rightarrow> bool" where
  "is_last_hop h v \<longleftrightarrow> vh_last_hop v = h"

definition add_hop :: "hop \<Rightarrow> visited_hops \<Rightarrow> visited_hops result" where
  "add_hop h v =
     (if set_count (<) h (vh_hops v)
      then Inl (Runtime_error ''Adding a duplicate hop. Loop invariant should have been violated!'')
      else Inr (v\<lparr>vh_hops := oset_insert h (vh_hops v)\<rparr>))"

definition current_hop :: "'w model \<Rightarrow> hop" where
  "current_hop m = (get_dst_ip_ec m, get_dst_port m, get_pkt_location m)"

definition check_loop :: "'w model \<Rightarrow> 'w model result" where
  "check_loop m =
     (let mode = get_fwd_mode m; proto_state = get_proto_state m; hop = current_hop m in
      if (request_is_accepted mode proto_state \<or> packet_is_dropped mode)
         \<and> \<not> other_executable_conns_exist m then Inr (conclude False m)
      else
        (case get_visited_hops m of
           None \<Rightarrow> bindR (add_hop hop visited_hops_init) (\<lambda>new_hops. Inr (set_visited_hops new_hops m))
         | Some visited_hops \<Rightarrow>
             if hop_visited hop visited_hops then Inr (conclude True m)
             else if is_last_hop hop visited_hops then Inr m
             else bindR (add_hop hop visited_hops) (\<lambda>new_hops. Inr (set_visited_hops new_hops m))))"

section \<open>Checking an invariant\<close>

definition check_simple :: "inv_kind \<Rightarrow> 'w model \<Rightarrow> 'w model result" where
  "check_simple k m =
     (case k of
        Reachability ns r \<Rightarrow> Inr (check_reachability ns r m)
      | Reply_reachability ns r \<Rightarrow> Inr (check_reply_reachability ns r m)
      | Waypoint ns p \<Rightarrow> Inr (check_waypoint ns p m)
      | One_request ns \<Rightarrow> check_one_request ns m
      | Load_balance ns ex \<Rightarrow> check_loadbalance ns ex m
      | Loop_inv \<Rightarrow> check_loop m
      | Conditional \<Rightarrow> Inl Undefined_behaviour
      | Consistency \<Rightarrow> Inl Undefined_behaviour)"

text \<open>Moving on to the next correlated invariant, or concluding when all have been checked. The
  flag is \<open>POL_REINIT_DP\<close>.\<close>

definition next_correlated :: "invariant \<Rightarrow> 'w model \<Rightarrow> bool \<times> invariant \<times> 'w model" where
  "next_correlated v m =
     (if get_correlated_inv_idx m + 1 < int (length (iv_correlated v))
      then (True, v, set_correlated_inv_idx (get_correlated_inv_idx m + 1) m)
      else (False, v, conclude False m))"

definition check_conditional :: "invariant \<Rightarrow> 'w model \<Rightarrow> (bool \<times> invariant \<times> 'w model) result" where
  "check_conditional v m =
     bindR (correlated_at v m) (\<lambda>p.
     bindR (check_simple (iv_kind p) m) (\<lambda>m.
     if get_choice_count m = 0 then
       if get_correlated_inv_idx m = 0 \<and> get_violated m then Inr (False, v, conclude False m)
       else if get_correlated_inv_idx m \<noteq> 0 \<and> get_violated m then Inr (False, v, conclude True m)
       else Inr (next_correlated v m)
     else Inr (False, v, m)))"

definition check_consistency :: "invariant \<Rightarrow> 'w model \<Rightarrow> (bool \<times> invariant \<times> 'w model) result" where
  "check_consistency v m =
     bindR (correlated_at v m) (\<lambda>p.
     bindR (check_simple (iv_kind p) m) (\<lambda>m.
     if get_choice_count m = 0 then
       let v = (if iv_unset v then v\<lparr>iv_result := get_violated m, iv_unset := False\<rparr> else v) in
       if get_violated m \<noteq> iv_result v then Inr (False, v, conclude True m)
       else Inr (next_correlated v m)
     else Inr (False, v, m)))"

definition check_violation :: "invariant \<Rightarrow> 'w model \<Rightarrow> (bool \<times> invariant \<times> 'w model) result" where
  "check_violation v m =
     (case iv_kind v of
        Conditional \<Rightarrow> check_conditional v m
      | Consistency \<Rightarrow> check_consistency v m
      | k \<Rightarrow> bindR (check_simple k m) (\<lambda>m. Inr (False, v, m)))"

end
