(* ===== verification/ConfigParser.thy ===== *)
theory ConfigParser
  imports Frames Invariants
begin

text \<open>
  The configuration (\<open>src/configparser.cpp\<close>): a TOML document, as the value the parsing library
  returns, is translated into the network, the OpenFlow updates and the invariants. The library is
  the data type \<open>toml\<close> and its typed lookups; a pointer that a lookup returns is an option. The
  expressions that search a middlebox's configuration for addresses and ports are evaluated by a
  small backtracking matcher; regular expressions the user gives for names of nodes are an
  argument, as are the addresses of new objects, the answers of the Docker daemon and the contents
  of files in a container.
\<close>

section \<open>TOML documents\<close>

datatype 'f toml =
    Toml_string string
  | Toml_int int
  | Toml_float 'f
  | Toml_bool bool
  | Toml_array "'f toml list"
  | Toml_table "(string \<times> 'f toml) list"

type_synonym 'f toml_table = "(string \<times> 'f toml) list"

definition get_string :: "string \<Rightarrow> 'f toml_table \<Rightarrow> string option" where
  "get_string k t = (case map_of t k of Some (Toml_string s) \<Rightarrow> Some s | _ \<Rightarrow> None)"

definition get_int :: "string \<Rightarrow> 'f toml_table \<Rightarrow> int option" where
  "get_int k t = (case map_of t k of Some (Toml_int i) \<Rightarrow> Some i | _ \<Rightarrow> None)"

definition get_float :: "string \<Rightarrow> 'f toml_table \<Rightarrow> 'f option" where
  "get_float k t = (case map_of t k of Some (Toml_float x) \<Rightarrow> Some x | _ \<Rightarrow> None)"

definition get_bool :: "string \<Rightarrow> 'f toml_table \<Rightarrow> bool option" where
  "get_bool k t = (case map_of t k of Some (Toml_bool b) \<Rightarrow> Some b | _ \<Rightarrow> None)"

definition get_array :: "string \<Rightarrow> 'f toml_table \<Rightarrow> 'f toml list option" where
  "get_array k t = (case map_of t k of Some (Toml_array xs) \<Rightarrow> Some xs | _ \<Rightarrow> None)"

definition get_table :: "string \<Rightarrow> 'f toml_table \<Rightarrow> 'f toml_table option" where
  "get_table k t = (case map_of t k of Some (Toml_table u) \<Rightarrow> Some u | _ \<Rightarrow> None)"

definition elements :: "string \<Rightarrow> 'f toml_table \<Rightarrow> 'f toml list" where
  "elements k t = (case get_array k t of None \<Rightarrow> [] | Some xs \<Rightarrow> xs)"

text \<open>Dereferencing what \<open>as_table\<close> and \<open>as_integer\<close> return.\<close>

definition as_table :: "'f toml \<Rightarrow> 'f toml_table result" where
  "as_table v = (case v of Toml_table t \<Rightarrow> Inr t | _ \<Rightarrow> Inl Undefined_behaviour)"

definition as_integer :: "'f toml \<Rightarrow> int result" where
  "as_integer v = (case v of Toml_int i \<Rightarrow> Inr i | _ \<Rightarrow> Inl Undefined_behaviour)"

definition as_string :: "'f toml \<Rightarrow> string result" where
  "as_string v = (case v of Toml_string s \<Rightarrow> Inr s | _ \<Rightarrow> Inl (Runtime_error ''Only strings are allowed''))"

definition need :: "string \<Rightarrow> 'a option \<Rightarrow> 'a result" where
  "need msg x = (case x of None \<Rightarrow> Inl (Runtime_error msg) | Some v \<Rightarrow> Inr v)"

definition failR :: "bool \<Rightarrow> string \<Rightarrow> unit result" where
  "failR b msg = (if b then Inl (Runtime_error msg) else Inr ())"

definition default :: "'a \<Rightarrow> 'a option \<Rightarrow> 'a" where
  "default d x = (case x of None \<Rightarrow> d | Some v \<Rightarrow> v)"

section \<open>The search for addresses and ports\<close>

text \<open>The part of ECMAScript expressions the parser uses. A position is the character before it and
  the rest of the text; the matches are listed in the order a backtracking matcher tries them.\<close>

datatype rx =
    Rx_class "char \<Rightarrow> bool"
  | Rx_run "char \<Rightarrow> bool" nat "nat option"   \<comment> \<open>greedy, at least and at most so many\<close>
  | Rx_word_boundary
  | Rx_end
  | Rx_seq rx rx
  | Rx_alt rx rx

definition is_word_char :: "char \<Rightarrow> bool" where
  "is_word_char c \<longleftrightarrow> (let n = (of_char c :: nat) in
     is_digit c \<or> n = 95 \<or> 65 \<le> n \<and> n \<le> 90 \<or> 97 \<le> n \<and> n \<le> 122)"

type_synonym rx_pos = "char option \<times> string"

definition rx_advance :: "nat \<Rightarrow> rx_pos \<Rightarrow> rx_pos" where
  "rx_advance k = (\<lambda>(prev, s). (if k = 0 then prev else Some (s ! (k - 1)), drop k s))"

definition at_word_boundary :: "rx_pos \<Rightarrow> bool" where
  "at_word_boundary = (\<lambda>(prev, s).
     (case prev of None \<Rightarrow> False | Some c \<Rightarrow> is_word_char c) \<noteq> (case s of [] \<Rightarrow> False | c # _ \<Rightarrow> is_word_char c))"

fun rx_match :: "rx \<Rightarrow> rx_pos \<Rightarrow> rx_pos list" where
  "rx_match (Rx_class f) (prev, s) = (case s of [] \<Rightarrow> [] | c # cs \<Rightarrow> if f c then [(Some c, cs)] else [])"
| "rx_match (Rx_run f lo hi) (prev, s) =
     (let n = length (takeWhile f s); n = (case hi of None \<Rightarrow> n | Some hi \<Rightarrow> min n hi) in
      map (\<lambda>k. rx_advance k (prev, s)) (rev [lo..<Suc n]))"
| "rx_match Rx_word_boundary pos = (if at_word_boundary pos then [pos] else [])"
| "rx_match Rx_end (prev, s) = (if s = [] then [(prev, s)] else [])"
| "rx_match (Rx_seq a b) pos = concat (map (rx_match b) (rx_match a pos))"
| "rx_match (Rx_alt a b) pos = rx_match a pos @ rx_match b pos"

text \<open>A pattern is what precedes its group, the group and what follows it.\<close>

type_synonym pattern = "rx \<times> rx \<times> rx"

definition match_here :: "pattern \<Rightarrow> rx_pos \<Rightarrow> (string \<times> string) list" where
  "match_here = (\<lambda>(pre, grp, post) pos.
     concat (map (\<lambda>p1. concat (map (\<lambda>p2. map (\<lambda>p3.
       (take (length (snd p1) - length (snd p2)) (snd p1), snd p3))
       (rx_match post p2)) (rx_match grp p1))) (rx_match pre pos)))"

fun regex_search :: "pattern \<Rightarrow> rx_pos \<Rightarrow> (string \<times> string) option" where
  "regex_search pat (prev, s) =
     (case match_here pat (prev, s) of
        m # _ \<Rightarrow> Some m
      | [] \<Rightarrow> (case s of [] \<Rightarrow> None | c # cs \<Rightarrow> regex_search pat (Some c, cs)))"

text \<open>The loop over all matches: the group of each match, the search going on in the suffix. A match
  of the three patterns is never empty, so that the suffix is shorter.\<close>

function matches_of :: "pattern \<Rightarrow> string \<Rightarrow> string list" where
  "matches_of pat subject =
     (case regex_search pat (None, subject) of
        None \<Rightarrow> []
      | Some (grp, suffix) \<Rightarrow>
          if length suffix < length subject then grp # matches_of pat suffix else [])"
  by pat_completeness auto
termination by (relation "measure (length \<circ> snd)") auto

definition rx_char :: "char \<Rightarrow> rx" where
  "rx_char c = Rx_class (\<lambda>x. x = c)"

definition rx_octet :: rx where
  "rx_octet = Rx_run is_digit 1 (Some 3)"

definition rx_digits :: rx where
  "rx_digits = Rx_run is_digit 1 None"

definition rx_dotted :: rx where
  "rx_dotted = Rx_seq rx_octet (Rx_seq (rx_char CHR ''.'') (Rx_seq rx_octet (Rx_seq (rx_char CHR ''.'')
     (Rx_seq rx_octet (Rx_seq (rx_char CHR ''.'') rx_octet)))))"

definition rx_empty :: rx where
  "rx_empty = Rx_run (\<lambda>_. False) 0 (Some 0)"

definition ip_prefix_regex :: pattern where
  "ip_prefix_regex = (rx_empty,
     Rx_seq Rx_word_boundary (Rx_seq rx_dotted (Rx_seq (rx_char CHR ''/'') (Rx_seq rx_digits Rx_word_boundary))),
     rx_empty)"

definition ip_addr_regex :: pattern where
  "ip_addr_regex = (Rx_word_boundary, rx_dotted, Rx_alt (Rx_class (\<lambda>x. x \<noteq> CHR ''/'')) Rx_end)"

definition port_regex :: pattern where
  "port_regex =
     (Rx_alt (foldr Rx_seq (map rx_char ''port'') (Rx_run is_space 1 None))
             (Rx_seq Rx_word_boundary (Rx_seq rx_dotted (rx_char CHR '':''))),
      rx_digits, Rx_word_boundary)"

text \<open>\<open>stoul\<close>, and the conversion of its result to a port.\<close>

definition port_of_string :: "string \<Rightarrow> (16 word) result" where
  "port_of_string s = (if digits_val s < 2 ^ 64 then Inr (of_nat (digits_val s)) else Inl Out_of_range)"

definition parse_config_string :: "string \<Rightarrow> middlebox_conf \<Rightarrow> middlebox_conf result" where
  "parse_config_string config mb =
     bindR (foldR (\<lambda>s mb. bindR (network_of_string s) (\<lambda>n.
         Inr (mb\<lparr>ec_ip_prefixes := set_insert interface_less n (ec_ip_prefixes mb)\<rparr>)))
       (matches_of ip_prefix_regex config) mb) (\<lambda>mb.
     bindR (foldR (\<lambda>s mb. bindR (ipv4_of_string s) (\<lambda>a.
         Inr (mb\<lparr>ec_ip_addrs := oset_insert a (ec_ip_addrs mb)\<rparr>)))
       (matches_of ip_addr_regex config) mb) (\<lambda>mb.
     foldR (\<lambda>s mb. bindR (port_of_string s) (\<lambda>p.
         Inr (mb\<lparr>ec_ports := oset_insert p (ec_ports mb)\<rparr>)))
       (matches_of port_regex config) mb))"

section \<open>Routes and interfaces\<close>

definition parse_route :: "'f toml_table \<Rightarrow> route result" where
  "parse_route cfg =
     (let network = get_string ''network'' cfg; next_hop = get_string ''next_hop'' cfg;
          intf = get_string ''interface'' cfg; adm_dist = get_int ''adm_dist'' cfg in
      bindR (need ''Missing network'' network) (\<lambda>network.
      bindR (failR (next_hop = None \<and> intf = None) ''Missing next hop IP address and interface'') (\<lambda>_.
      bindR (network_of_string network) (\<lambda>net.
      let route = mk_route net in
      bindR (case next_hop of None \<Rightarrow> Inr route
             | Some a \<Rightarrow> bindR (ipv4_of_string a) (\<lambda>a. Inr (route\<lparr>rt_next_hop := a\<rparr>))) (\<lambda>route.
      let route = (case intf of None \<Rightarrow> route | Some i \<Rightarrow> route\<lparr>rt_egress_intf := i\<rparr>) in
      case adm_dist of None \<Rightarrow> Inr route
      | Some d \<Rightarrow> bindR (failR (d < 1 \<or> d > 254) ''Invalid administrative distance: '') (\<lambda>_.
          Inr (route\<lparr>rt_adm_dist := d\<rparr>)))))))"

definition parse_interface :: "'f toml_table \<Rightarrow> interface result" where
  "parse_interface cfg =
     bindR (need ''Missing interface name'' (get_string ''name'' cfg)) (\<lambda>name.
     case get_string ''ipv4'' cfg of
       Some addr \<Rightarrow> bindR (interface_of_string addr) (\<lambda>ip.
         Inr \<lparr>if_name = name, if_ipv4 = ip, if_switchport = False\<rparr>)
     | None \<Rightarrow> Inr \<lparr>if_name = name, if_ipv4 = \<lparr>ip_value = 0, ip_prefix = 0\<rparr>, if_switchport = True\<rparr>)"

section \<open>Nodes\<close>

text \<open>The objects of the parser: the heap of the network under construction and the number of
  objects created so far; \<open>adr\<close> gives the address of each.\<close>

type_synonym objs = "net_heap \<times> nat"

definition new_node :: "middlebox_conf option \<Rightarrow> node" where
  "new_node mb = \<lparr>nd_name = [], nd_intfs = Map.empty, nd_intfs_l3 = [], nd_intfs_l2 = [], nd_rib = [],
     nd_l2_peers = Map.empty, nd_l2_lans = Map.empty, nd_middlebox = mb\<rparr>"

definition new_intf :: "(nat \<Rightarrow> nat) \<Rightarrow> interface \<Rightarrow> objs \<Rightarrow> nat \<times> objs" where
  "new_intf adr i = (\<lambda>(h, n). (adr n, h\<lparr>intf_heap := (intf_heap h)(adr n \<mapsto> i)\<rparr>, Suc n))"

definition parse_node_intf :: "(nat \<Rightarrow> nat) \<Rightarrow> 'f toml \<Rightarrow> node \<times> objs \<Rightarrow> (node \<times> objs) result" where
  "parse_node_intf adr cfg = (\<lambda>(node, os).
     bindR (as_table cfg) (\<lambda>cfg.
     bindR (parse_interface cfg) (\<lambda>intf.
     let (p, os) = new_intf adr intf os in
     bindR (add_interface (fst os) p node) (\<lambda>node. Inr (node, os)))))"

definition add_static_route :: "route \<Rightarrow> node \<Rightarrow> node" where
  "add_static_route route node =
     (let route = (if rt_adm_dist route = 255 then route\<lparr>rt_adm_dist := 1\<rparr> else route) in
      node\<lparr>nd_rib := snd (rib_insert route (nd_rib node))\<rparr>)"

definition add_installed_route :: "route \<Rightarrow> node \<Rightarrow> node" where
  "add_installed_route route node = node\<lparr>nd_rib := snd (rib_insert route (nd_rib node))\<rparr>"

definition parse_routes :: "(route \<Rightarrow> node \<Rightarrow> node) \<Rightarrow> 'f toml list \<Rightarrow> node \<Rightarrow> node result" where
  "parse_routes add = foldR (\<lambda>cfg node.
     bindR (as_table cfg) (\<lambda>cfg. bindR (parse_route cfg) (\<lambda>route. Inr (add route node))))"

definition parse_node :: "(nat \<Rightarrow> nat) \<Rightarrow> 'f toml_table \<Rightarrow> node \<times> objs \<Rightarrow> (node \<times> objs) result" where
  "parse_node adr cfg = (\<lambda>(node, os).
     bindR (need ''Missing node name'' (get_string ''name'' cfg)) (\<lambda>name.
     bindR (foldR (parse_node_intf adr) (elements ''interfaces'' cfg) (node\<lparr>nd_name := name\<rparr>, os)) (\<lambda>(node, os).
     bindR (parse_routes add_static_route (elements ''static_routes'' cfg) node) (\<lambda>node.
     bindR (parse_routes add_installed_route (elements ''installed_routes'' cfg) node) (\<lambda>node.
     Inr (node, os))))))"

section \<open>Middleboxes\<close>

text \<open>The three delays are checked; they only say how long to sleep.\<close>

definition check_delay :: "string \<Rightarrow> 'f toml_table \<Rightarrow> unit result" where
  "check_delay k cfg = (case get_int k cfg of None \<Rightarrow> Inr () | Some d \<Rightarrow> failR (d < 0) (''Invalid '' @ k @ '': ''))"

definition upd_conf :: "(middlebox_conf \<Rightarrow> middlebox_conf result) \<Rightarrow> node \<Rightarrow> node result" where
  "upd_conf f node =
     (case nd_middlebox node of
        None \<Rightarrow> Inl Undefined_behaviour
      | Some mb \<Rightarrow> bindR (f mb) (\<lambda>mb. Inr (node\<lparr>nd_middlebox := Some mb\<rparr>)))"

definition parse_middlebox :: "(nat \<Rightarrow> nat) \<Rightarrow> 'f toml_table \<Rightarrow> node \<times> objs \<Rightarrow> (node \<times> objs) result" where
  "parse_middlebox adr cfg s =
     bindR (parse_node adr cfg s) (\<lambda>(node, os).
     bindR (check_delay ''start_delay'' cfg) (\<lambda>_.
     bindR (check_delay ''reset_delay'' cfg) (\<lambda>_.
     bindR (check_delay ''replay_delay'' cfg) (\<lambda>_.
     bindR (case get_int ''packets_per_injection'' cfg of
         None \<Rightarrow> Inr 1
       | Some n \<Rightarrow> bindR (failR (n \<le> 0) ''Invalid packets_per_injection: '') (\<lambda>_. Inr (to_c_int n))) (\<lambda>n.
     bindR (upd_conf (\<lambda>mb. Inr (mb\<lparr>mb_packets_per_injection := n\<rparr>)) node) (\<lambda>node.
     Inr (node, os)))))))"

record docker_mount =
  mount_path :: string
  host_path :: string
  mount_driver :: string
  read_only :: bool

record docker_conf =
  dk_daemon :: string
  dk_image :: string
  dk_working_dir :: string
  dk_dpdk :: bool
  dk_cmd :: "string list"
  dk_ports :: "(proto \<times> int) list"
  dk_env_vars :: "(string \<times> string) list"
  dk_mounts :: "docker_mount list"
  dk_sysctls :: "(string \<times> string) list"

text \<open>\<open>emplace\<close> of an unordered map keeps the first value of a key.\<close>

definition map_emplace :: "string \<Rightarrow> string \<Rightarrow> (string \<times> string) list \<Rightarrow> (string \<times> string) list" where
  "map_emplace k v m = (case map_of m k of Some _ \<Rightarrow> m | None \<Rightarrow> (k, v) # m)"

definition parse_strings :: "'f toml list \<Rightarrow> string list \<Rightarrow> (string list) result" where
  "parse_strings = foldR (\<lambda>v ss. bindR (as_string v) (\<lambda>s. Inr (ss @ [s])))"

definition parse_port :: "'f toml \<Rightarrow> (proto \<times> int) list \<Rightarrow> ((proto \<times> int) list) result" where
  "parse_port v ports =
     bindR (as_table v) (\<lambda>cfg.
     bindR (need ''Missing port'' (get_int ''port'' cfg)) (\<lambda>port.
     bindR (failR (port < 1) ''Invalid port: '') (\<lambda>_.
     bindR (need ''Missing protocol'' (get_string ''protocol'' cfg)) (\<lambda>protocol.
     if protocol = ''tcp'' then Inr (ports @ [(Tcp, to_c_int port)])
     else if protocol = ''udp'' then Inr (ports @ [(Udp, to_c_int port)])
     else Inl (Runtime_error ''Unsupported protocol: '')))))"

definition parse_pair :: "string \<Rightarrow> string \<Rightarrow> 'f toml \<Rightarrow> (string \<times> string) list \<Rightarrow> ((string \<times> string) list) result" where
  "parse_pair key_name value_name v m =
     bindR (as_table v) (\<lambda>cfg.
     bindR (need (''Missing '' @ key_name) (get_string key_name cfg)) (\<lambda>k.
     bindR (need (''Missing '' @ value_name) (get_string value_name cfg)) (\<lambda>x.
     Inr (map_emplace k x m))))"

definition parse_mount :: "'f toml \<Rightarrow> docker_mount list \<Rightarrow> (docker_mount list) result" where
  "parse_mount v mounts =
     bindR (as_table v) (\<lambda>cfg.
     bindR (need ''Missing mount_path'' (get_string ''mount_path'' cfg)) (\<lambda>mp.
     bindR (need ''Missing host_path'' (get_string ''host_path'' cfg)) (\<lambda>hp.
     let driver = default ''local'' (get_string ''driver'' cfg) in
     bindR (failR (driver \<noteq> ''local'') ''Unsupported volumn_mounts driver: '') (\<lambda>_.
     Inr (mounts @ [\<lparr>mount_path = mp, host_path = hp, mount_driver = driver,
       read_only = default False (get_bool ''read_only'' cfg)\<rparr>])))))"

text \<open>What the parser takes from outside: the addresses of new objects, the regular expressions of
  the user (\<open>None\<close> for a malformed one), the iteration order of unordered sets, the entry point and
  command of an image, the text of a file in a container, and the number of connections a state
  vector holds.\<close>

record parse_env =
  pe_adr :: "nat \<Rightarrow> nat"
  pe_regex :: "string \<Rightarrow> (string \<Rightarrow> bool) option"
  pe_order :: "nat list \<Rightarrow> nat list"
  pe_pull :: "string \<Rightarrow> string \<Rightarrow> string list \<times> string list"
  pe_file :: "docker_conf \<Rightarrow> string \<Rightarrow> string option"
  pe_max_conns :: nat

definition parse_container :: "parse_env \<Rightarrow> 'f toml_table \<Rightarrow> 'f toml_table \<Rightarrow> docker_conf result" where
  "parse_container env cfg cntr =
     bindR (need ''Missing container image'' (get_string ''image'' cntr)) (\<lambda>image.
     let image = (if CHR '':'' \<in> set image then image else image @ '':latest'') in
     bindR (need ''Missing container working_dir'' (get_string ''working_dir'' cntr)) (\<lambda>working_dir.
     bindR (parse_strings (elements ''command'' cntr) []) (\<lambda>cmd.
     bindR (parse_strings (elements ''args'' cntr) cmd) (\<lambda>cmd.
     bindR (foldR parse_port (elements ''ports'' cntr) []) (\<lambda>ports.
     bindR (foldR (parse_pair ''name'' ''value'') (elements ''env'' cntr) []) (\<lambda>env_vars.
     bindR (foldR parse_mount (elements ''volume_mounts'' cntr) []) (\<lambda>mounts.
     bindR (foldR (parse_pair ''key'' ''value'') (elements ''sysctls'' cntr) []) (\<lambda>sysctls.
     let daemon = default ''/var/run/docker.sock'' (get_string ''daemon'' cfg);
         (entrypoint, img_cmd) = pe_pull env daemon image;
         cmd = (if cmd = [] then filter (\<lambda>arg. arg \<noteq> []) entrypoint @ filter (\<lambda>arg. arg \<noteq> []) img_cmd else cmd) in
     Inr \<lparr>dk_daemon = daemon, dk_image = image, dk_working_dir = working_dir,
       dk_dpdk = default False (get_bool ''dpdk'' cntr), dk_cmd = cmd, dk_ports = ports,
       dk_env_vars = env_vars, dk_mounts = mounts, dk_sysctls = sysctls\<rparr>))))))))"

definition scan_file :: "parse_env \<Rightarrow> docker_conf \<Rightarrow> 'f toml \<Rightarrow> middlebox_conf \<Rightarrow> middlebox_conf result" where
  "scan_file env dk v mb =
     bindR (as_string v) (\<lambda>filename.
     bindR (need ''Failed to open '' (pe_file env dk filename)) (\<lambda>config. parse_config_string config mb))"

definition scan_container :: "parse_env \<Rightarrow> docker_conf \<Rightarrow> 'f toml_table \<Rightarrow> middlebox_conf \<Rightarrow> middlebox_conf result" where
  "scan_container env dk cntr mb =
     bindR (foldR (scan_file env dk) (elements ''config_files'' cntr) mb) (\<lambda>mb.
     bindR (foldR parse_config_string (tl (dk_cmd dk)) mb) (\<lambda>mb.
     foldR parse_config_string (map snd (dk_env_vars dk))
       (fold (\<lambda>(_, port) mb. mb\<lparr>ec_ports := oset_insert (word_of_int port) (ec_ports mb)\<rparr>) (dk_ports dk) mb)))"

definition parse_dockernode ::
    "parse_env \<Rightarrow> 'f toml_table \<Rightarrow> node \<times> objs \<Rightarrow> (docker_conf \<times> node \<times> objs) result" where
  "parse_dockernode env cfg s =
     bindR (parse_middlebox (pe_adr env) cfg s) (\<lambda>(node, os).
     bindR (need ''Missing container configuration'' (get_table ''container'' cfg)) (\<lambda>cntr.
     bindR (parse_container env cfg cntr) (\<lambda>dk.
     bindR (upd_conf (scan_container env dk cntr) node) (\<lambda>node. Inr (dk, node, os)))))"

section \<open>The network\<close>

text \<open>The state of the parser: the network, the number of objects and the Docker nodes.\<close>

type_synonym net_state = "network \<times> nat \<times> (nat \<times> docker_conf) list"

definition no_conf :: middlebox_conf where
  "no_conf = \<lparr>mb_packets_per_injection = 0, ec_ip_prefixes = [], ec_ip_addrs = [], ec_ports = []\<rparr>"

text \<open>Enter a parsed node, the object with address \<open>p\<close>, into the network.\<close>

definition put_node :: "nat \<Rightarrow> node \<times> objs \<Rightarrow> network \<Rightarrow> network \<times> nat" where
  "put_node p = (\<lambda>(node, h, n) net.
     (net\<lparr>net_objs := h\<lparr>node_heap := (node_heap h)(p \<mapsto> node)\<rparr>\<rparr>, n))"

definition parse_network_node :: "parse_env \<Rightarrow> 'f toml \<Rightarrow> net_state \<Rightarrow> net_state result" where
  "parse_network_node env v = (\<lambda>(net, n, dks).
     bindR (as_table v) (\<lambda>tbl.
     let p = pe_adr env n; type = get_string ''type'' tbl in
     if type = None \<or> type = Some ''model'' then
       bindR (parse_node (pe_adr env) tbl (new_node None, net_objs net, Suc n)) (\<lambda>s.
       let (net, n) = put_node p s net in
       bindR (add_node p net) (\<lambda>net. Inr (net, n, dks)))
     else if type = Some ''emulation'' then
       (let driver = get_string ''driver'' tbl in
        bindR (failR (driver \<noteq> None \<and> driver \<noteq> Some ''docker'') ''Unknown driver: '') (\<lambda>_.
        bindR (parse_dockernode env tbl (new_node (Some no_conf), net_objs net, Suc n)) (\<lambda>(dk, s).
        let (net, n) = put_node p s net in
        bindR (add_middlebox p net) (\<lambda>net.
        bindR (add_node p net) (\<lambda>net. Inr (net, n, (p, dk) # dks))))))
     else Inl (Runtime_error ''Unknown node type: '')))"

definition normalize_link :: "link \<Rightarrow> link result" where
  "normalize_link l =
     (if ln_node1 l > ln_node2 l then
        Inr \<lparr>ln_node1 = ln_node2 l, ln_node2 = ln_node1 l, ln_intf1 = ln_intf2 l, ln_intf2 = ln_intf1 l\<rparr>
      else if ln_node1 l = ln_node2 l then Inl (Runtime_error ''Invalid link: '')
      else Inr l)"

definition parse_link :: "'f toml_table \<Rightarrow> network \<Rightarrow> link result" where
  "parse_link cfg net =
     bindR (need ''Missing node1'' (get_string ''node1'' cfg)) (\<lambda>node1_name.
     bindR (need ''Missing intf1'' (get_string ''intf1'' cfg)) (\<lambda>intf1_name.
     bindR (need ''Missing node2'' (get_string ''node2'' cfg)) (\<lambda>node2_name.
     bindR (need ''Missing intf2'' (get_string ''intf2'' cfg)) (\<lambda>intf2_name.
     bindR (need ''Unknown node: '' (map_of (net_nodes net) node1_name)) (\<lambda>node1.
     bindR (need ''Unknown node: '' (map_of (net_nodes net) node2_name)) (\<lambda>node2.
     bindR (derefR (node_heap (net_objs net)) node1) (\<lambda>nd1.
     bindR (get_interface nd1 intf1_name) (\<lambda>intf1.
     bindR (derefR (node_heap (net_objs net)) node2) (\<lambda>nd2.
     bindR (get_interface nd2 intf2_name) (\<lambda>intf2.
     normalize_link \<lparr>ln_node1 = node1, ln_node2 = node2, ln_intf1 = intf1, ln_intf2 = intf2\<rparr>))))))))))"

definition parse_network_link :: "'f toml \<Rightarrow> network \<Rightarrow> network result" where
  "parse_network_link v net =
     bindR (as_table v) (\<lambda>tbl. bindR (parse_link tbl net) (\<lambda>l. add_link l net))"

text \<open>The LANs of the switchports that have none yet; a LAN is a new object. There are at most as
  many switchports as objects, which bounds the recursion.\<close>

definition populate_lan :: "(nat \<Rightarrow> nat) \<Rightarrow> nat \<Rightarrow> nat \<Rightarrow> nat \<Rightarrow> network \<times> nat \<Rightarrow> (network \<times> nat) result" where
  "populate_lan adr fuel node intf = (\<lambda>(net, n).
     bindR (derefR (node_heap (net_objs net)) node) (\<lambda>nd.
     if mapped_to_l2lan nd intf then Inr (net, n)
     else bindR (grow_and_set_l2_lan fuel (adr n) node net) (\<lambda>net. Inr (net, Suc n))))"

definition populate_lans :: "(nat \<Rightarrow> nat) \<Rightarrow> network \<times> nat \<Rightarrow> (network \<times> nat) result" where
  "populate_lans adr = (\<lambda>(net, n).
     foldR (\<lambda>(_, node) s.
         bindR (derefR (node_heap (net_objs (fst s))) node) (\<lambda>nd.
         foldR (populate_lan adr (Suc n) node) (nd_intfs_l2 nd) s))
       (net_nodes net) (net, n))"

definition parse_network :: "parse_env \<Rightarrow> 'f toml_table \<Rightarrow> net_state result" where
  "parse_network env cfg =
     bindR (foldR (parse_network_node env) (elements ''nodes'' cfg) (network_init, 0, [])) (\<lambda>(net, n, dks).
     bindR (foldR parse_network_link (elements ''links'' cfg) net) (\<lambda>net.
     bindR (populate_lans (pe_adr env) (net, n)) (\<lambda>(net, n). Inr (net, n, dks))))"

section \<open>OpenFlow updates\<close>

definition parse_openflow_update :: "'f toml_table \<Rightarrow> network \<Rightarrow> (nat \<times> route) result" where
  "parse_openflow_update cfg net =
     bindR (need ''Missing node name'' (get_string ''node'' cfg)) (\<lambda>node_name.
     bindR (need ''Missing network'' (get_string ''network'' cfg)) (\<lambda>network_cidr.
     bindR (need ''Missing outport'' (get_string ''outport'' cfg)) (\<lambda>outport.
     bindR (need ''Unknown node: '' (map_of (net_nodes net) node_name)) (\<lambda>node.
     bindR (derefR (node_heap (net_objs net)) node) (\<lambda>nd.
     bindR (failR (is_emulated nd) ''Unsupported node type'') (\<lambda>_.
     bindR (network_of_string network_cidr) (\<lambda>n.
     Inr (node, (mk_route n)\<lparr>rt_egress_intf := outport\<rparr>))))))))"

definition parse_openflow :: "'f toml_table \<Rightarrow> network \<Rightarrow> updates result" where
  "parse_openflow cfg net =
     (case get_table ''openflow'' cfg of
        None \<Rightarrow> Inr []
      | Some of_cfg \<Rightarrow> foldR (\<lambda>v u.
          bindR (as_table v) (\<lambda>tbl.
          bindR (parse_openflow_update tbl net) (\<lambda>(node, route). Inr (add_update node route u))))
        (elements ''updates'' of_cfg) [])"

section \<open>Connection specifications\<close>

text \<open>The nodes whose name matches; the expression is compiled for every node.\<close>

definition matching_nodes :: "parse_env \<Rightarrow> string \<Rightarrow> network \<Rightarrow> (nat list) result" where
  "matching_nodes env re net =
     foldR (\<lambda>(name, node) ns.
         case pe_regex env re of
           None \<Rightarrow> Inl (Runtime_error ''std::regex_error'')
         | Some matches \<Rightarrow> Inr (if matches name then oset_insert node ns else ns))
       (net_nodes net) []"

definition to_lower :: "char \<Rightarrow> char" where
  "to_lower c = (let n = (of_char c :: nat) in if 65 \<le> n \<and> n \<le> 90 then char_of (n + 32) else c)"

definition parse_protocol :: "string \<Rightarrow> proto result" where
  "parse_protocol s =
     (let s = map to_lower s in
      if s = ''tcp'' then Inr Tcp else if s = ''udp'' then Inr Udp
      else if s = ''icmp-echo'' then Inr Icmp_echo
      else Inl (Runtime_error ''Unknown protocol: ''))"

definition parse_dst_ports :: "'f toml_table \<Rightarrow> (16 word list) result" where
  "parse_dst_ports cfg =
     (case get_array ''dst_port'' cfg of
        Some dst_ports \<Rightarrow> foldR (\<lambda>v ports. bindR (as_integer v) (\<lambda>p. Inr (oset_insert (word_of_int p) ports))) dst_ports []
      | None \<Rightarrow> Inr (case get_int ''dst_port'' cfg of None \<Rightarrow> [] | Some p \<Rightarrow> oset_insert (word_of_int p) []))"

definition parse_conn_spec :: "parse_env \<Rightarrow> 'f toml_table \<Rightarrow> network \<Rightarrow> connspec result" where
  "parse_conn_spec env cfg net =
     bindR (need ''Missing protocol'' (get_string ''protocol'' cfg)) (\<lambda>proto_str.
     bindR (need ''Missing src_node'' (get_string ''src_node'' cfg)) (\<lambda>src_node_regex.
     bindR (need ''Missing dst_ip'' (get_string ''dst_ip'' cfg)) (\<lambda>ip_str.
     bindR (parse_protocol proto_str) (\<lambda>protocol.
     bindR (matching_nodes env src_node_regex net) (\<lambda>src_nodes.
     bindR (range_of_string (if CHR ''/'' \<in> set ip_str then ip_str else ip_str @ ''/32'')) (\<lambda>dst_ip.
     bindR (if protocol = Tcp \<or> protocol = Udp then
         bindR (parse_dst_ports cfg) (\<lambda>dst_ports.
         Inr (word_of_int (default 49152 (get_int ''src_port'' cfg)), dst_ports))
       else Inr (0, [])) (\<lambda>(src_port, dst_ports).
     Inr \<lparr>sp_protocol = proto_int protocol, sp_src_nodes = src_nodes, sp_dst_ip = dst_ip,
       sp_src_port = src_port, sp_dst_ports = dst_ports,
       sp_owned_dst_only = default False (get_bool ''owned_dst_only'' cfg)\<rparr>)))))))"

definition parse_connections :: "parse_env \<Rightarrow> 'f toml_table \<Rightarrow> network \<Rightarrow> (connspec list) result" where
  "parse_connections env cfg net =
     bindR (need ''Missing connections'' (get_array ''connections'' cfg)) (\<lambda>conns.
     foldR (\<lambda>v specs.
       bindR (as_table v) (\<lambda>tbl. bindR (parse_conn_spec env tbl net) (\<lambda>sp. Inr (specs @ [sp])))) conns [])"

section \<open>Invariants\<close>

definition mk_simple :: "inv_kind \<Rightarrow> connspec list \<Rightarrow> simple_inv" where
  "mk_simple kind specs = \<lparr>iv_kind = kind, iv_conn_specs = specs, iv_conn_matrix = conn_matrix_init, iv_conns = []\<rparr>"

definition target_nodes :: "parse_env \<Rightarrow> string \<Rightarrow> network \<Rightarrow> (nat list) result" where
  "target_nodes env re net = bindR (matching_nodes env re net) (\<lambda>ns. Inr (pe_order env ns))"

text \<open>The three invariants with target nodes and a flag, about one connection.\<close>

definition parse_flagged ::
    "parse_env \<Rightarrow> string \<Rightarrow> (nat list \<Rightarrow> bool \<Rightarrow> inv_kind) \<Rightarrow> 'f toml_table \<Rightarrow> network \<Rightarrow> simple_inv result" where
  "parse_flagged env flag_name kind cfg net =
     bindR (need ''Missing target_node'' (get_string ''target_node'' cfg)) (\<lambda>re.
     bindR (need (''Missing '' @ flag_name) (get_bool flag_name cfg)) (\<lambda>flag.
     bindR (target_nodes env re net) (\<lambda>targets.
     bindR (parse_connections env cfg net) (\<lambda>specs.
     bindR (assertR (length specs = 1)) (\<lambda>_. Inr (mk_simple (kind targets flag) specs))))))"

definition parse_reachability :: "parse_env \<Rightarrow> 'f toml_table \<Rightarrow> network \<Rightarrow> simple_inv result" where
  "parse_reachability env = parse_flagged env ''reachable'' Reachability"

definition parse_replyreachability :: "parse_env \<Rightarrow> 'f toml_table \<Rightarrow> network \<Rightarrow> simple_inv result" where
  "parse_replyreachability env = parse_flagged env ''reachable'' Reply_reachability"

definition parse_waypoint :: "parse_env \<Rightarrow> 'f toml_table \<Rightarrow> network \<Rightarrow> simple_inv result" where
  "parse_waypoint env = parse_flagged env ''pass_through'' Waypoint"

definition parse_loop :: "parse_env \<Rightarrow> 'f toml_table \<Rightarrow> network \<Rightarrow> simple_inv result" where
  "parse_loop env cfg net =
     bindR (parse_connections env cfg net) (\<lambda>specs.
     bindR (assertR (length specs = 1)) (\<lambda>_. Inr (mk_simple Loop_inv specs)))"

definition parse_onerequest :: "parse_env \<Rightarrow> 'f toml_table \<Rightarrow> network \<Rightarrow> simple_inv result" where
  "parse_onerequest env cfg net =
     bindR (need ''Missing target_node'' (get_string ''target_node'' cfg)) (\<lambda>re.
     bindR (target_nodes env re net) (\<lambda>targets.
     bindR (parse_connections env cfg net) (\<lambda>specs.
     bindR (assertR (length specs \<ge> 1)) (\<lambda>_. Inr (mk_simple (One_request targets) specs)))))"

definition parse_loadbalance ::
    "'f double_ops \<Rightarrow> parse_env \<Rightarrow> 'f toml_table \<Rightarrow> network \<Rightarrow> simple_inv result" where
  "parse_loadbalance d env cfg net =
     bindR (need ''Missing target_node'' (get_string ''target_node'' cfg)) (\<lambda>re.
     bindR (target_nodes env re net) (\<lambda>targets.
     let max_index = (case get_float ''max_dispersion_index'' cfg of
           Some x \<Rightarrow> x
         | None \<Rightarrow> d_of_int d (default 1 (get_int ''max_dispersion_index'' cfg))) in
     bindR (parse_connections env cfg net) (\<lambda>specs.
     bindR (assertR (length specs \<ge> 1)) (\<lambda>_.
     Inr (mk_simple (Load_balance targets (dispersion_exceeds d targets max_index)) specs)))))"

text \<open>The invariants that may be correlated, by their type.\<close>

definition parse_common_inv :: "parse_env \<Rightarrow> string \<Rightarrow> 'f toml_table \<Rightarrow> network \<Rightarrow> simple_inv result option" where
  "parse_common_inv env type tbl net =
     (if type = ''reachability'' then Some (parse_reachability env tbl net)
      else if type = ''reply-reachability'' then Some (parse_replyreachability env tbl net)
      else if type = ''waypoint'' then Some (parse_waypoint env tbl net)
      else if type = ''loop'' then Some (parse_loop env tbl net)
      else None)"

definition parse_correlated_inv :: "parse_env \<Rightarrow> network \<Rightarrow> 'f toml \<Rightarrow> simple_inv list \<Rightarrow> (simple_inv list) result" where
  "parse_correlated_inv env net v invs =
     bindR (as_table v) (\<lambda>tbl.
     bindR (need ''Missing invariant type'' (get_string ''type'' tbl)) (\<lambda>type.
     bindR (case parse_common_inv env type tbl net of
         Some r \<Rightarrow> r
       | None \<Rightarrow> Inl (Runtime_error ''Unknown invariant type: '')) (\<lambda>inv.
     bindR (assertR (length (iv_conn_specs inv) \<le> pe_max_conns env)) (\<lambda>_.
     Inr (invs @ [inv])))))"

definition parse_correlated_invs :: "parse_env \<Rightarrow> 'f toml_table \<Rightarrow> network \<Rightarrow> (simple_inv list) result" where
  "parse_correlated_invs env cfg net =
     bindR (need ''Missing correlated invariants'' (get_array ''correlated_invariants'' cfg)) (\<lambda>invs.
     foldR (parse_correlated_inv env net) invs [])"

text \<open>An invariant of its own, without correlated ones. The fields of \<open>Consistency\<close> are set when the
  invariant is initialised.\<close>

definition standalone :: "simple_inv \<Rightarrow> invariant" where
  "standalone s = \<lparr>iv_kind = iv_kind s, iv_conn_specs = iv_conn_specs s, iv_conn_matrix = iv_conn_matrix s,
     iv_conns = iv_conns s, iv_correlated = [], iv_result = False, iv_unset = False\<rparr>"

definition combined :: "inv_kind \<Rightarrow> simple_inv list \<Rightarrow> invariant" where
  "combined kind invs = (standalone (mk_simple kind []))\<lparr>iv_correlated := invs\<rparr>"

definition parse_inv :: "'f double_ops \<Rightarrow> parse_env \<Rightarrow> string \<Rightarrow> 'f toml_table \<Rightarrow> network \<Rightarrow> invariant result" where
  "parse_inv d env type tbl net =
     (let alone = (\<lambda>r. bindR r (\<lambda>inv. Inr (standalone inv)));
          correlated = (\<lambda>kind. bindR (parse_correlated_invs env tbl net) (\<lambda>invs. Inr (combined kind invs))) in
      case parse_common_inv env type tbl net of
        Some r \<Rightarrow> alone r
      | None \<Rightarrow>
          if type = ''one-request'' then alone (parse_onerequest env tbl net)
          else if type = ''loadbalance'' then alone (parse_loadbalance d env tbl net)
          else if type = ''conditional'' then correlated Conditional
          else if type = ''consistency'' then correlated Consistency
          else Inl (Runtime_error ''Unknown invariant type: ''))"

definition parse_inv_entry ::
    "'f double_ops \<Rightarrow> parse_env \<Rightarrow> network \<Rightarrow> 'f toml \<Rightarrow> invariant list \<Rightarrow> (invariant list) result" where
  "parse_inv_entry d env net v invs =
     bindR (as_table v) (\<lambda>tbl.
     bindR (need ''Missing invariant type'' (get_string ''type'' tbl)) (\<lambda>type.
     bindR (parse_inv d env type tbl net) (\<lambda>inv.
     bindR (assertR (length (iv_conn_specs inv) \<le> pe_max_conns env)) (\<lambda>_.
     Inr (invs @ [inv])))))"

definition parse_invariants :: "'f double_ops \<Rightarrow> parse_env \<Rightarrow> 'f toml_table \<Rightarrow> network \<Rightarrow> (invariant list) result" where
  "parse_invariants d env cfg net = foldR (parse_inv_entry d env net) (elements ''invariants'' cfg) []"

section \<open>The configuration\<close>

definition parse_config ::
    "'f double_ops \<Rightarrow> parse_env \<Rightarrow> 'f toml_table \<Rightarrow> (net_state \<times> updates \<times> invariant list) result" where
  "parse_config d env cfg =
     bindR (parse_network env cfg) (\<lambda>(net, s).
     bindR (parse_openflow cfg net) (\<lambda>updates.
     bindR (parse_invariants d env cfg net) (\<lambda>invs.
     Inr ((net, s), updates, invs))))"

section \<open>Parsed invariants\<close>

lemma need_eq_Inr [simp]: "need msg x = Inr v \<longleftrightarrow> x = Some v"
  by (auto simp: need_def split: option.splits)

lemma failR_eq_Inr [simp]: "failR b msg = Inr u \<longleftrightarrow> \<not> b"
  by (simp add: failR_def)

lemma foldR_all:
  assumes "foldR f xs ys = Inr zs" "\<forall>y \<in> set ys. P y"
    and "\<And>x ys zs. f x ys = Inr zs \<Longrightarrow> \<exists>y. zs = ys @ [y] \<and> P y"
  shows "(\<forall>z \<in> set zs. P z) \<and> length zs = length ys + length xs"
  using assms(1,2)
proof (induction xs arbitrary: ys)
  case (Cons x xs)
  then obtain ys1 where 1: "f x ys = Inr ys1" "foldR f xs ys1 = Inr zs" by (auto simp: bindR_eq_Inr_iff)
  from assms(3)[OF 1(1)] obtain y where y: "ys1 = ys @ [y]" "P y" by blast
  then have "\<forall>y \<in> set ys1. P y" using Cons.prems(2) by simp
  from Cons.IH[OF 1(2) this] show ?case unfolding y(1) by simp
qed simp

definition spec_ok :: "network \<Rightarrow> connspec \<Rightarrow> bool" where
  "spec_ok net sp \<longleftrightarrow> sp_protocol sp \<in> {0, 1, 2} \<and> set (sp_src_nodes sp) \<subseteq> snd ` set (net_nodes net)
    \<and> oset (sp_src_nodes sp) \<and> (\<exists>n. valid_network n \<and> sp_dst_ip sp = range_of_network n)
    \<and> (sp_protocol sp = 2 \<longrightarrow> sp_src_port sp = 0 \<and> sp_dst_ports sp = []) \<and> oset (sp_dst_ports sp)"

lemma matching_nodes_ok:
  assumes "matching_nodes env re net = Inr ns"
  shows "set ns \<subseteq> snd ` set (net_nodes net) \<and> oset ns"
  unfolding matching_nodes_def
proof (rule foldR_invariant[where I = "\<lambda>ns. set ns \<subseteq> snd ` set (net_nodes net) \<and> oset ns"])
  show "foldR (\<lambda>(name, node) ns. case pe_regex env re of None \<Rightarrow> Inl (Runtime_error ''std::regex_error'')
      | Some matches \<Rightarrow> Inr (if matches name then oset_insert node ns else ns)) (net_nodes net) [] = Inr ns"
    using assms by (simp add: matching_nodes_def)
qed (force split: option.splits if_splits)+

lemma matching_nodesD:
  assumes "matching_nodes env re net = Inr ns"
  shows "x \<in> set ns \<Longrightarrow> x \<in> snd ` set (net_nodes net)" and "oset ns"
  using matching_nodes_ok[OF assms] by auto

lemma network_of_string_valid: "network_of_string s = Inr n \<Longrightarrow> valid_network n"
  unfolding network_of_string_def interface_of_string_def mk_interface_def
  by (auto simp: valid_network_def bindR_eq_Inr_iff split: option.splits if_splits)

lemma parse_dst_ports_oset: "parse_dst_ports cfg = Inr ps \<Longrightarrow> oset ps"
proof -
  have "oset ps" if "foldR (\<lambda>v ports. bindR (as_integer v) (\<lambda>p. Inr (oset_insert (word_of_int p) ports))) vs [] = Inr ps"
    for vs and ps :: "16 word list"
    by (rule foldR_invariant[OF _ _ that, where I = oset]) (auto simp: bindR_eq_Inr_iff)
  then show "parse_dst_ports cfg = Inr ps \<Longrightarrow> oset ps"
    by (auto simp: parse_dst_ports_def split: option.splits)
qed

lemma parse_conn_spec_ok:
  assumes "parse_conn_spec env cfg net = Inr sp"
  shows "spec_ok net sp"
  using assms unfolding parse_conn_spec_def
  by (elim bindR_okE) (auto simp: spec_ok_def range_of_string_def proto_int_def bindR_eq_Inr_iff
    split: if_splits proto.splits dest: matching_nodesD network_of_string_valid parse_dst_ports_oset)

lemma parse_connections_ok:
  fixes cfg :: "'f toml_table"
  assumes "parse_connections env cfg net = Inr specs"
  shows "\<forall>sp \<in> set specs. spec_ok net sp"
proof -
  obtain conns :: "'f toml list" where "foldR (\<lambda>v specs. bindR (as_table v) (\<lambda>tbl.
      bindR (parse_conn_spec env tbl net) (\<lambda>sp. Inr (specs @ [sp])))) conns [] = Inr specs"
    using assms by (auto simp: parse_connections_def bindR_eq_Inr_iff)
  then have "(\<forall>sp \<in> set specs. spec_ok net sp) \<and> length specs = length ([] :: connspec list) + length conns"
    by (rule foldR_all) (auto simp: bindR_eq_Inr_iff parse_conn_spec_ok)
  then show ?thesis by simp
qed

text \<open>The invariants that may be correlated are about one connection each.\<close>

definition correlated_ok :: "nat \<Rightarrow> network \<Rightarrow> simple_inv \<Rightarrow> bool" where
  "correlated_ok max_conns net p \<longleftrightarrow> iv_kind p \<notin> {Conditional, Consistency} \<and> length (iv_conn_specs p) = 1
    \<and> 1 \<le> max_conns \<and> spec_ok net (hd (iv_conn_specs p)) \<and> iv_conn_matrix p = conn_matrix_init \<and> iv_conns p = []"

definition inv_ok :: "nat \<Rightarrow> network \<Rightarrow> invariant \<Rightarrow> bool" where
  "inv_ok max_conns net v \<longleftrightarrow> (if iv_kind v \<in> {Conditional, Consistency}
     then iv_conn_specs v = [] \<and> (\<forall>p \<in> set (iv_correlated v). correlated_ok max_conns net p)
     else iv_correlated v = [] \<and> 1 \<le> length (iv_conn_specs v) \<and> length (iv_conn_specs v) \<le> max_conns
       \<and> (\<forall>sp \<in> set (iv_conn_specs v). spec_ok net sp)
       \<and> ((\<forall>ns. iv_kind v \<noteq> One_request ns) \<and> (\<forall>ns f. iv_kind v \<noteq> Load_balance ns f)
          \<longrightarrow> length (iv_conn_specs v) = 1))
     \<and> iv_conn_matrix v = conn_matrix_init \<and> iv_conns v = []"

lemma parse_common_ok:
  assumes "parse_common_inv env type tbl net = Some (Inr p)"
  shows "(\<exists>ns f. iv_kind p \<in> {Reachability ns f, Reply_reachability ns f, Waypoint ns f, Loop_inv})
    \<and> length (iv_conn_specs p) = 1 \<and> (\<forall>sp \<in> set (iv_conn_specs p). spec_ok net sp)
    \<and> iv_conn_matrix p = conn_matrix_init \<and> iv_conns p = []"
proof -
  have f: "(\<exists>ns b. iv_kind p = kind ns b) \<and> length (iv_conn_specs p) = 1 \<and> (\<forall>sp \<in> set (iv_conn_specs p). spec_ok net sp)
      \<and> iv_conn_matrix p = conn_matrix_init \<and> iv_conns p = []"
    if parsed: "parse_flagged env flag kind tbl net = Inr p" for flag kind
  proof -
    obtain ns b specs where p: "p = mk_simple (kind ns b) specs" "length specs = 1"
        "parse_connections env tbl net = Inr specs"
      using parsed unfolding parse_flagged_def by (elim bindR_okE) auto
    show ?thesis using p(2) parse_connections_ok[OF p(3)] unfolding p(1) by (auto simp: mk_simple_def)
  qed
  have l: "iv_kind p = Loop_inv \<and> length (iv_conn_specs p) = 1 \<and> (\<forall>sp \<in> set (iv_conn_specs p). spec_ok net sp)
      \<and> iv_conn_matrix p = conn_matrix_init \<and> iv_conns p = []" if "parse_loop env tbl net = Inr p"
    using that unfolding parse_loop_def
    by (elim bindR_okE) (auto simp: mk_simple_def dest: parse_connections_ok)
  show ?thesis
    using assms f l unfolding parse_common_inv_def parse_reachability_def parse_replyreachability_def parse_waypoint_def
    by (auto split: if_splits) blast+
qed

lemma parse_correlated_ok:
  fixes cfg :: "'f toml_table"
  assumes "parse_correlated_invs env cfg net = Inr invs"
  shows "\<forall>p \<in> set invs. correlated_ok (pe_max_conns env) net p"
proof -
  obtain vs :: "'f toml list" where "foldR (parse_correlated_inv env net) vs [] = Inr invs"
    using assms by (auto simp: parse_correlated_invs_def bindR_eq_Inr_iff)
  then have "(\<forall>p \<in> set invs. correlated_ok (pe_max_conns env) net p) \<and> length invs = length ([] :: simple_inv list) + length vs"
  proof (rule foldR_all)
    fix v :: "'f toml" and ys zs
    assume "parse_correlated_inv env net v ys = Inr zs"
    then obtain type and tbl :: "'f toml_table" and p where "parse_common_inv env type tbl net = Some (Inr p)" "zs = ys @ [p]"
        "length (iv_conn_specs p) \<le> pe_max_conns env"
      unfolding parse_correlated_inv_def by (elim bindR_okE) (auto split: option.splits)
    then show "\<exists>p. zs = ys @ [p] \<and> correlated_ok (pe_max_conns env) net p"
      using parse_common_ok[of env type tbl net p] by (cases "iv_conn_specs p") (auto simp: correlated_ok_def)
  qed simp
  then show ?thesis by blast
qed

lemma parse_inv_ok:
  assumes "parse_inv d env type tbl net = Inr v" "length (iv_conn_specs v) \<le> pe_max_conns env"
  shows "inv_ok (pe_max_conns env) net v"
proof (cases "parse_common_inv env type tbl net")
  case (Some r)
  then obtain p where p: "r = Inr p" "v = standalone p"
    using assms(1) by (auto simp: parse_inv_def bindR_eq_Inr_iff)
  show ?thesis
    using parse_common_ok[OF Some[unfolded p(1)]] assms(2) unfolding p(2) by (auto simp: inv_ok_def standalone_def)
next
  case None
  have o: "iv_kind p = One_request ns \<Longrightarrow> ?thesis" if "parse_onerequest env tbl net = Inr p" "v = standalone p" for p ns
    using that assms(2) unfolding parse_onerequest_def
    by (elim bindR_okE) (auto simp: inv_ok_def mk_simple_def standalone_def dest: parse_connections_ok)
  have l: ?thesis if "parse_loadbalance d env tbl net = Inr p" "v = standalone p" for p
    using that assms(2) unfolding parse_loadbalance_def Let_def
    by (elim bindR_okE) (auto simp: inv_ok_def mk_simple_def standalone_def dest: parse_connections_ok)
  have c: ?thesis if "parse_correlated_invs env tbl net = Inr invs" "v = combined kind invs"
      "kind \<in> {Conditional, Consistency}" for invs kind
    using that parse_correlated_ok[OF that(1)] by (auto simp: inv_ok_def combined_def standalone_def mk_simple_def)
  have k: "\<exists>ns. iv_kind p = One_request ns" if "parse_onerequest env tbl net = Inr p" for p
    using that unfolding parse_onerequest_def by (elim bindR_okE) (auto simp: mk_simple_def)
  show ?thesis
    using assms(1) None o l c k by (auto simp: parse_inv_def bindR_eq_Inr_iff split: if_splits)
qed

text \<open>C16. Whatever the configuration says, an invariant the parser accepts has the shape the verifier
  relies on: one connection specification for the kinds that need exactly one, at least one and at
  most as many as the state vector has room for otherwise; a conditional or consistency invariant
  has none of its own and correlates only plain invariants about one connection each. The source
  nodes are nodes of the network, the destination is a valid network.\<close>

theorem parsed_invariants_well_formed:
  fixes cfg :: "'f toml_table"
  assumes "parse_invariants d env cfg net = Inr invs"
  shows "\<forall>v \<in> set invs. inv_ok (pe_max_conns env) net v"
proof -
  have "foldR (parse_inv_entry d env net) (elements ''invariants'' cfg) [] = Inr invs"
    using assms by (simp add: parse_invariants_def)
  then have "(\<forall>v \<in> set invs. inv_ok (pe_max_conns env) net v)
      \<and> length invs = length ([] :: invariant list) + length (elements ''invariants'' cfg)"
  proof (rule foldR_all)
    fix v :: "'f toml" and ys zs
    assume "parse_inv_entry d env net v ys = Inr zs"
    then obtain type and tbl :: "'f toml_table" and w where "parse_inv d env type tbl net = Inr w" "zs = ys @ [w]"
        "length (iv_conn_specs w) \<le> pe_max_conns env"
      unfolding parse_inv_entry_def by (elim bindR_okE) auto
    then show "\<exists>w. zs = ys @ [w] \<and> inv_ok (pe_max_conns env) net w" using parse_inv_ok by blast
  qed simp
  then show ?thesis by blast
qed

definition sample_parse_env :: parse_env where
  "sample_parse_env = \<lparr>pe_adr = Suc, pe_regex = (\<lambda>re. Some (\<lambda>name. name = re)), pe_order = id,
     pe_pull = (\<lambda>_ _. ([], [])), pe_file = (\<lambda>_ _. None), pe_max_conns = 4\<rparr>"

definition sample_doubles :: "int double_ops" where
  "sample_doubles = \<lparr>d_of_int = id, d_add = (+), d_sub = (-), d_mul = (*), d_div = (div), d_gt = (>)\<rparr>"

definition sample_toml_conns :: "int toml" where
  "sample_toml_conns = Toml_array [Toml_table [(''protocol'', Toml_string ''TCP''),
     (''src_node'', Toml_string ''h''), (''dst_ip'', Toml_string ''10.0.0.2''), (''dst_port'', Toml_int 80)]]"

definition sample_toml_invs :: "int toml_table" where
  "sample_toml_invs = [(''invariants'', Toml_array [
     Toml_table [(''type'', Toml_string ''reachability''), (''target_node'', Toml_string ''s''),
       (''reachable'', Toml_bool True), (''connections'', sample_toml_conns)],
     Toml_table [(''type'', Toml_string ''conditional''), (''correlated_invariants'', Toml_array [
       Toml_table [(''type'', Toml_string ''loop''), (''connections'', sample_toml_conns)]])]])]"

theorem parsed_invariants_well_formed_witness:
  "\<exists>v w. parse_invariants sample_doubles sample_parse_env sample_toml_invs
      (network_init\<lparr>net_nodes := [(''h'', 1), (''s'', 2)]\<rparr>) = Inr [v, w]
    \<and> inv_ok 4 (network_init\<lparr>net_nodes := [(''h'', 1), (''s'', 2)]\<rparr>) v
    \<and> inv_ok 4 (network_init\<lparr>net_nodes := [(''h'', 1), (''s'', 2)]\<rparr>) w"
proof -
  let ?net = "network_init\<lparr>net_nodes := [(''h'', 1), (''s'', 2)]\<rparr>"
  have "(case parse_invariants sample_doubles sample_parse_env sample_toml_invs ?net of
      Inl _ \<Rightarrow> False | Inr invs \<Rightarrow> length invs = 2)"
    by code_simp
  then obtain invs where i: "parse_invariants sample_doubles sample_parse_env sample_toml_invs ?net = Inr invs"
      "length invs = 2"
    by (auto split: sum.splits)
  then obtain v w where "invs = [v, w]" by (auto simp: length_Suc_conv numeral_2_eq_2)
  moreover have "pe_max_conns sample_parse_env = 4" by (simp add: sample_parse_env_def)
  ultimately show ?thesis using i(1) parsed_invariants_well_formed[OF i(1)] by auto
qed

text \<open>The search for addresses takes part of a prefix for an address: on a prefix whose last
  number has several digits the expression gives up the last digit to avoid the slash, so that a
  configuration that names only 10.0.0.24/29 makes the verifier split its classes at the unrelated
  address 10.0.0.2.\<close>

theorem prefix_taken_for_address:
  "matches_of ip_addr_regex ''10.0.0.24/29'' = [''10.0.0.2'']
    \<and> parse_config_string ''10.0.0.24/29'' no_conf = Inr (no_conf\<lparr>
      ec_ip_prefixes := [\<lparr>ip_value = 0x0A000018, ip_prefix = 29\<rparr>], ec_ip_addrs := [0x0A000002]\<rparr>)"
proof -
  have m: "matches_of ip_addr_regex ''10.0.0.24/29'' = [''10.0.0.2'']"
      "matches_of ip_prefix_regex ''10.0.0.24/29'' = [''10.0.0.24/29'']"
      "matches_of port_regex ''10.0.0.24/29'' = []"
    by code_simp+
  have "network_of_string ''10.0.0.24/29'' = Inr \<lparr>ip_value = 0x0A000018, ip_prefix = 29\<rparr>"
      "ipv4_of_string ''10.0.0.2'' = Inr 0x0A000002"
    by code_simp+
  then show ?thesis unfolding parse_config_string_def m
    by (simp add: no_conf_def set_insert_def lower_bound_def oset_insert_def)
qed

end
