(* ===== verification/UniqueStorage.thy ===== *)
theory UniqueStorage
  imports StateModel
begin

text \<open>
  \<open>UniqueStorage\<close> (\<open>src/unique-storage.cpp\<close>): the objects the state vector points to are kept
  once each, in unordered sets keyed by the objects' hash and equality. An object store is the
  heap of one class with the set of its stored pointers. \<open>std::hash\<close> and the byte hash of
  \<open>xxhash\<close> are arguments. The contract of interning, pointers are equal exactly when the objects
  are, needs that equal objects hash equally; it is proved for every stored class whose hash has
  this property, and refuted for the one whose hash follows the iteration order of an unordered
  map.
\<close>

unbundle bit_operations_syntax

section \<open>Stores\<close>

record 'a obj_store =
  st_objs :: "nat \<rightharpoonup> 'a"
  st_set :: "nat list"

definition empty_store :: "'a obj_store" where
  "empty_store = \<lparr>st_objs = Map.empty, st_set = []\<rparr>"

definition val_eq :: "('a \<Rightarrow> 'a \<Rightarrow> bool) \<Rightarrow> 'a obj_store \<Rightarrow> nat \<Rightarrow> nat \<Rightarrow> bool" where
  "val_eq eqv s p q \<longleftrightarrow>
     (case (st_objs s p, st_objs s q) of (Some a, Some b) \<Rightarrow> eqv a b | _ \<Rightarrow> False)"

definition val_hash_eq :: "('a \<Rightarrow> 64 word) \<Rightarrow> 'a obj_store \<Rightarrow> nat \<Rightarrow> nat \<Rightarrow> bool" where
  "val_hash_eq hf s p q \<longleftrightarrow> map_option hf (st_objs s p) = map_option hf (st_objs s q)"

text \<open>\<open>store_*\<close>: insert the pointer; if an equal object is already stored, delete the new one and
  return the old pointer. An element of the unordered set is found when both its hash and its
  value agree with the key's.\<close>

definition store ::
    "('a \<Rightarrow> 64 word) \<Rightarrow> ('a \<Rightarrow> 'a \<Rightarrow> bool) \<Rightarrow> nat \<Rightarrow> 'a obj_store \<Rightarrow> nat \<times> 'a obj_store" where
  "store hf eqv p s =
     (case find (\<lambda>q. val_hash_eq hf s q p \<and> val_eq eqv s q p) (st_set s) of
        None \<Rightarrow> (p, s\<lparr>st_set := p # st_set s\<rparr>)
      | Some q \<Rightarrow> if p \<noteq> q then (q, s\<lparr>st_objs := (st_objs s)(p := None)\<rparr>) else (p, s))"

text \<open>\<open>new T(...)\<close> followed by the \<open>store_*\<close> function, as the setters of \<open>Model\<close> do.\<close>

definition new_obj :: "(nat set \<Rightarrow> nat) \<Rightarrow> 'a \<Rightarrow> 'a obj_store \<Rightarrow> nat \<times> 'a obj_store" where
  "new_obj alloc v s =
     (let p = alloc (dom (st_objs s)) in (p, s\<lparr>st_objs := (st_objs s)(p \<mapsto> v)\<rparr>))"

definition intern ::
    "(nat set \<Rightarrow> nat) \<Rightarrow> ('a \<Rightarrow> 64 word) \<Rightarrow> ('a \<Rightarrow> 'a \<Rightarrow> bool) \<Rightarrow> 'a \<Rightarrow> 'a obj_store
     \<Rightarrow> nat \<times> 'a obj_store" where
  "intern alloc hf eqv v s = (let (p, s1) = new_obj alloc v s in store hf eqv p s1)"

definition storage_reset :: "'a obj_store \<Rightarrow> 'a obj_store" where
  "storage_reset s = \<lparr>st_objs = st_objs s |` (- set (st_set s)), st_set = []\<rparr>"

section \<open>The hashes and equalities of the stored classes\<close>

record std_hash =
  h_ptr :: "nat \<Rightarrow> 64 word"
  h_ip :: "ipv4 \<Rightarrow> 64 word"
  h_u16 :: "16 word \<Rightarrow> 64 word"
  h_u32 :: "32 word \<Rightarrow> 64 word"
  h_int :: "int \<Rightarrow> 64 word"
  h_bool :: "bool \<Rightarrow> 64 word"
  h_payload :: "payload option \<Rightarrow> 64 word"   \<comment> \<open>of the pointer to an interned payload\<close>
  h_nexthops :: "fib_ipnh list \<Rightarrow> 64 word"   \<comment> \<open>of the bytes of a vector\<close>
  h_sizes :: "nat list \<Rightarrow> 64 word"
  h_ptrs :: "nat list \<Rightarrow> 64 word"

definition hash_combine :: "64 word \<Rightarrow> 64 word \<Rightarrow> 64 word" where
  "hash_combine value seed =
     seed XOR (value + 0x9e3779b9 + push_bit 6 seed + drop_bit 2 seed)"

definition packet_hash :: "std_hash \<Rightarrow> packet \<Rightarrow> 64 word" where
  "packet_hash H p = fold hash_combine
     [h_ptr H (pk_intf p), h_ip H (pk_src_ip p), h_ip H (pk_dst_ip p), h_u16 H (pk_src_port p),
      h_u16 H (pk_dst_port p), h_u32 H (pk_seq p), h_u32 H (pk_ack p), h_u16 H (pk_proto_state p),
      h_payload H (pk_payload p)] 0"

definition cand_hash :: "std_hash \<Rightarrow> candidates \<Rightarrow> 64 word" where
  "cand_hash H c = h_nexthops H c"

definition cand_eq :: "candidates \<Rightarrow> candidates \<Rightarrow> bool" where
  "cand_eq a b \<longleftrightarrow> (if length a \<noteq> length b then False else a = b)"

definition ipnh_hash :: "std_hash \<Rightarrow> fib_ipnh \<Rightarrow> 64 word" where
  "ipnh_hash H nh = fold hash_combine
     [h_ptr H (l3_node nh), h_ptr H (l3_intf nh), h_ptr H (l2_node nh), h_ptr H (l2_intf nh)] 0"

definition fib_hash :: "std_hash \<Rightarrow> fib \<Rightarrow> 64 word" where
  "fib_hash H f = fold (\<lambda>(node, nhs) v.
     fold (\<lambda>nh v. hash_combine (ipnh_hash H nh) v) nhs (hash_combine (h_ptr H node) v)) f 0"

definition fib_eq :: "fib \<Rightarrow> fib \<Rightarrow> bool" where
  "fib_eq a b \<longleftrightarrow> list_all2 (\<lambda>(n, s) (n', s'). n = n' \<and> list_all2 ipnh_eq s s') a b"

definition choices_hash :: "std_hash \<Rightarrow> choices \<Rightarrow> 64 word" where
  "choices_hash H tbl = fold (\<lambda>((ec, node), nh) v.
     hash_combine (ipnh_hash H nh) (hash_combine (h_ptr H node) (hash_combine (h_ptr H ec) v)))
     tbl 0"

definition choices_eq :: "choices \<Rightarrow> choices \<Rightarrow> bool" where
  "choices_eq a b \<longleftrightarrow> list_all2 (\<lambda>(k, nh) (k', nh'). k = k' \<and> ipnh_eq nh nh') a b"

text \<open>\<open>NodePacketHistory\<close>: the pointers to its last packet and its past.\<close>

definition nph_hash :: "std_hash \<Rightarrow> nat \<times> nat \<Rightarrow> 64 word" where
  "nph_hash H h = fold hash_combine [h_ptr H (fst h), h_ptr H (snd h)] 0"

definition nph_eq :: "nat \<times> nat \<Rightarrow> nat \<times> nat \<Rightarrow> bool" where
  "nph_eq a b \<longleftrightarrow> fst a = fst b \<and> snd a = snd b"

definition of_state_hash :: "std_hash \<Rightarrow> nat list \<Rightarrow> 64 word" where
  "of_state_hash H s = h_sizes H s"

definition of_state_eq :: "nat list \<Rightarrow> nat list \<Rightarrow> bool" where
  "of_state_eq a b \<longleftrightarrow> a = b"

definition injection_result_hash :: "std_hash \<Rightarrow> injection_result \<Rightarrow> 64 word" where
  "injection_result_hash H r =
     hash_combine (h_bool H (explicit_drop r))
       (fold (\<lambda>p v. hash_combine (packet_hash H p) v) (recv_pkts r) 0)"

definition injection_results_hash :: "std_hash \<Rightarrow> nat list \<Rightarrow> 64 word" where
  "injection_results_hash H rs = h_ptrs H rs"

definition injection_results_eq :: "nat list \<Rightarrow> nat list \<Rightarrow> bool" where
  "injection_results_eq a b \<longleftrightarrow> (if length a \<noteq> length b then False else a = b)"

definition visited_hops_hash :: "std_hash \<Rightarrow> visited_hops \<Rightarrow> 64 word" where
  "visited_hops_hash H vh =
     (let add = (\<lambda>(ec, port, node) v.
        hash_combine (h_ptr H node) (hash_combine (h_u16 H port) (hash_combine (h_ptr H ec) v)))
      in add (vh_last_hop vh) (fold add (vh_hops vh) 0))"

definition visited_hops_eq :: "visited_hops \<Rightarrow> visited_hops \<Rightarrow> bool" where
  "visited_hops_eq a b \<longleftrightarrow> vh_hops a = vh_hops b \<and> vh_last_hop a = vh_last_hop b"

text \<open>Two classes over unordered maps: the hash follows the iteration order, the equality does
  not.\<close>

definition reach_counts_hash :: "std_hash \<Rightarrow> reach_counts \<Rightarrow> 64 word" where
  "reach_counts_hash H rc = fold (\<lambda>(node, n) v.
     hash_combine (h_int H n) (hash_combine (h_ptr H node) v)) rc 0"

definition reach_counts_eq :: "reach_counts \<Rightarrow> reach_counts \<Rightarrow> bool" where
  "reach_counts_eq a b \<longleftrightarrow> length a = length b \<and> list_all (\<lambda>(k, v). map_of b k = Some v) a"

definition pkt_hist_hash :: "std_hash \<Rightarrow> (nat \<times> nat) list \<Rightarrow> 64 word" where
  "pkt_hist_hash H tbl = fold (\<lambda>(node, nph) v.
     hash_combine (h_ptr H nph) (hash_combine (h_ptr H node) v)) tbl 0"

definition pkt_hist_eq :: "(nat \<times> nat) list \<Rightarrow> (nat \<times> nat) list \<Rightarrow> bool" where
  "pkt_hist_eq a b \<longleftrightarrow> length a = length b \<and> list_all (\<lambda>(k, v). map_of b k = Some v) a"

section \<open>The store functions\<close>

definition store_candidates where "store_candidates H = store (cand_hash H) cand_eq"
definition store_fib where "store_fib H = store (fib_hash H) fib_eq"
definition store_choices where "store_choices H = store (choices_hash H) choices_eq"
definition store_pkt where "store_pkt H = store (packet_hash H) packet_eq"
definition store_node_pkt_hist where "store_node_pkt_hist H = store (nph_hash H) nph_eq"
definition store_pkt_hist where "store_pkt_hist H = store (pkt_hist_hash H) pkt_hist_eq"
definition store_of_update_state where
  "store_of_update_state H = store (of_state_hash H) of_state_eq"
definition store_reach_counts where
  "store_reach_counts H = store (reach_counts_hash H) reach_counts_eq"
definition store_injection_result where
  "store_injection_result H = store (injection_result_hash H) injection_result_eq"
definition store_injection_results where
  "store_injection_results H = store (injection_results_hash H) injection_results_eq"
definition store_visited_hops where
  "store_visited_hops H = store (visited_hops_hash H) visited_hops_eq"

section \<open>The contract of interning\<close>

definition store_ok :: "('a \<Rightarrow> 'a \<Rightarrow> bool) \<Rightarrow> 'a obj_store \<Rightarrow> bool" where
  "store_ok eqv s \<longleftrightarrow> set (st_set s) \<subseteq> dom (st_objs s)
     \<and> (\<forall>p \<in> set (st_set s). \<forall>q \<in> set (st_set s). val_eq eqv s p q \<longrightarrow> p = q)"

text \<open>\<open>holds s p v\<close>: the stored pointer \<open>p\<close> points to an object equal to \<open>v\<close>.\<close>

definition holds :: "('a \<Rightarrow> 'a \<Rightarrow> bool) \<Rightarrow> 'a obj_store \<Rightarrow> nat \<Rightarrow> 'a \<Rightarrow> bool" where
  "holds eqv s p v \<longleftrightarrow> p \<in> set (st_set s) \<and> (\<exists>w. st_objs s p = Some w \<and> eqv w v)"

text \<open>\<open>extends s s'\<close>: stored pointers stay stored and keep their objects.\<close>

definition extends :: "'a obj_store \<Rightarrow> 'a obj_store \<Rightarrow> bool" where
  "extends s s' \<longleftrightarrow>
     (\<forall>p \<in> set (st_set s). p \<in> set (st_set s') \<and> st_objs s' p = st_objs s p)"

fun intern_all ::
    "(nat set \<Rightarrow> nat) \<Rightarrow> ('a \<Rightarrow> 64 word) \<Rightarrow> ('a \<Rightarrow> 'a \<Rightarrow> bool) \<Rightarrow> 'a list \<Rightarrow> 'a obj_store
     \<Rightarrow> nat list \<times> 'a obj_store" where
  "intern_all alloc hf eqv [] s = ([], s)"
| "intern_all alloc hf eqv (v # vs) s =
     (let (p, s1) = intern alloc hf eqv v s; (ps, s2) = intern_all alloc hf eqv vs s1
      in (p # ps, s2))"

lemma holds_extends: "holds eqv s p v \<Longrightarrow> extends s s' \<Longrightarrow> holds eqv s' p v"
  by (auto simp: holds_def extends_def)

locale interning =
  fixes hf :: "'a \<Rightarrow> 64 word" and eqv :: "'a \<Rightarrow> 'a \<Rightarrow> bool"
  assumes eq_refl: "eqv a a"
    and eq_sym: "eqv a b \<Longrightarrow> eqv b a"
    and eq_trans: "eqv a b \<Longrightarrow> eqv b c \<Longrightarrow> eqv a c"
    and hash_cong: "eqv a b \<Longrightarrow> hf a = hf b"
begin

lemma store_spec:
  assumes ok: "store_ok eqv s" and p: "st_objs s p = Some v" "p \<notin> set (st_set s)"
    and st: "store hf eqv p s = (q, s')"
  shows "store_ok eqv s'" "holds eqv s' q v" "extends s s'"
proof -
  let ?P = "\<lambda>q. val_hash_eq hf s q p \<and> val_eq eqv s q p"
  have P: "?P q \<longleftrightarrow> (\<exists>w. st_objs s q = Some w \<and> eqv w v)" for q
    using p(1) hash_cong by (auto simp: val_hash_eq_def val_eq_def split: option.splits)
  have "store_ok eqv s' \<and> holds eqv s' q v \<and> extends s s'"
  proof (cases "find ?P (st_set s)")
    case None
    then have none: "\<And>q. q \<in> set (st_set s) \<Longrightarrow> \<not> ?P q" by (auto simp: find_None_iff)
    have s': "q = p" "s' = s\<lparr>st_set := p # st_set s\<rparr>" using st None by (auto simp: store_def)
    have ve: "val_eq eqv s' = val_eq eqv s" by (simp add: s' val_eq_def fun_eq_iff)
    have "\<not> val_eq eqv s r p \<and> \<not> val_eq eqv s p r" if "r \<in> set (st_set s)" for r
      using none[OF that] p(1) eq_sym unfolding P by (auto simp: val_eq_def split: option.splits)
    then have "store_ok eqv s'"
      using ok p unfolding store_ok_def ve by (auto simp: s')
    then show ?thesis
      using p(1) eq_refl by (auto simp: holds_def extends_def s')
  next
    case (Some r)
    then have r: "r \<in> set (st_set s)" "?P r" by (auto simp: find_Some_iff)
    then have rp: "p \<noteq> r" using p(2) by auto
    have s': "q = r" "s' = s\<lparr>st_objs := (st_objs s)(p := None)\<rparr>"
      using st Some rp by (auto simp: store_def)
    have keep: "x \<in> set (st_set s) \<Longrightarrow> st_objs s' x = st_objs s x" for x
      using p(2) by (auto simp: s')
    have "val_eq eqv s' x y = val_eq eqv s x y"
      if "x \<in> set (st_set s)" "y \<in> set (st_set s)" for x y
      using keep[OF that(1)] keep[OF that(2)] by (simp add: val_eq_def)
    then have "store_ok eqv s'"
      using ok p(2) unfolding store_ok_def by (auto simp: s')
    moreover have "holds eqv s' q v"
      using r keep[OF r(1)] unfolding P by (simp add: holds_def s')
    moreover have "extends s s'" using keep by (simp add: extends_def s')
    ultimately show ?thesis by blast
  qed
  then show "store_ok eqv s'" "holds eqv s' q v" "extends s s'" by auto
qed

lemma intern_spec:
  assumes ok: "store_ok eqv s" and al: "\<And>A. finite A \<Longrightarrow> alloc A \<notin> A"
    and fin: "finite (dom (st_objs s))" and st: "intern alloc hf eqv v s = (q, s')"
  shows "store_ok eqv s' \<and> holds eqv s' q v \<and> extends s s' \<and> finite (dom (st_objs s'))"
proof -
  define p where "p = alloc (dom (st_objs s))"
  define s1 where "s1 = s\<lparr>st_objs := (st_objs s)(p \<mapsto> v)\<rparr>"
  have fresh: "p \<notin> dom (st_objs s)" using al[OF fin] by (simp add: p_def)
  then have np: "p \<notin> set (st_set s)" using ok by (auto simp: store_ok_def)
  have st1: "store hf eqv p s1 = (q, s')"
    using st by (simp add: intern_def new_obj_def p_def s1_def Let_def)
  have "val_eq eqv s1 x y = val_eq eqv s x y"
    if "x \<in> set (st_set s)" "y \<in> set (st_set s)" for x y
    using np that by (auto simp: val_eq_def s1_def)
  then have "store_ok eqv s1" using ok unfolding store_ok_def by (auto simp: s1_def)
  note sp = store_spec[OF this _ _ st1, of v]
  have "extends s s1" using np by (auto simp: extends_def s1_def)
  moreover have "finite (dom (st_objs s'))"
    using st1 fin by (auto simp: store_def s1_def split: option.splits if_splits)
  moreover have "store_ok eqv s'" "holds eqv s' q v" "extends s1 s'"
    using sp np by (simp_all add: s1_def)
  ultimately show ?thesis by (simp add: extends_def)
qed

lemma intern_all_spec:
  assumes "store_ok eqv s" and "\<And>A. finite A \<Longrightarrow> alloc A \<notin> A" and "finite (dom (st_objs s))"
    and "intern_all alloc hf eqv vs s = (ps, s')"
  shows "store_ok eqv s' \<and> list_all2 (holds eqv s') ps vs \<and> extends s s'"
  using assms(1,3,4)
proof (induction vs arbitrary: s ps)
  case Nil
  then show ?case by (simp add: extends_def)
next
  case (Cons v vs)
  obtain p s1 where i: "intern alloc hf eqv v s = (p, s1)" by force
  obtain qs s2 where r: "intern_all alloc hf eqv vs s1 = (qs, s2)" by force
  have e: "ps = p # qs" "s' = s2" using Cons.prems(3) by (auto simp: i r)
  have a: "store_ok eqv s1" "holds eqv s1 p v" "extends s s1" "finite (dom (st_objs s1))"
    using intern_spec[OF Cons.prems(1) assms(2) Cons.prems(2) i] by simp_all
  have b: "store_ok eqv s'" "list_all2 (holds eqv s') qs vs" "extends s1 s'"
    using Cons.IH[OF a(1,4) r[folded e(2)]] by simp_all
  have "holds eqv s' p v" by (rule holds_extends[OF a(2) b(3)])
  moreover have "extends s s'" using a(3) b(3) by (simp add: extends_def)
  ultimately show ?case using b e(1) by simp
qed

lemma holds_same_iff:
  assumes "store_ok eqv s" and "holds eqv s p v" and "holds eqv s q w"
  shows "p = q \<longleftrightarrow> eqv v w"
proof
  assume "p = q"
  then obtain x where "eqv x v" "eqv x w" using assms(2,3) by (auto simp: holds_def)
  then show "eqv v w" using eq_sym eq_trans by blast
next
  assume vw: "eqv v w"
  obtain a b where a: "st_objs s p = Some a" "eqv a v" and b: "st_objs s q = Some b" "eqv b w"
    using assms(2,3) by (auto simp: holds_def)
  have "eqv a b" using a(2) b(2) vw eq_sym eq_trans by blast
  then have "val_eq eqv s p q" by (simp add: val_eq_def a b)
  then show "p = q" using assms by (auto simp: store_ok_def holds_def)
qed

lemma interned_pointers:
  assumes "\<And>A. finite A \<Longrightarrow> alloc A \<notin> A"
    and "intern_all alloc hf eqv vs empty_store = (ps, s')" and "i < length vs" and "j < length vs"
  shows "(ps ! i = ps ! j \<longleftrightarrow> eqv (vs ! i) (vs ! j)) \<and>
    (\<exists>w. st_objs s' (ps ! i) = Some w \<and> eqv w (vs ! i))"
proof -
  have "store_ok eqv empty_store" by (simp add: store_ok_def empty_store_def)
  note sp = intern_all_spec[OF this assms(1) _ assms(2)]
  then have ok: "store_ok eqv s'" and l: "list_all2 (holds eqv s') ps vs"
    by (auto simp: empty_store_def)
  have i: "holds eqv s' (ps ! i) (vs ! i)" and j: "holds eqv s' (ps ! j) (vs ! j)"
    using l assms(3,4) by (auto simp: list_all2_conv_all_nth)
  show ?thesis using holds_same_iff[OF ok i j] i by (auto simp: holds_def)
qed

end

lemma ipnh_eq_iff [simp]: "ipnh_eq = (=)"
  by (auto simp: fun_eq_iff ipnh_eq_def fib_ipnh.expand)

lemma pair_eq_fun: "(\<lambda>(n :: 'a, s :: 'b) (n', s'). n = n' \<and> s = s') = (=)"
  by (auto simp: fun_eq_iff)

lemma fib_eq_iff: "fib_eq = (=)"
proof (intro ext)
  fix a b show "fib_eq a b = (a = b)"
    unfolding fib_eq_def ipnh_eq_iff list_all2_eq[symmetric] pair_eq_fun by simp
qed

lemma choices_eq_iff: "choices_eq = (=)"
proof (intro ext)
  fix a b show "choices_eq a b = (a = b)"
    unfolding choices_eq_def ipnh_eq_iff pair_eq_fun by (simp flip: list_all2_eq)
qed

lemma packet_eq_hash: "packet_eq a b \<Longrightarrow> packet_hash H a = packet_hash H b"
  by (simp add: packet_eq_def packet_hash_def)

lemma packets_eq_hash:
  "list_all2 packet_eq ps qs \<Longrightarrow>
   fold (\<lambda>p v. hash_combine (packet_hash H p) v) ps v = fold (\<lambda>p v. hash_combine (packet_hash H p) v) qs v"
  by (induction ps qs arbitrary: v rule: list_all2_induct) (simp_all add: packet_eq_hash)

section \<open>The stored classes satisfy the contract\<close>

interpretation cand_st: interning "cand_hash H" cand_eq for H
  by unfold_locales (auto simp: cand_eq_def split: if_splits)

interpretation fib_st: interning "fib_hash H" fib_eq for H
  by unfold_locales (auto simp: fib_eq_iff)

interpretation choices_st: interning "choices_hash H" choices_eq for H
  by unfold_locales (auto simp: choices_eq_iff)

interpretation pkt_st: interning "packet_hash H" packet_eq for H
  by unfold_locales (auto simp: packet_eq_hash, auto simp: packet_eq_def)

interpretation nph_st: interning "nph_hash H" nph_eq for H
  by unfold_locales (auto simp: nph_eq_def nph_hash_def)

interpretation of_st: interning "of_state_hash H" of_state_eq for H
  by unfold_locales (auto simp: of_state_eq_def)

interpretation inj_results_st: interning "injection_results_hash H" injection_results_eq for H
  by unfold_locales (auto simp: injection_results_eq_def split: if_splits)

interpretation visited_st: interning "visited_hops_hash H" visited_hops_eq for H
  by unfold_locales (auto simp: visited_hops_eq_def visited_hops_hash_def)

interpretation inj_result_st: interning "injection_result_hash H" injection_result_eq for H
proof unfold_locales
  fix a b c :: injection_result
  show "injection_result_eq a a"
    by (simp add: injection_result_eq_def packet_eq_def list_all2_refl)
  show "injection_result_eq a b \<Longrightarrow> injection_result_eq b a"
    by (auto simp: injection_result_eq_def list_all2_conv_all_nth intro: pkt_st.eq_sym)
  show "injection_result_eq a b \<Longrightarrow> injection_result_eq b c \<Longrightarrow> injection_result_eq a c"
    unfolding injection_result_eq_def
    using list_all2_trans[of packet_eq packet_eq packet_eq] pkt_st.eq_trans by blast
  show "injection_result_eq a b \<Longrightarrow> injection_result_hash H a = injection_result_hash H b"
    using packets_eq_hash[of "recv_pkts a" "recv_pkts b" H 0]
    by (simp add: injection_result_eq_def injection_result_hash_def)
qed

text \<open>C39. Interning is sound for the packets sent to the emulations: storing any sequence of
  packets, two of the returned pointers are equal exactly when the packets agree on every field
  that identifies them, and each pointer keeps pointing to such a packet.\<close>

theorem packet_pointers:
  assumes "\<And>A. finite A \<Longrightarrow> alloc A \<notin> A"
    and "intern_all alloc (packet_hash H) packet_eq pkts empty_store = (ps, s)"
    and "i < length pkts" and "j < length pkts"
  shows "(ps ! i = ps ! j \<longleftrightarrow> packet_eq (pkts ! i) (pkts ! j)) \<and>
    (\<exists>p. st_objs s (ps ! i) = Some p \<and> packet_eq p (pkts ! i))"
  by (rule pkt_st.interned_pointers[OF assms])

definition sample_alloc :: "nat set \<Rightarrow> nat" where
  "sample_alloc A = Suc (Max (insert 0 A))"

lemma sample_alloc_fresh: "finite A \<Longrightarrow> sample_alloc A \<notin> A"
proof
  assume "finite A" "sample_alloc A \<in> A"
  then have "Suc (Max (insert 0 A)) \<le> Max (insert 0 A)" by (simp add: sample_alloc_def)
  then show False by simp
qed

definition sample_hash :: std_hash where
  "sample_hash = \<lparr>h_ptr = of_nat, h_ip = ucast, h_u16 = ucast, h_u32 = ucast, h_int = of_int,
     h_bool = (\<lambda>b. if b then 1 else 0), h_payload = (\<lambda>_. 0), h_nexthops = (\<lambda>_. 0),
     h_sizes = (\<lambda>_. 0), h_ptrs = (\<lambda>_. 0)\<rparr>"

theorem packet_pointers_witness:
  "let ps = fst (intern_all sample_alloc (packet_hash sample_hash) packet_eq
        [packet_init, packet_init\<lparr>pk_conn := 3\<rparr>, packet_init\<lparr>pk_seq := 1\<rparr>] empty_store)
   in ps ! 0 = ps ! 1 \<and> ps ! 0 \<noteq> ps ! 2"
proof -
  let ?vs = "[packet_init, packet_init\<lparr>pk_conn := 3\<rparr>, packet_init\<lparr>pk_seq := 1\<rparr>]"
  obtain ps s where r: "intern_all sample_alloc (packet_hash sample_hash) packet_eq ?vs empty_store
      = (ps, s)" by force
  note pp = packet_pointers[OF sample_alloc_fresh r]
  have "ps ! 0 = ps ! 1" using pp[of 0 1] by (simp add: packet_eq_def)
  moreover have "ps ! 0 \<noteq> ps ! 2" using pp[of 0 2] by (simp add: packet_eq_def packet_init_def)
  ultimately show ?thesis unfolding r by simp
qed

section \<open>A class that does not\<close>

text \<open>The hash of \<open>ReachCounts\<close> follows the iteration order of an unordered map, its
  equality does not: with the identity hashes of the standard library two equal counts in
  different orders hash differently, and storing both gives two pointers.\<close>

theorem reach_counts_stored_twice:
  "reach_counts_eq [(1, 1), (2, 1)] [(2, 1), (1, 1)] \<and>
   reach_counts_hash sample_hash [(1, 1), (2, 1)] \<noteq> reach_counts_hash sample_hash [(2, 1), (1, 1)] \<and>
   (let s = \<lparr>st_objs = [1 \<mapsto> [(1, 1), (2, 1)], 2 \<mapsto> [(2, 1), (1, 1)]], st_set = []\<rparr>;
        (p, s1) = store_reach_counts sample_hash 1 s; (q, s2) = store_reach_counts sample_hash 2 s1
    in p \<noteq> q)"
proof -
  have ne: "reach_counts_hash sample_hash [(1, 1), (2, 1)]
      \<noteq> reach_counts_hash sample_hash [(2, 1), (1, 1)]"
    by (simp add: reach_counts_hash_def sample_hash_def hash_combine_def)
  then show ?thesis
    by (auto simp: reach_counts_eq_def store_reach_counts_def store_def val_hash_eq_def)
qed

end
