(* ===== verification/Emulation.thy ===== *)
theory Emulation
  imports UniqueStorage Frames Forwarding "HOL-Library.Signed_Division"
begin

text \<open>
  The emulated middleboxes: one emulation (\<open>src/emulation.cpp\<close>) with the offsets that hide the
  random sequence numbers and ports of a real network stack, the packets its two listener threads
  deliver while an injection waits for them, and its packet history; the pool of emulations
  (\<open>src/emulationmgr.cpp\<close>); the operations of a middlebox on it (\<open>src/middlebox.cpp\<close>), which are
  the \<open>emu_ops\<close> of the forwarding process; and the drop timeout (\<open>src/droptimeout.cpp\<close>).
  The container behind an emulation is the parameter \<open>driver_ops\<close>: the class \<open>Driver\<close> has only
  virtual functions. What the threads read during an injection is a schedule, one list of events
  for every wait of the injecting thread on its condition variable; a wait beyond the end of the
  schedule times out. Delays and statistics are left out.
\<close>

section \<open>The drop timeout\<close>

text \<open>Latencies are microseconds; a division of durations truncates towards zero.\<close>

record drop_timeout =
  lat_avg :: int
  lat_mdev :: int
  dt_timeout :: int
  has_initial_estimate :: bool
  dt_nprocs :: int
  mdev_scalar :: int

record 'f float_ops =
  f_of_int :: "int \<Rightarrow> 'f"
  f_mul :: "'f \<Rightarrow> 'f \<Rightarrow> 'f"
  f_div :: "'f \<Rightarrow> 'f \<Rightarrow> 'f"
  f_sqrt :: "'f \<Rightarrow> 'f"
  f_ceil :: "'f \<Rightarrow> 'f"
  f_max :: "'f \<Rightarrow> 'f \<Rightarrow> 'f"
  f_to_int :: "'f \<Rightarrow> int"

definition dt_reset :: drop_timeout where
  "dt_reset = \<lparr>lat_avg = 0, lat_mdev = 0, dt_timeout = 0, has_initial_estimate = False,
     dt_nprocs = 0, mdev_scalar = 0\<rparr>"

definition duration_div :: "int \<Rightarrow> nat \<Rightarrow> int result" where
  "duration_div a n = (if n = 0 then Inl Undefined_behaviour else Inr (a sdiv int n))"

definition dt_init :: "int list \<Rightarrow> drop_timeout \<Rightarrow> drop_timeout result" where
  "dt_init latencies dt =
     (if has_initial_estimate dt then Inr dt
      else
        bindR (duration_div (fold (\<lambda>lat avg. avg + lat) latencies 0) (length latencies)) (\<lambda>avg.
        bindR (duration_div (fold (\<lambda>lat mdev. mdev + \<bar>lat - avg\<bar>) latencies 0) (length latencies)) (\<lambda>mdev.
        Inr (dt\<lparr>lat_avg := avg, lat_mdev := mdev, has_initial_estimate := True\<rparr>))))"

definition adjust_latency_estimate_by_nprocs ::
    "'f float_ops \<Rightarrow> int \<Rightarrow> int \<Rightarrow> drop_timeout \<Rightarrow> drop_timeout" where
  "adjust_latency_estimate_by_nprocs f total_cores nprocs dt =
     (let load = f_div f (f_of_int f nprocs) (f_of_int f total_cores);
          scalar = f_to_int f (f_max f (f_of_int f 5)
            (f_ceil f (f_mul f (f_mul f (f_sqrt f (f_of_int f nprocs)) (f_of_int f 2)) load))) in
      dt\<lparr>dt_nprocs := nprocs, mdev_scalar := scalar, dt_timeout := lat_avg dt + lat_mdev dt * scalar\<rparr>)"

definition update_timeout :: "int \<Rightarrow> drop_timeout \<Rightarrow> drop_timeout" where
  "update_timeout latency dt =
     (let err = latency - lat_avg dt;
          avg = lat_avg dt + err sdiv 5;
          mdev = lat_mdev dt + (\<bar>err\<bar> - lat_mdev dt) sdiv 5 in
      dt\<lparr>lat_avg := avg, lat_mdev := mdev, dt_timeout := avg + mdev * mdev_scalar dt\<rparr>)"

section \<open>An emulation\<close>

type_synonym emu_pkt_key = "ipv4 \<times> 16 word"

datatype emu_event =
    Read "packet list"   \<comment> \<open>the listener of packets returns from \<open>read_packets\<close>\<close>
  | Drop "64 word"       \<comment> \<open>the listener of drops returns from \<open>get_drop_ts\<close>\<close>

text \<open>What happens during one injection: the events of each wait, those between the last wait and
  the end of the threads, and the measured latency of the first response.\<close>

record injection =
  io_waits :: "emu_event list list"
  io_late :: "emu_event list"
  io_latency :: int

record 'd driver_ops =
  drv_init :: "nat \<Rightarrow> 'd"
  drv_reset :: "'d \<Rightarrow> 'd"
  drv_pause :: "'d \<Rightarrow> 'd"
  drv_unpause :: "'d \<Rightarrow> 'd"
  drv_inject :: "packet \<Rightarrow> 'd \<Rightarrow> injection \<times> 'd"

record 'd emulation =
  em_mb :: nat
  em_nph :: node_pkt_hist
  em_driver :: "'d option"
  seq_offsets :: "emu_pkt_key \<rightharpoonup> 32 word"
  port_offsets :: "emu_pkt_key \<rightharpoonup> 16 word"
  em_dropmon :: bool
  em_recv_pkts :: "packet list"
  pkts_hash :: "64 word set"
  drop_ts :: "64 word"

text \<open>Everything around an emulation: the driver, the nodes of the network, which middleboxes are
  Docker nodes, the standard hashes, whether drops are monitored,
  the iteration order of the reassembly, the addresses of interned packets and results, and the
  element an unordered set starts with.\<close>

record 'd emu_env =
  ee_driver :: "'d driver_ops"
  ee_nodes :: "nat \<rightharpoonup> node"
  ee_docker :: "nat \<Rightarrow> bool"
  ee_hash :: std_hash
  ee_drop :: bool
  ee_perm :: "(nat \<times> packet list) list \<Rightarrow> (nat \<times> packet list) list"
  ee_pkt_adr :: "packet \<Rightarrow> nat"
  ee_res_adr :: "injection_result \<Rightarrow> nat"
  ee_begin :: "nat list \<Rightarrow> nat"

definition new_emulation :: "'d emulation" where
  "new_emulation = \<lparr>em_mb = 0, em_nph = [], em_driver = None, seq_offsets = Map.empty,
     port_offsets = Map.empty, em_dropmon = False, em_recv_pkts = [], pkts_hash = {}, drop_ts = 0\<rparr>"

definition clear_received :: "'d emulation \<Rightarrow> 'd emulation" where
  "clear_received em = em\<lparr>em_recv_pkts := [], pkts_hash := {}\<rparr>"

definition reset_offsets :: "'d emulation \<Rightarrow> 'd emulation" where
  "reset_offsets em = em\<lparr>seq_offsets := Map.empty, port_offsets := Map.empty\<rparr>"

definition teardown :: "'d emulation \<Rightarrow> 'd emulation" where
  "teardown em = (let em = reset_offsets (em\<lparr>em_mb := 0, em_nph := [], em_driver := None\<rparr>) in
     (clear_received (em\<lparr>em_dropmon := False\<rparr>))\<lparr>drop_ts := 0\<rparr>)"

definition emu_init :: "'d emu_env \<Rightarrow> nat \<Rightarrow> 'd emulation \<Rightarrow> 'd emulation result" where
  "emu_init env mb em =
     (let em = teardown em; drv = ee_driver env in
      if ee_docker env mb then
        Inr (em\<lparr>em_mb := mb, em_driver := Some (drv_pause drv (drv_init drv mb))\<rparr>)
      else Inl (Runtime_error ''Unsupported middlebox type''))"

section \<open>The listener threads\<close>

fun remove_retransmitted ::
    "(packet \<Rightarrow> 64 word) \<Rightarrow> packet list \<Rightarrow> 64 word set \<Rightarrow> packet list \<times> 64 word set" where
  "remove_retransmitted hasher [] seen = ([], seen)"
| "remove_retransmitted hasher (p # pkts) seen =
     (if hasher p \<in> seen then remove_retransmitted hasher pkts seen
      else let (kept, seen) = remove_retransmitted hasher pkts (insert (hasher p) seen) in
        (p # kept, seen))"

definition listen_packets :: "std_hash \<Rightarrow> packet list \<Rightarrow> 'd emulation \<Rightarrow> 'd emulation" where
  "listen_packets H pkts em =
     (if pkts \<noteq> [] then
        let (kept, seen) = remove_retransmitted (packet_hash H) pkts (pkts_hash em) in
        em\<lparr>em_recv_pkts := em_recv_pkts em @ kept, pkts_hash := seen\<rparr>
      else em)"

definition listen_drops :: "64 word \<Rightarrow> 'd emulation \<Rightarrow> 'd emulation" where
  "listen_drops ts em = (if ts \<noteq> 0 then (clear_received em)\<lparr>drop_ts := ts\<rparr> else em)"

text \<open>The thread that listens for drops runs only when drops are monitored.\<close>

definition on_event :: "'d emu_env \<Rightarrow> emu_event \<Rightarrow> 'd emulation \<Rightarrow> 'd emulation" where
  "on_event env ev em =
     (case ev of
        Read pkts \<Rightarrow> listen_packets (ee_hash env) pkts em
      | Drop ts \<Rightarrow> if ee_drop env then listen_drops ts em else em)"

text \<open>The loop that receives packets until a drop is seen or a wait brings no new one.\<close>

fun receive :: "'d emu_env \<Rightarrow> emu_event list list \<Rightarrow> 'd emulation \<Rightarrow> 'd emulation result" where
  "receive env [] em = Inr em"
| "receive env (events # waits) em =
     (let num_pkts = length (em_recv_pkts em); em = fold (on_event env) events em in
      if drop_ts em \<noteq> 0 then bindR (assertR (em_recv_pkts em = [])) (\<lambda>_. Inr em)
      else if length (em_recv_pkts em) > num_pkts then receive env waits em
      else Inr em)"

section \<open>Sequence number and port offsets\<close>

definition offset_of :: "('k \<rightharpoonup> 'a word) \<Rightarrow> 'k \<Rightarrow> 'a::len word" where
  "offset_of offsets key = (case offsets key of None \<Rightarrow> 0 | Some offset \<Rightarrow> offset)"

definition apply_offsets :: "'d emu_env \<Rightarrow> 'd emulation \<Rightarrow> packet \<Rightarrow> packet result" where
  "apply_offsets env em pkt =
     (if \<not> ps_is_tcp (pk_proto_state pkt) then Inr pkt
      else
        bindR (derefR (ee_nodes env) (em_mb em)) (\<lambda>mb.
        if \<not> has_ip mb (pk_dst_ip pkt) then Inr pkt
        else
          let key = (pk_src_ip pkt, pk_src_port pkt) in
          Inr (pkt\<lparr>pk_ack := pk_ack pkt + offset_of (seq_offsets em) key,
            pk_dst_port := pk_dst_port pkt + offset_of (port_offsets em) key\<rparr>)))"

abbreviation (input) DYNAMIC_PORT :: "16 word" where "DYNAMIC_PORT \<equiv> 49152"

definition update_seq_offset :: "emu_pkt_key \<Rightarrow> 16 word \<Rightarrow> packet \<Rightarrow> 'd emulation \<Rightarrow> 'd emulation \<times> packet" where
  "update_seq_offset key flags pkt em =
     (if flags = TH_SYN \<or> flags = or TH_SYN TH_ACK then
        (em\<lparr>seq_offsets := (seq_offsets em)(key \<mapsto> pk_seq pkt)\<rparr>, pkt\<lparr>pk_seq := 0\<rparr>)
      else (em, pkt\<lparr>pk_seq := pk_seq pkt - offset_of (seq_offsets em) key\<rparr>))"

definition update_port_offset :: "emu_pkt_key \<Rightarrow> 16 word \<Rightarrow> packet \<Rightarrow> 'd emulation \<Rightarrow> 'd emulation \<times> packet" where
  "update_port_offset key flags pkt em =
     (if flags = TH_SYN then
        if pk_src_port pkt \<ge> 1024 then
          (em\<lparr>port_offsets := (port_offsets em)(key \<mapsto> pk_src_port pkt - DYNAMIC_PORT)\<rparr>,
           pkt\<lparr>pk_src_port := DYNAMIC_PORT\<rparr>)
        else (em, pkt)
      else (em, pkt\<lparr>pk_src_port := pk_src_port pkt - offset_of (port_offsets em) key\<rparr>))"

text \<open>A packet that is not TCP or not from the middlebox itself ends the loop: the code returns
  where it means to skip.\<close>

fun update_offsets :: "'d emu_env \<Rightarrow> packet list \<Rightarrow> 'd emulation \<Rightarrow> (packet list \<times> 'd emulation) result" where
  "update_offsets env [] em = Inr ([], em)"
| "update_offsets env (pkt # pkts) em =
     (if \<not> ps_is_tcp (pk_proto_state pkt) then Inr (pkt # pkts, em)
      else
        bindR (derefR (ee_nodes env) (em_mb em)) (\<lambda>mb.
        if \<not> has_ip mb (pk_src_ip pkt) then Inr (pkt # pkts, em)
        else
          let key = (pk_dst_ip pkt, pk_dst_port pkt);
              flags = and (pk_proto_state pkt) (not 0x800);
              (em, pkt) = update_seq_offset key flags pkt em;
              (em, pkt) = update_port_offset key flags pkt em in
          bindR (update_offsets env pkts em) (\<lambda>(pkts, em). Inr (pkt # pkts, em))))"

section \<open>Injecting a packet\<close>

definition the_driver :: "'d emulation \<Rightarrow> 'd result" where
  "the_driver em = valR (em_driver em)"

definition emu_send_pkt ::
    "'d emu_env \<Rightarrow> packet \<Rightarrow> 'd emulation \<times> drop_timeout \<Rightarrow> (injection_result \<times> 'd emulation \<times> drop_timeout) result" where
  "emu_send_pkt env p = (\<lambda>(em, dt).
     let drv = ee_driver env in
     bindR (apply_offsets env em p) (\<lambda>pkt.
     let em = (clear_received em)\<lparr>drop_ts := 0\<rparr> in
     bindR (the_driver em) (\<lambda>d.
     let (inj, d) = drv_inject drv pkt (drv_unpause drv d) in
     bindR (receive env (io_waits inj) em) (\<lambda>em.
     let dt = (if drop_ts em = 0 \<and> em_recv_pkts em \<noteq> [] then update_timeout (io_latency inj) dt else dt);
         em = fold (on_event env) (io_late inj) (em\<lparr>em_driver := Some (drv_pause drv d)\<rparr>);
         pkts = em_recv_pkts em;
         em = clear_received em in
     bindR (reassemble_segments (ee_perm env) pkts) (\<lambda>pkts.
     bindR (update_offsets env pkts em) (\<lambda>(pkts, em).
     Inr (\<lparr>recv_pkts = pkts, explicit_drop = (drop_ts em \<noteq> 0)\<rparr>, em, dt)))))))"

section \<open>Rewinding to a packet history\<close>

definition reset_emulation :: "'d emu_env \<Rightarrow> 'd emulation \<Rightarrow> 'd emulation result" where
  "reset_emulation env em =
     bindR (the_driver em) (\<lambda>d.
     Inr ((clear_received ((reset_offsets em)\<lparr>em_driver := Some (drv_reset (ee_driver env) d)\<rparr>))\<lparr>drop_ts := 0\<rparr>))"

definition replay ::
    "'d emu_env \<Rightarrow> packet list \<Rightarrow> 'd emulation \<times> drop_timeout \<Rightarrow> ('d emulation \<times> drop_timeout) result" where
  "replay env pkts = foldR (\<lambda>p s. bindR (emu_send_pkt env p s) (\<lambda>(_, s). Inr s)) pkts"

definition emu_rewind ::
    "'d emu_env \<Rightarrow> node_pkt_hist \<Rightarrow> 'd emulation \<times> drop_timeout \<Rightarrow> (int \<times> 'd emulation \<times> drop_timeout) result" where
  "emu_rewind env nph = (\<lambda>(em, dt).
     if em_nph em = nph then bindR (derefR (ee_nodes env) (em_mb em)) (\<lambda>_. Inr (-1, em, dt))
     else
       bindR (derefR (ee_nodes env) (em_mb em)) (\<lambda>_.
       bindR (if nph = [] \<or> \<not> nph_contains (em_nph em) nph then reset_emulation env em else Inr em) (\<lambda>em.
       if nph \<noteq> [] then
         let pkts = get_packets_since (em_nph em) nph in
         bindR (replay env pkts (em, dt)) (\<lambda>s. Inr (int (length pkts), s))
       else Inr (0, em, dt))))"

section \<open>The pool of emulations\<close>

type_synonym nph_table = "(node_pkt_hist \<times> nat list) list"

record 'd emu_world =
  ew_heap :: "nat \<rightharpoonup> 'd emulation"
  ew_next :: nat                       \<comment> \<open>the address of the next new object\<close>
  max_emu :: nat
  ew_emus :: "nat list"
  mb_emu_map :: "nat \<rightharpoonup> nph_table"
  mb_emulation :: "nat \<rightharpoonup> nat"        \<comment> \<open>\<open>Middlebox::_emulation\<close>\<close>
  ew_timeout :: drop_timeout

definition emu_mgr_reset :: "'d emu_world \<Rightarrow> 'd emu_world" where
  "emu_mgr_reset w = w\<lparr>ew_heap := (\<lambda>e. if e \<in> set (ew_emus w) then None else ew_heap w e),
     max_emu := 0, ew_emus := [], mb_emu_map := Map.empty\<rparr>"

definition hist_less :: "'d emu_env \<Rightarrow> node_pkt_hist \<Rightarrow> node_pkt_hist \<Rightarrow> bool" where
  "hist_less env = nph_less (adr_less (ee_pkt_adr env))"

text \<open>A \<open>std::map\<close> from histories to sets of emulations, as its sorted list; \<open>operator[]\<close>
  enters an empty set for a missing key.\<close>

fun table_get :: "(node_pkt_hist \<Rightarrow> node_pkt_hist \<Rightarrow> bool) \<Rightarrow> node_pkt_hist \<Rightarrow> nph_table \<Rightarrow> nat list" where
  "table_get lt nph [] = []"
| "table_get lt nph ((k, es) # tbl) = (if lt k nph \<or> lt nph k then table_get lt nph tbl else es)"

fun table_put ::
    "(node_pkt_hist \<Rightarrow> node_pkt_hist \<Rightarrow> bool) \<Rightarrow> node_pkt_hist \<Rightarrow> nat list \<Rightarrow> nph_table \<Rightarrow> nph_table" where
  "table_put lt nph es [] = [(nph, es)]"
| "table_put lt nph es ((k, es') # tbl) =
     (if lt k nph then (k, es') # table_put lt nph es tbl
      else if lt nph k then (nph, es) # (k, es') # tbl
      else (k, es) # tbl)"

definition table_erase :: "(node_pkt_hist \<Rightarrow> node_pkt_hist \<Rightarrow> bool) \<Rightarrow> node_pkt_hist \<Rightarrow> nph_table \<Rightarrow> nph_table" where
  "table_erase lt nph tbl = filter (\<lambda>(k, _). lt k nph \<or> lt nph k) tbl"

definition table_of :: "(nat \<rightharpoonup> nph_table) \<Rightarrow> nat \<Rightarrow> nph_table" where
  "table_of tbls mb = (case tbls mb of None \<Rightarrow> [] | Some tbl \<Rightarrow> tbl)"

definition insert_emu :: "'d emu_env \<Rightarrow> nat \<Rightarrow> node_pkt_hist \<Rightarrow> nat \<Rightarrow> (nat \<rightharpoonup> nph_table) \<Rightarrow> (nat \<rightharpoonup> nph_table)" where
  "insert_emu env mb nph e tbls =
     (let tbl = table_of tbls mb in
      tbls(mb \<mapsto> table_put (hist_less env) nph (List.insert e (table_get (hist_less env) nph tbl)) tbl))"

definition erase_emu ::
    "'d emu_env \<Rightarrow> nat \<Rightarrow> node_pkt_hist \<Rightarrow> nat \<Rightarrow> (nat \<rightharpoonup> nph_table) \<Rightarrow> (nat \<rightharpoonup> nph_table) result" where
  "erase_emu env mb nph e tbls =
     (let tbl = table_of tbls mb; es = table_get (hist_less env) nph tbl in
      bindR (assertR (e \<in> set es)) (\<lambda>_.
      let es = remove1 e es in
      Inr (tbls(mb \<mapsto> (if es = [] then table_erase (hist_less env) nph tbl
                       else table_put (hist_less env) nph es tbl)))))"

definition begin_of :: "'d emu_env \<Rightarrow> nat list \<Rightarrow> nat result" where
  "begin_of env es = (if es = [] then Inl Undefined_behaviour else Inr (ee_begin env es))"

text \<open>The emulation with the longest history the wanted one extends: \<open>lower_bound\<close>, then back
  towards the beginning of the map. The entries before the bound are given last first.\<close>

fun walk_back :: "node_pkt_hist \<Rightarrow> nph_table \<Rightarrow> nat list result" where
  "walk_back nph [] = Inl Undefined_behaviour"
| "walk_back nph [(k, es)] = Inr es"
| "walk_back nph ((k, es) # entry # tbl) =
     (if nph_contains k nph then Inr es else walk_back nph (entry # tbl))"

definition closest_emu :: "'d emu_env \<Rightarrow> node_pkt_hist \<Rightarrow> nph_table \<Rightarrow> nat result" where
  "closest_emu env nph tbl =
     (let lt = hist_less env in
      case dropWhile (\<lambda>(k, _). lt k nph) tbl of
        (k, es) # _ \<Rightarrow>
          if \<not> lt nph k then begin_of env es
          else bindR (walk_back nph (rev (takeWhile (\<lambda>(k, _). lt k nph) tbl))) (begin_of env)
      | [] \<Rightarrow> bindR (walk_back nph (rev (takeWhile (\<lambda>(k, _). lt k nph) tbl))) (begin_of env))"

definition launch_emulation :: "'d emu_env \<Rightarrow> nat \<Rightarrow> 'd emu_world \<Rightarrow> (nat \<times> 'd emu_world) result" where
  "launch_emulation env mb w =
     (let e = ew_next w in
      bindR (emu_init env mb new_emulation) (\<lambda>em.
      Inr (e, w\<lparr>ew_heap := (ew_heap w)(e \<mapsto> em), ew_next := e + 1, ew_emus := e # ew_emus w,
        mb_emu_map := insert_emu env mb [] e (mb_emu_map w)\<rparr>)))"

definition steal_emulation :: "'d emu_env \<Rightarrow> nat \<Rightarrow> 'd emu_world \<Rightarrow> (nat \<times> 'd emu_world) result" where
  "steal_emulation env mb w =
     bindR (assertR (ew_emus w \<noteq> [])) (\<lambda>_.
     let e = ee_begin env (ew_emus w) in
     bindR (derefR (ew_heap w) e) (\<lambda>emu.
     let old_mb = em_mb emu in
     bindR (erase_emu env old_mb (em_nph emu) e (mb_emu_map w)) (\<lambda>tbls.
     let tbls = (if table_of tbls old_mb = [] then tbls(old_mb := None) else tbls) in
     bindR (emu_init env mb emu) (\<lambda>emu.
     Inr (e, w\<lparr>ew_heap := (ew_heap w)(e \<mapsto> emu), mb_emu_map := insert_emu env mb [] e tbls\<rparr>)))))"

definition get_emulation :: "'d emu_env \<Rightarrow> nat \<Rightarrow> node_pkt_hist \<Rightarrow> 'd emu_world \<Rightarrow> (nat \<times> 'd emu_world) result" where
  "get_emulation env mb nph w =
     (case mb_emu_map w mb of
        None \<Rightarrow> if length (ew_emus w) < max_emu w then launch_emulation env mb w
                else steal_emulation env mb w
      | Some tbl \<Rightarrow> bindR (closest_emu env nph tbl) (\<lambda>e. Inr (e, w)))"

definition update_node_pkt_hist :: "'d emu_env \<Rightarrow> nat \<Rightarrow> node_pkt_hist \<Rightarrow> 'd emu_world \<Rightarrow> 'd emu_world result" where
  "update_node_pkt_hist env e nph w =
     bindR (derefR (ew_heap w) e) (\<lambda>emu.
     let mb = em_mb emu in
     bindR (erase_emu env mb (em_nph emu) e (mb_emu_map w)) (\<lambda>tbls.
     Inr (w\<lparr>mb_emu_map := insert_emu env mb nph e tbls,
       ew_heap := (ew_heap w)(e \<mapsto> emu\<lparr>em_nph := nph\<rparr>)\<rparr>)))"

section \<open>The operations of a middlebox\<close>

definition put_emulation :: "nat \<Rightarrow> 'd emulation \<times> drop_timeout \<Rightarrow> 'd emu_world \<Rightarrow> 'd emu_world" where
  "put_emulation e s w = w\<lparr>ew_heap := (ew_heap w)(e \<mapsto> fst s), ew_timeout := snd s\<rparr>"

definition mb_rewind :: "'d emu_env \<Rightarrow> nat \<Rightarrow> node_pkt_hist \<Rightarrow> 'd emu_world \<Rightarrow> 'd emu_world result" where
  "mb_rewind env mb nph w =
     bindR (get_emulation env mb nph w) (\<lambda>(e, w).
     let w = w\<lparr>mb_emulation := (mb_emulation w)(mb \<mapsto> e)\<rparr> in
     bindR (derefR (ew_heap w) e) (\<lambda>emu.
     bindR (emu_rewind env nph (emu, ew_timeout w)) (\<lambda>(_, s). Inr (put_emulation e s w))))"

text \<open>The emulation of a middlebox, which every other operation asserts to be still its own.\<close>

definition own_emulation :: "nat \<Rightarrow> 'd emu_world \<Rightarrow> nat result" where
  "own_emulation mb w =
     bindR (valR (mb_emulation w mb)) (\<lambda>e.
     bindR (derefR (ew_heap w) e) (\<lambda>emu.
     bindR (assertR (em_mb emu = mb)) (\<lambda>_. Inr e)))"

definition mb_set_node_pkt_hist :: "'d emu_env \<Rightarrow> nat \<Rightarrow> node_pkt_hist \<Rightarrow> 'd emu_world \<Rightarrow> 'd emu_world result" where
  "mb_set_node_pkt_hist env mb nph w =
     bindR (own_emulation mb w) (\<lambda>e. update_node_pkt_hist env e nph w)"

fun send_times ::
    "'d emu_env \<Rightarrow> packet \<Rightarrow> nat \<Rightarrow> injection_results \<Rightarrow> 'd emulation \<times> drop_timeout
     \<Rightarrow> (injection_results \<times> 'd emulation \<times> drop_timeout) result" where
  "send_times env p 0 results s = Inr (results, s)"
| "send_times env p (Suc n) results s =
     bindR (emu_send_pkt env p s) (\<lambda>(ir, s).
     send_times env p n (results_add (ee_res_adr env) ir results) s)"

definition packets_per_injection :: "'d emu_env \<Rightarrow> nat \<Rightarrow> int result" where
  "packets_per_injection env mb =
     bindR (derefR (ee_nodes env) mb) (\<lambda>nd.
     bindR (valR (nd_middlebox nd)) (\<lambda>conf. Inr (mb_packets_per_injection conf)))"

definition mb_send_pkt ::
    "'d emu_env \<Rightarrow> nat \<Rightarrow> packet \<Rightarrow> 'd emu_world \<Rightarrow> (injection_results \<times> 'd emu_world) result" where
  "mb_send_pkt env mb p w =
     bindR (own_emulation mb w) (\<lambda>e.
     bindR (packets_per_injection env mb) (\<lambda>times.
     bindR (assertR (times > 0)) (\<lambda>_.
     bindR (derefR (ew_heap w) e) (\<lambda>emu.
     bindR (send_times env p (nat times) [] (emu, ew_timeout w)) (\<lambda>(results, s).
     Inr (results, put_emulation e s w))))))"

definition middlebox_ops :: "'d emu_env \<Rightarrow> 'd emu_world emu_ops" where
  "middlebox_ops env = \<lparr>op_rewind = mb_rewind env, op_set_nph = mb_set_node_pkt_hist env,
     op_send_pkt = mb_send_pkt env\<rparr>"

section \<open>The estimate stays within the measured latencies\<close>

definition within :: "int \<Rightarrow> int \<Rightarrow> drop_timeout \<Rightarrow> bool" where
  "within lo hi dt \<longleftrightarrow> lo \<le> lat_avg dt \<and> lat_avg dt \<le> hi \<and> 0 \<le> lat_mdev dt \<and> lat_mdev dt \<le> hi - lo"

lemma sdiv_pos: "0 < n \<Longrightarrow> a sdiv int n = (if 0 \<le> a then a div int n else - ((- a) div int n))" for a :: int
  by (auto simp: signed_divide_int_def sgn_if)

lemma sdiv_5: "a sdiv 5 = (if 0 \<le> a then a div 5 else - ((- a) div 5))" for a :: int
  using sdiv_pos[of 5 a] by simp

lemma update_timeout_within:
  assumes "within lo hi dt" "lo \<le> lat" "lat \<le> hi"
  shows "within lo hi (update_timeout lat dt)"
proof -
  have "lo \<le> lat_avg dt + (lat - lat_avg dt) sdiv 5 \<and> lat_avg dt + (lat - lat_avg dt) sdiv 5 \<le> hi"
    using assms unfolding within_def sdiv_5 by (cases "lat_avg dt \<le> lat") auto
  moreover have "\<bar>lat - lat_avg dt\<bar> \<le> hi - lo" using assms by (auto simp: within_def)
  then have "0 \<le> lat_mdev dt + (\<bar>lat - lat_avg dt\<bar> - lat_mdev dt) sdiv 5
      \<and> lat_mdev dt + (\<bar>lat - lat_avg dt\<bar> - lat_mdev dt) sdiv 5 \<le> hi - lo"
    using assms unfolding within_def sdiv_5 by (cases "lat_mdev dt \<le> \<bar>lat - lat_avg dt\<bar>") auto
  ultimately show ?thesis by (simp add: within_def update_timeout_def Let_def)
qed

lemma sum_fold: "fold (\<lambda>x s. s + f x) xs s = s + sum_list (map f xs)" for f :: "'a \<Rightarrow> int"
  by (induction xs arbitrary: s) auto

lemma mean_within:
  assumes "xs \<noteq> []" "\<forall>x \<in> set xs. lo \<le> f x \<and> f x \<le> hi" "0 \<le> lo"
  shows "\<exists>v. duration_div (fold (\<lambda>x s. s + f x) xs 0) (length xs) = Inr v \<and> lo \<le> v \<and> v \<le> hi"
proof -
  have n: "0 < length xs" using assms(1) by simp
  have "int (length xs) * lo \<le> sum_list (map f xs) \<and> sum_list (map f xs) \<le> int (length xs) * hi"
    using assms(2) by (induction xs) (auto simp: algebra_simps)
  moreover have "0 \<le> sum_list (map f xs)" using assms(2,3) by (intro sum_list_nonneg) fastforce
  ultimately have "lo \<le> sum_list (map f xs) sdiv int (length xs)"
      "sum_list (map f xs) sdiv int (length xs) \<le> hi"
    using zdiv_mono1[of "int (length xs) * lo" "sum_list (map f xs)" "int (length xs)"]
      zdiv_mono1[of "sum_list (map f xs)" "int (length xs) * hi" "int (length xs)"] n
    unfolding sdiv_pos[OF n] by simp_all
  then show ?thesis using assms(1) by (simp add: duration_div_def sum_fold)
qed

lemma dt_init_within:
  assumes "lats \<noteq> []" "\<forall>l \<in> set lats. lo \<le> l \<and> l \<le> hi" "0 \<le> lo" "\<not> has_initial_estimate dt"
  shows "\<exists>dt'. dt_init lats dt = Inr dt' \<and> within lo hi dt' \<and> mdev_scalar dt' = mdev_scalar dt"
proof -
  obtain avg where a: "duration_div (fold (\<lambda>lat avg. avg + lat) lats 0) (length lats) = Inr avg" "lo \<le> avg" "avg \<le> hi"
    using mean_within[OF assms(1), of lo "\<lambda>l. l" hi] assms by blast
  have "\<forall>l \<in> set lats. 0 \<le> \<bar>l - avg\<bar> \<and> \<bar>l - avg\<bar> \<le> hi - lo" using assms(2) a by auto
  then obtain mdev where "duration_div (fold (\<lambda>lat mdev. mdev + \<bar>lat - avg\<bar>) lats 0) (length lats) = Inr mdev"
      "0 \<le> mdev" "mdev \<le> hi - lo"
    using mean_within[OF assms(1), of 0 "\<lambda>l. \<bar>l - avg\<bar>" "hi - lo"] by auto
  then show ?thesis using a assms(4) by (auto simp: dt_init_def within_def)
qed

lemma updates_within:
  assumes "within lo hi dt" "\<forall>l \<in> set lats. lo \<le> l \<and> l \<le> hi"
  shows "within lo hi (fold update_timeout lats dt) \<and> mdev_scalar (fold update_timeout lats dt) = mdev_scalar dt"
  using assms
proof (induction lats arbitrary: dt)
  case (Cons l lats)
  then show ?case using update_timeout_within[of lo hi dt l] by (simp add: update_timeout_def Let_def)
qed simp

text \<open>C31. The timeout that decides whether a packet was dropped follows the measured latencies:
  however many packets update the estimate, its average lies between the smallest and the largest
  latency measured, its deviation is neither negative nor larger than their distance, and the
  timeout lies between the smallest latency and the largest plus the scaled distance.\<close>

theorem timeout_within_latencies:
  assumes "lats \<noteq> []" "\<forall>l \<in> set (lats @ recent @ [l]). lo \<le> l \<and> l \<le> hi" "0 \<le> lo"
    and "\<not> has_initial_estimate dt" "0 \<le> mdev_scalar dt"
  shows "\<exists>dt' dt''. dt_init lats dt = Inr dt' \<and> dt'' = fold update_timeout (recent @ [l]) dt'
    \<and> within lo hi dt'' \<and> lo \<le> dt_timeout dt'' \<and> dt_timeout dt'' \<le> hi + (hi - lo) * mdev_scalar dt"
proof -
  have al: "\<forall>l \<in> set lats. lo \<le> l \<and> l \<le> hi" using assms(2) by simp
  obtain dt' where i: "dt_init lats dt = Inr dt'" "within lo hi dt'" "mdev_scalar dt' = mdev_scalar dt"
    using dt_init_within[OF assms(1) al assms(3,4)] by blast
  let ?d = "fold update_timeout (recent @ [l]) dt'"
  have al': "\<forall>l \<in> set (recent @ [l]). lo \<le> l \<and> l \<le> hi" using assms(2) by simp
  have w: "within lo hi ?d" "mdev_scalar ?d = mdev_scalar dt"
    using updates_within[OF i(2) al'] i(3) by auto
  have t: "dt_timeout ?d = lat_avg ?d + lat_mdev ?d * mdev_scalar ?d"
    by (simp add: update_timeout_def Let_def)
  have "0 \<le> lat_mdev ?d * mdev_scalar dt" "lat_mdev ?d * mdev_scalar dt \<le> (hi - lo) * mdev_scalar dt"
    using w assms(5) by (auto simp: within_def intro: mult_right_mono)
  then have "lo \<le> dt_timeout ?d \<and> dt_timeout ?d \<le> hi + (hi - lo) * mdev_scalar dt"
    using w(1) unfolding t w(2) within_def by linarith
  then show ?thesis using i(1) w(1) by blast
qed

theorem timeout_within_latencies_witness:
  "\<exists>dt' dt''. dt_init [80, 120, 100] (dt_reset\<lparr>mdev_scalar := 5\<rparr>) = Inr dt'
    \<and> dt'' = fold update_timeout ([90] @ [150]) dt'
    \<and> within 80 150 dt'' \<and> 80 \<le> dt_timeout dt'' \<and> dt_timeout dt'' \<le> 150 + (150 - 80) * 5"
  using timeout_within_latencies[of "[80, 120, 100]" "[90]" 150 80 150 "dt_reset\<lparr>mdev_scalar := 5\<rparr>"]
  by (simp add: dt_reset_def)

section \<open>Offsets hide the random numbers of a connection\<close>

lemma offset_of_upd [simp]: "offset_of (m(k \<mapsto> v)) k = v"
  and offset_of_None: "m k = None \<Longrightarrow> offset_of m k = 0"
  by (simp_all add: offset_of_def)

text \<open>The packets of a list that are rewritten, the key of a packet of the middlebox, and whether it
  opens a connection.\<close>

definition own_packets :: "node \<Rightarrow> packet list \<Rightarrow> packet list" where
  "own_packets mb = takeWhile (\<lambda>p. ps_is_tcp (pk_proto_state p) \<and> has_ip mb (pk_src_ip p))"

definition pkt_key :: "packet \<Rightarrow> emu_pkt_key" where
  "pkt_key p = (pk_dst_ip p, pk_dst_port p)"

definition pkt_flags :: "packet \<Rightarrow> 16 word" where
  "pkt_flags p = and (pk_proto_state p) (not 0x800)"

definition opens :: "packet \<Rightarrow> bool" where
  "opens p \<longleftrightarrow> pkt_flags p \<in> {TH_SYN, or TH_SYN TH_ACK}"

text \<open>The offset that stays recorded for a SYN from a port that is not rewritten.\<close>

definition kept_port_offset :: "'d emulation \<Rightarrow> packet \<Rightarrow> 16 word" where
  "kept_port_offset em p =
     (if pkt_flags p = TH_SYN \<and> pk_src_port p < 1024 then offset_of (port_offsets em) (pkt_key p) else 0)"

definition rewritten :: "packet \<Rightarrow> packet \<Rightarrow> 'd emulation \<Rightarrow> bool" where
  "rewritten p p' em \<longleftrightarrow> pk_src_ip p' = pk_src_ip p \<and> pkt_key p' = pkt_key p
     \<and> pk_seq p' + offset_of (seq_offsets em) (pkt_key p) = pk_seq p
     \<and> pk_src_port p' + offset_of (port_offsets em) (pkt_key p) = pk_src_port p + kept_port_offset em p"

lemma rewritten_cong:
  assumes "seq_offsets em' (pkt_key p) = seq_offsets em (pkt_key p)"
    and "port_offsets em' (pkt_key p) = port_offsets em (pkt_key p)"
  shows "rewritten p p' em' = rewritten p p' em"
  using assms by (simp add: rewritten_def kept_port_offset_def offset_of_def)

lemma update_own:
  assumes "ee_nodes env (em_mb em) = Some mb" "ps_is_tcp (pk_proto_state p)" "has_ip mb (pk_src_ip p)"
    and "update_offsets env (p # pkts) em = Inr (pkts', em')"
  obtains p1 em1 ps1 where "pkts' = p1 # ps1" "update_offsets env pkts em1 = Inr (ps1, em')"
    and "em_mb em1 = em_mb em" "rewritten p p1 em1" "opens p \<Longrightarrow> pk_seq p1 = 0"
    and "\<And>key. key \<noteq> pkt_key p \<or> \<not> opens p \<Longrightarrow>
      seq_offsets em1 key = seq_offsets em key \<and> port_offsets em1 key = port_offsets em key"
proof -
  obtain em0 p0 where 1: "update_seq_offset (pkt_key p) (pkt_flags p) p em = (em0, p0)" by fastforce
  obtain em1 p1 where 2: "update_port_offset (pkt_key p) (pkt_flags p) p0 em0 = (em1, p1)" by fastforce
  have "bindR (update_offsets env pkts em1) (\<lambda>(pkts, em). Inr (p1 # pkts, em)) = Inr (pkts', em')"
    using assms 1 2 by (simp add: derefR_def Let_def pkt_key_def pkt_flags_def)
  then obtain ps1 where r: "pkts' = p1 # ps1" "update_offsets env pkts em1 = Inr (ps1, em')"
    by (auto simp: bindR_eq_Inr_iff)
  have s: "pk_seq p0 + offset_of (seq_offsets em0) (pkt_key p) = pk_seq p" "em_mb em0 = em_mb em"
      "port_offsets em0 = port_offsets em" "pk_src_ip p0 = pk_src_ip p" "pkt_key p0 = pkt_key p"
      "pk_src_port p0 = pk_src_port p" "opens p \<longrightarrow> pk_seq p0 = 0"
      "key \<noteq> pkt_key p \<or> \<not> opens p \<longrightarrow> seq_offsets em0 key = seq_offsets em key" for key
    using 1 by (auto simp: update_seq_offset_def opens_def pkt_key_def split: if_splits)
  have q: "pk_src_port p1 + offset_of (port_offsets em1) (pkt_key p) = pk_src_port p + kept_port_offset em1 p"
      "em_mb em1 = em_mb em" "seq_offsets em1 = seq_offsets em0" "pk_src_ip p1 = pk_src_ip p"
      "pkt_key p1 = pkt_key p" "pk_seq p1 = pk_seq p0"
      "key \<noteq> pkt_key p \<or> \<not> opens p \<longrightarrow> port_offsets em1 key = port_offsets em key" for key
    using 2 s by (auto simp: update_port_offset_def kept_port_offset_def opens_def pkt_key_def split: if_splits)
  show thesis using that[OF r q(2)] s q by (simp add: rewritten_def)
qed

lemma update_offsets_own:
  assumes "update_offsets env pkts em = Inr (pkts', em')" "ee_nodes env (em_mb em) = Some mb"
  defines "n \<equiv> length (own_packets mb pkts)"
  shows "length pkts' = length pkts \<and> drop n pkts' = drop n pkts \<and> em_mb em' = em_mb em
    \<and> (\<forall>key. (\<forall>j < n. pkt_key (pkts ! j) = key \<longrightarrow> \<not> opens (pkts ! j)) \<longrightarrow>
        seq_offsets em' key = seq_offsets em key \<and> port_offsets em' key = port_offsets em key)
    \<and> (\<forall>i < n. (opens (pkts ! i) \<longrightarrow> pk_seq (pkts' ! i) = 0)
        \<and> ((\<forall>j. i < j \<and> j < n \<and> pkt_key (pkts ! j) = pkt_key (pkts ! i) \<longrightarrow> \<not> opens (pkts ! j))
            \<longrightarrow> rewritten (pkts ! i) (pkts' ! i) em'))"
  using assms(1,2) unfolding n_def
proof (induction pkts arbitrary: em pkts')
  case Nil
  then show ?case by (simp add: own_packets_def)
next
  case (Cons p pkts)
  show ?case
  proof (cases "ps_is_tcp (pk_proto_state p) \<and> has_ip mb (pk_src_ip p)")
    case False
    then have "own_packets mb (p # pkts) = []" by (simp add: own_packets_def)
    moreover have "pkts' = p # pkts \<and> em' = em"
      using Cons.prems False by (cases "ps_is_tcp (pk_proto_state p)") (auto simp: derefR_def)
    ultimately show ?thesis by simp
  next
    case True
    let ?n = "length (own_packets mb pkts)"
    have n: "length (own_packets mb (p # pkts)) = Suc ?n" using True by (simp add: own_packets_def)
    obtain p1 em1 ps1 where u: "pkts' = p1 # ps1" "update_offsets env pkts em1 = Inr (ps1, em')"
      and e: "em_mb em1 = em_mb em" "rewritten p p1 em1" "opens p \<Longrightarrow> pk_seq p1 = 0"
      and k: "\<And>key. key \<noteq> pkt_key p \<or> \<not> opens p \<Longrightarrow>
        seq_offsets em1 key = seq_offsets em key \<and> port_offsets em1 key = port_offsets em key"
      using update_own[OF Cons.prems(2) True[THEN conjunct1] True[THEN conjunct2] Cons.prems(1)] by blast
    note IH = Cons.IH[OF u(2), unfolded e(1), OF Cons.prems(2)]
    have keys: "seq_offsets em' key = seq_offsets em key \<and> port_offsets em' key = port_offsets em key"
      if "\<forall>j < Suc ?n. pkt_key ((p # pkts) ! j) = key \<longrightarrow> \<not> opens ((p # pkts) ! j)" for key
    proof -
      have "key \<noteq> pkt_key p \<or> \<not> opens p" using that[rule_format, of 0] by auto
      moreover have "\<forall>j < ?n. pkt_key (pkts ! j) = key \<longrightarrow> \<not> opens (pkts ! j)"
        using that by (auto dest: spec[of _ "Suc _"])
      ultimately show ?thesis using k IH by metis
    qed
    have at: "(opens ((p # pkts) ! i) \<longrightarrow> pk_seq (pkts' ! i) = 0)
        \<and> ((\<forall>j. i < j \<and> j < Suc ?n \<and> pkt_key ((p # pkts) ! j) = pkt_key ((p # pkts) ! i) \<longrightarrow> \<not> opens ((p # pkts) ! j))
            \<longrightarrow> rewritten ((p # pkts) ! i) (pkts' ! i) em')" if i: "i < Suc ?n" for i
    proof (cases i)
      case 0
      have "rewritten p p1 em'"
        if "\<forall>j. 0 < j \<and> j < Suc ?n \<and> pkt_key ((p # pkts) ! j) = pkt_key p \<longrightarrow> \<not> opens ((p # pkts) ! j)"
      proof -
        have "\<forall>j < ?n. pkt_key (pkts ! j) = pkt_key p \<longrightarrow> \<not> opens (pkts ! j)"
          using that by (auto dest: spec[of _ "Suc _"])
        then show ?thesis using IH e(2) rewritten_cong[of em' p em1 p1] by blast
      qed
      then show ?thesis using 0 e(3) u(1) by simp
    next
      case (Suc l)
      have "\<forall>j. l < j \<and> j < ?n \<and> pkt_key (pkts ! j) = pkt_key (pkts ! l) \<longrightarrow> \<not> opens (pkts ! j)"
        if "\<forall>j. i < j \<and> j < Suc ?n \<and> pkt_key ((p # pkts) ! j) = pkt_key ((p # pkts) ! i) \<longrightarrow> \<not> opens ((p # pkts) ! j)"
        using that unfolding Suc by (auto dest: spec[of _ "Suc _"])
      then show ?thesis using IH i u(1) unfolding Suc by auto
    qed
    show ?thesis using IH u(1) e(1) keys at unfolding n by auto
  qed
qed



text \<open>A middlebox that answers every packet once from its own address, with a driver that keeps the
  packets injected since its reset.\<close>

definition sample_box :: node where
  "sample_box = \<lparr>nd_name = ''mb'', nd_intfs = Map.empty, nd_intfs_l3 = [(7, 1)], nd_intfs_l2 = [],
     nd_rib = [], nd_l2_peers = Map.empty, nd_l2_lans = Map.empty,
     nd_middlebox = Some \<lparr>mb_packets_per_injection = 1, ec_ip_prefixes = [], ec_ip_addrs = [], ec_ports = []\<rparr>\<rparr>"

definition sample_answer :: "packet \<Rightarrow> packet" where
  "sample_answer p = p\<lparr>pk_src_ip := pk_dst_ip p, pk_dst_ip := pk_src_ip p, pk_src_port := pk_dst_port p,
     pk_dst_port := pk_src_port p, pk_seq := 5000, pk_ack := pk_seq p + 1, pk_proto_state := 0x812\<rparr>"

definition sample_driver :: "packet list driver_ops" where
  "sample_driver = \<lparr>drv_init = (\<lambda>_. []), drv_reset = (\<lambda>_. []), drv_pause = id, drv_unpause = id,
     drv_inject = (\<lambda>p d. (\<lparr>io_waits = [[Read [sample_answer p]]], io_late = [], io_latency = 100\<rparr>, p # d))\<rparr>"

definition sample_env :: "packet list emu_env" where
  "sample_env = \<lparr>ee_driver = sample_driver, ee_nodes = [1 \<mapsto> sample_box, 2 \<mapsto> sample_box],
     ee_docker = (\<lambda>mb. mb = 1 \<or> mb = 2), ee_hash = sample_hash, ee_drop = False, ee_perm = id, ee_pkt_adr = (\<lambda>p. unat (pk_seq p)),
     ee_res_adr = (\<lambda>r. length (recv_pkts r)), ee_begin = hd\<rparr>"

definition sample_emulation :: "packet list emulation" where
  "sample_emulation = new_emulation\<lparr>em_mb := 1, em_driver := Some []\<rparr>"

definition sample_synack :: packet where
  "sample_synack = mk_packet 1 7 9 80 5000 777 1 0x812"

definition sample_ack :: packet where
  "sample_ack = mk_packet 1 9 7 5000 80 1 1 0x810"

lemmas sample_emu_defs = sample_env_def sample_driver_def sample_box_def sample_emulation_def
  sample_answer_def sample_synack_def sample_ack_def mk_packet_def packet_init_def new_emulation_def


section \<open>Rewinding replays the history\<close>

lemma on_event_keeps [simp]: "em_mb (on_event env ev em) = em_mb em" "em_nph (on_event env ev em) = em_nph em"
    "em_driver (on_event env ev em) = em_driver em" "em_dropmon (on_event env ev em) = em_dropmon em"
  by (auto simp: on_event_def listen_packets_def listen_drops_def clear_received_def split: emu_event.split prod.split)

lemma on_events_keep [simp]: "em_mb (fold (on_event env) evs em) = em_mb em"
    "em_nph (fold (on_event env) evs em) = em_nph em" "em_driver (fold (on_event env) evs em) = em_driver em"
    "em_dropmon (fold (on_event env) evs em) = em_dropmon em"
  by (induction evs arbitrary: em) auto

lemma receive_keeps: "receive env waits em = Inr em' \<Longrightarrow> em_mb em' = em_mb em \<and> em_nph em' = em_nph em \<and> em_dropmon em' = em_dropmon em
    \<and> em_driver em' = em_driver em"
  by (induction env waits em rule: receive.induct) (auto simp: Let_def bindR_eq_Inr_iff split: if_splits)

lemma update_offset_keeps:
  "update_seq_offset key flags p em = (em', p') \<Longrightarrow> em_mb em' = em_mb em \<and> em_nph em' = em_nph em \<and> em_dropmon em' = em_dropmon em
    \<and> em_driver em' = em_driver em"
  "update_port_offset key flags p em = (em', p') \<Longrightarrow> em_mb em' = em_mb em \<and> em_nph em' = em_nph em \<and> em_dropmon em' = em_dropmon em
    \<and> em_driver em' = em_driver em"
  by (auto simp: update_seq_offset_def update_port_offset_def split: if_splits)

lemma update_offsets_keeps: "update_offsets env pkts em = Inr (pkts', em') \<Longrightarrow> em_mb em' = em_mb em
    \<and> em_nph em' = em_nph em \<and> em_dropmon em' = em_dropmon em
    \<and> em_driver em' = em_driver em"
proof (induction pkts arbitrary: em pkts')
  case (Cons p pkts)
  obtain em1 p1 where 1: "update_seq_offset (pk_dst_ip p, pk_dst_port p) (and (pk_proto_state p) (not 0x800)) p em = (em1, p1)"
    by fastforce
  obtain em2 p2 where 2: "update_port_offset (pk_dst_ip p, pk_dst_port p) (and (pk_proto_state p) (not 0x800)) p1 em1 = (em2, p2)"
    by fastforce
  show ?case
    using Cons.prems Cons.IH[of em2] update_offset_keeps(1)[OF 1] update_offset_keeps(2)[OF 2]
    unfolding update_offsets.simps Let_def 1 2 prod.case
    by (auto simp: bindR_eq_Inr_iff split: if_splits)
qed simp

lemma clear_received_sel [simp]: "em_mb (clear_received em) = em_mb em" "em_nph (clear_received em) = em_nph em"
    "em_driver (clear_received em) = em_driver em" "drop_ts (clear_received em) = drop_ts em" "em_dropmon (clear_received em) = em_dropmon em"
    "em_recv_pkts (clear_received em) = []"
  by (simp_all add: clear_received_def)

lemma send_pkt_keeps:
  assumes "emu_send_pkt env p (em, dt) = Inr (ir, em', dt')"
  shows "em_mb em' = em_mb em \<and> em_nph em' = em_nph em \<and> em_dropmon em' = em_dropmon em
    \<and> em_driver em' \<noteq> None"
  using assms unfolding emu_send_pkt_def prod.case Let_def
  by (elim bindR_okE) (auto simp: bindR_eq_Inr_iff split: prod.splits dest!: receive_keeps update_offsets_keeps)

lemma replay_append:
  "replay env (ps @ qs) s = bindR (replay env ps s) (replay env qs)"
  by (simp add: replay_def foldR_append)

lemma replay_keeps:
  assumes "replay env ps (em, dt) = Inr (em', dt')"
  shows "em_mb em' = em_mb em \<and> em_nph em' = em_nph em \<and> em_dropmon em' = em_dropmon em
    \<and> (em_driver em \<noteq> None \<longrightarrow> em_driver em' \<noteq> None)"
  using assms
proof (induction ps arbitrary: em dt)
  case (Cons p ps)
  then obtain ir em1 dt1 where "emu_send_pkt env p (em, dt) = Inr (ir, em1, dt1)"
      "replay env ps (em1, dt1) = Inr (em', dt')"
    by (auto simp: replay_def bindR_eq_Inr_iff)
  then show ?case using Cons.IH send_pkt_keeps by fastforce
qed (simp add: replay_def)

text \<open>What an injection does to an emulation does not depend on the drop timeout.\<close>

lemma send_pkt_timeout:
  assumes "emu_send_pkt env p (em, dt) = Inr (ir, em', dt')"
  shows "\<exists>dt''. emu_send_pkt env p (em, dt2) = Inr (ir, em', dt'')"
proof -
  let ?drv = "ee_driver env" and ?em = "(clear_received em)\<lparr>drop_ts := 0\<rparr>"
  obtain pkt d where 1: "apply_offsets env em p = Inr pkt" "the_driver ?em = Inr d"
    using assms unfolding emu_send_pkt_def prod.case Let_def by (elim bindR_okE)
  obtain inj d' where 2: "drv_inject ?drv pkt (drv_unpause ?drv d) = (inj, d')" by fastforce
  obtain em1 where 3: "receive env (io_waits inj) ?em = Inr em1"
    using assms unfolding emu_send_pkt_def prod.case Let_def 1 bindR_Inr 2 by (elim bindR_okE)
  show ?thesis
    using assms unfolding emu_send_pkt_def prod.case Let_def 1 bindR_Inr 2 3
    by (auto simp: bindR_eq_Inr_iff)
qed

lemma replay_timeout:
  assumes "replay env ps (em, dt) = Inr (em', dt')"
  shows "\<exists>dt''. replay env ps (em, dt2) = Inr (em', dt'')"
  using assms
proof (induction ps arbitrary: em dt dt2)
  case (Cons p ps)
  obtain ir em1 dt1 where 1: "emu_send_pkt env p (em, dt) = Inr (ir, em1, dt1)"
      "replay env ps (em1, dt1) = Inr (em', dt')"
    using Cons.prems by (auto simp: replay_def bindR_eq_Inr_iff)
  then obtain dt3 where "emu_send_pkt env p (em, dt2) = Inr (ir, em1, dt3)"
    using send_pkt_timeout by blast
  then show ?case using Cons.IH[OF 1(2), of dt3] by (auto simp: replay_def)
qed (simp add: replay_def)

lemma reset_cong:
  assumes "reset_emulation env em = Inr em1" "em_mb em' = em_mb em" "em_nph em' = em_nph em"
    and "em_dropmon em' = em_dropmon em" "em_driver em' \<noteq> None"
    and "map_option (drv_reset (ee_driver env)) (em_driver em') = map_option (drv_reset (ee_driver env)) (em_driver em)"
  shows "reset_emulation env em' = Inr em1"
  using assms unfolding reset_emulation_def the_driver_def valR_def
  by (auto simp: reset_offsets_def clear_received_def split: option.splits)

lemma reset_form:
  assumes "reset_emulation env em0 = Inr em"
  shows "em_mb em = em_mb em0 \<and> em_nph em = em_nph em0 \<and> em_dropmon em = em_dropmon em0 \<and> em_driver em \<noteq> None
    \<and> em_driver em0 \<noteq> None"
  using assms by (auto simp: reset_emulation_def the_driver_def reset_offsets_def bindR_eq_Inr_iff)

lemma replay_timeout_iff:
  "(\<exists>dt'. replay env ps (em, dt) = Inr (em', dt')) \<longleftrightarrow> (\<exists>dt'. replay env ps (em, dt2) = Inr (em', dt'))"
  by (metis replay_timeout)

text \<open>Rewinding: the packets that are replayed, from a reset emulation or from the one at hand.\<close>

lemma rewind_eq:
  assumes "ee_nodes env (em_mb em) \<noteq> None" "h \<noteq> em_nph em"
  shows "emu_rewind env h (em, dt) =
    bindR (if h = [] \<or> \<not> nph_contains (em_nph em) h then reset_emulation env em else Inr em) (\<lambda>em1.
    bindR (replay env (get_packets_since (em_nph em) h) (em1, dt)) (\<lambda>s.
    Inr (int (length (get_packets_since (em_nph em) h)), s)))"
proof -
  have n: "em_nph em1 = em_nph em"
    if "(if h = [] \<or> \<not> nph_contains (em_nph em) h then reset_emulation env em else Inr em) = Inr em1" for em1
    using that reset_form by (auto split: if_splits)
  obtain nd where nd: "derefR (ee_nodes env) (em_mb em) = Inr nd" using assms(1) by (auto simp: derefR_def)
  define R where "R = (if h = [] \<or> \<not> nph_contains (em_nph em) h then reset_emulation env em else Inr em)"
  have ne: "em_nph em \<noteq> h" using assms(2) by simp
  show ?thesis
  proof (cases R)
    case (Inl e)
    then show ?thesis unfolding emu_rewind_def prod.case if_not_P[OF ne] nd bindR_Inr R_def[symmetric] by simp
  next
    case (Inr em1)
    then have em1: "em_nph em1 = em_nph em" using n unfolding R_def by blast
    have nil: "get_packets_since (em_nph em) [] = []" by (simp add: get_packets_since_def)
    show ?thesis
      unfolding emu_rewind_def prod.case if_not_P[OF ne] nd bindR_Inr R_def[symmetric] Inr Let_def em1
      by (cases "h = []") (simp_all add: nil replay_def)
  qed
qed

text \<open>C4. Rewinding an emulation is the same as resetting its container and replaying the whole
  packet history, however the emulation got where it is: when its state is that of a full replay of
  its own history, then rewinding it to any history, by replaying only the missing packets where
  that is possible, succeeds exactly when the full replay does, with the same state.\<close>

theorem rewind_is_full_replay:
  assumes "reset_emulation env em0 = Inr base" "replay env (get_packets (em_nph em)) (base, dt0) = Inr (em, dt)"
    and "map_option (drv_reset (ee_driver env)) (em_driver em) = map_option (drv_reset (ee_driver env)) (em_driver em0)"
    and "ee_nodes env (em_mb em) \<noteq> None"
  shows "(\<exists>n dt'. emu_rewind env h (em, dt1) = Inr (n, em', dt'))
    \<longleftrightarrow> (\<exists>dt'. replay env (get_packets h) (base, dt2) = Inr (em', dt'))"
proof (cases "h = em_nph em")
  case True
  then show ?thesis using assms(2,4) replay_timeout[OF assms(2), of dt2]
    by (auto simp: emu_rewind_def derefR_def)
next
  case False
  let ?reset = "h = [] \<or> \<not> nph_contains (em_nph em) h" and ?since = "get_packets_since (em_nph em) h"
  note f = reset_form[OF assms(1)]
  have k: "em_mb em = em_mb base" "em_nph em = em_nph base" "em_dropmon em = em_dropmon base" "em_driver em \<noteq> None"
    using replay_keeps[OF assms(2)] f by auto
  have r: "reset_emulation env em = Inr base"
    using reset_cong[OF assms(1) _ _ _ _ assms(3)] f k by simp
  show ?thesis
  proof (cases ?reset)
    case True
    have "get_packets h = ?since" using True packets_since_missing[of "em_nph em" h "[]"]
      by (auto simp: get_packets_rev get_packets_since_def)
    then show ?thesis
      unfolding rewind_eq[OF assms(4) False] using True r replay_timeout_iff[of env ?since base dt1 em' dt2]
      by (auto simp: bindR_eq_Inr_iff)
  next
    case h: False
    then have "get_packets h = get_packets (em_nph em) @ ?since"
      using packets_since_found[of "em_nph em" _ "[]"]
      by (auto simp: nph_contains_iff get_packets_rev get_packets_since_def)
    moreover obtain dt3 where "replay env (get_packets (em_nph em)) (base, dt2) = Inr (em, dt3)"
      using replay_timeout[OF assms(2)] by blast
    ultimately have "(\<exists>dt'. replay env (get_packets h) (base, dt2) = Inr (em', dt'))
        \<longleftrightarrow> (\<exists>dt'. replay env ?since (em, dt3) = Inr (em', dt'))"
      by (simp add: replay_append)
    then show ?thesis
      unfolding rewind_eq[OF assms(4) False] using h replay_timeout_iff[of env ?since em dt1 em' dt3]
      by (auto simp: bindR_eq_Inr_iff)
  qed
qed

definition silent_env :: "packet list emu_env" where
  "silent_env = sample_env\<lparr>ee_driver := sample_driver\<lparr>drv_inject := \<lambda>p d. (\<lparr>io_waits = [], io_late = [], io_latency = 0\<rparr>, p # d)\<rparr>\<rparr>"

definition sample_probe :: "32 word \<Rightarrow> packet" where
  "sample_probe n = mk_packet 1 9 7 5000 80 n 0 PS_UDP_REQ"

text \<open>An emulation at a history whose container was sent the packets of a log, newest first.\<close>

definition at_history :: "node_pkt_hist \<Rightarrow> packet list \<Rightarrow> packet list emulation" where
  "at_history h log = \<lparr>em_mb = 1, em_nph = h, em_driver = Some log, seq_offsets = Map.empty,
     port_offsets = Map.empty, em_dropmon = False, em_recv_pkts = [], pkts_hash = {}, drop_ts = 0\<rparr>"

lemma silent_send:
  assumes "\<not> ps_is_tcp (pk_proto_state p)"
  shows "emu_send_pkt silent_env p (at_history h log, dt)
    = Inr (\<lparr>recv_pkts = [], explicit_drop = False\<rparr>, at_history h (p # log), dt)"
  using assms by (simp add: emu_send_pkt_def silent_env_def sample_env_def sample_driver_def at_history_def
      apply_offsets_def the_driver_def clear_received_def reassemble_segments_def)

lemma silent_replay:
  assumes "\<forall>p \<in> set ps. \<not> ps_is_tcp (pk_proto_state p)"
  shows "replay silent_env ps (at_history h log, dt) = Inr (at_history h (rev ps @ log), dt)"
  using assms by (induction ps arbitrary: log) (simp_all add: replay_def silent_send)

theorem rewind_is_full_replay_witness:
  "\<exists>n dt'. emu_rewind silent_env [sample_probe 2, sample_probe 1] (at_history [sample_probe 1] [sample_probe 1], dt_reset)
     = Inr (n, at_history [sample_probe 1] [sample_probe 2, sample_probe 1], dt')"
proof -
  let ?h = "[sample_probe 1]"
  have t: "\<not> ps_is_tcp (pk_proto_state (sample_probe n))" for n
    by (simp add: sample_probe_def mk_packet_def packet_init_def ps_is_tcp_def ps_unconverted_def)
  have r: "reset_emulation silent_env (at_history ?h ?h) = Inr (at_history ?h [])"
    by (simp add: reset_emulation_def silent_env_def sample_env_def sample_driver_def at_history_def
        the_driver_def reset_offsets_def clear_received_def)
  have e: "em_nph (at_history ?h ?h) = ?h" "em_mb (at_history ?h ?h) = 1" by (simp_all add: at_history_def)
  have p: "replay silent_env (get_packets (em_nph (at_history ?h ?h))) (at_history ?h [], dt_reset) = Inr (at_history ?h ?h, dt_reset)"
    "replay silent_env (get_packets [sample_probe 2, sample_probe 1]) (at_history ?h [], dt_reset)
      = Inr (at_history ?h [sample_probe 2, sample_probe 1], dt_reset)"
    using t by (simp_all add: e silent_replay get_packets_rev)
  have n: "ee_nodes silent_env (em_mb (at_history ?h ?h)) \<noteq> None"
    unfolding e by (simp add: silent_env_def sample_env_def)
  show ?thesis
    using rewind_is_full_replay[OF r p(1) refl n, of "[sample_probe 2, sample_probe 1]" dt_reset _ dt_reset] p(2)
    by blast
qed

section \<open>Cached injection results and the state of the emulation\<close>

text \<open>What the forwarding process relies on when it serves an injection from the cache: an operation
  that gives an emulation a packet history makes it claim this history, and an emulation that
  claims a history is not touched by a rewind to it.\<close>

locale claiming_middleboxes =
  fixes ops :: "'w emu_ops" and claims :: "'w \<Rightarrow> nat \<Rightarrow> node_pkt_hist \<Rightarrow> bool" and inv :: "'w \<Rightarrow> bool"
  assumes rewind_inv: "inv w \<Longrightarrow> op_rewind ops mb h w = Inr w' \<Longrightarrow> inv w'"
    and set_nph_claims: "inv w \<Longrightarrow> op_set_nph ops mb h w = Inr w' \<Longrightarrow> claims w' mb h"
    and rewind_claimed: "claims w mb h \<Longrightarrow> op_rewind ops mb h w = Inr w"
begin

text \<open>A cache hit leaves the emulation with the new packet in its history, although nobody sent the
  packet; the next injection at the middlebox finds nothing to rewind.\<close>

lemma cached_injection:
  assumes "inject_packet ops mb m = Inr m'" "inv (m_world m)"
    and "get_pkt_hist m = Some ph" "get_node_pkt_hist ph mb = Inr h"
    and "op_rewind ops mb h (m_world m) = Inr w1" "packet_of_model (set_world w1 m) = Inr p"
    and "store_packet p (set_world w1 m) = (new_pkt, m1)"
    and "cache_get (m_cache m) mb (new_pkt # h) = Some rs"
  shows "op_set_nph ops mb (new_pkt # h) w1 = Inr (m_world m')
    \<and> op_rewind ops mb (new_pkt # h) (m_world m') = Inr (m_world m')"
proof -
  have m1: "m_cache m1 = m_cache m" "m_world m1 = w1"
    using assms(7) by (auto simp: store_packet_def set_world_def split: option.splits)
  have w1: "inv w1" using rewind_inv[OF assms(2,5)] .
  have v: "valR (get_pkt_hist m) = Inr ph" using assms(3) by simp
  have c: "m_cache (set_pkt_hist x (set_world w m1)) = m_cache m" for x w
    by (simp add: set_pkt_hist_def upd_now_def set_world_def m1)
  obtain w2 where w2: "op_set_nph ops mb (new_pkt # h) w1 = Inr w2"
      "m' = use_injection_results rs (set_pkt_hist (set_node_pkt_hist mb (new_pkt # h) ph) (set_world w2 m1))"
    using assms(1) unfolding inject_packet_def v assms(4,5) bindR_Inr Let_def assms(6,7) prod.case m1
      mk_node_pkt_hist_def c assms(8) option.case bindR_eq_Inr_iff by blast
  have "m_world m' = w2"
    unfolding w2(2) use_injection_results_def
    by (simp add: set_fwd_mode_def set_injection_results_def set_choice_count_def set_pkt_hist_def
        upd_now_def upd_cur_def set_world_def Let_def)
  then show ?thesis using w2(1) rewind_claimed[OF set_nph_claims[OF w1 w2(1)]] by simp
qed

end

section \<open>One emulation for each middlebox\<close>

definition env_ok :: "'d emu_env \<Rightarrow> bool" where
  "env_ok env \<longleftrightarrow> (\<forall>es. es \<noteq> [] \<longrightarrow> ee_begin env es \<in> set es) \<and> (\<forall>mb. ee_docker env mb \<longrightarrow> ee_nodes env mb \<noteq> None)"

definition has_emulation :: "'d emu_world \<Rightarrow> nat \<Rightarrow> nat \<Rightarrow> 'd emulation \<Rightarrow> bool" where
  "has_emulation w mb e em \<longleftrightarrow> ew_heap w e = Some em \<and> em_mb em = mb \<and> mb_emu_map w mb = Some [(em_nph em, [e])]"

definition pool_ok :: "'d emu_env \<Rightarrow> 'd emu_world \<Rightarrow> bool" where
  "pool_ok env w \<longleftrightarrow> distinct (ew_emus w) \<and> dom (ew_heap w) = set (ew_emus w) \<and> (\<forall>e \<in> set (ew_emus w). e < ew_next w)
    \<and> (\<forall>e em. ew_heap w e = Some em \<longrightarrow> has_emulation w (em_mb em) e em \<and> ee_nodes env (em_mb em) \<noteq> None)
    \<and> (\<forall>mb tbl. mb_emu_map w mb = Some tbl \<longrightarrow> (\<exists>e em. has_emulation w mb e em))"

lemma pool_ok_empty: "ew_heap w = Map.empty \<Longrightarrow> ew_emus w = [] \<Longrightarrow> mb_emu_map w = Map.empty \<Longrightarrow> pool_ok env w"
  by (simp add: pool_ok_def)

lemma pool_okD:
  assumes "pool_ok env w"
  shows "ew_heap w e = Some em \<Longrightarrow> mb_emu_map w (em_mb em) = Some [(em_nph em, [e])]"
    and "ew_heap w e = Some em \<Longrightarrow> ee_nodes env (em_mb em) \<noteq> None"
    and "ew_heap w e = Some em \<Longrightarrow> e < ew_next w"
    and "mb_emu_map w mb = Some tbl \<Longrightarrow> \<exists>e em. tbl = [(em_nph em, [e])] \<and> ew_heap w e = Some em \<and> em_mb em = mb"
    and "e \<in> set (ew_emus w) \<longleftrightarrow> (\<exists>em. ew_heap w e = Some em)"
  using assms unfolding pool_ok_def has_emulation_def by (blast, blast, blast, fastforce, blast)

lemma emu_init_form:
  "ee_docker env mb \<Longrightarrow> \<exists>em. emu_init env mb old = Inr em \<and> em_mb em = mb \<and> em_nph em = []"
  by (simp add: emu_init_def teardown_def reset_offsets_def clear_received_def Let_def)

lemma hist_less_irrefl [simp]: "\<not> hist_less env h h"
  by (simp add: hist_less_def nph_less_def)

lemma insert_emu_missing:
  "table_of tbls mb = [] \<Longrightarrow> insert_emu env mb h e tbls = tbls(mb \<mapsto> [(h, [e])])"
  by (simp add: insert_emu_def)

lemma erase_emu_own:
  "tbls mb = Some [(h, [e])] \<Longrightarrow> erase_emu env mb h e tbls = Inr (tbls(mb \<mapsto> []))"
  by (simp add: erase_emu_def table_of_def table_erase_def)

lemma closest_own:
  assumes "env_ok env"
  shows "closest_emu env h [(k, [e])]
    = (if hist_less env h k \<and> \<not> hist_less env k h then Inl Undefined_behaviour else Inr e)"
proof -
  have "ee_begin env [e] = e" using assms by (auto simp: env_ok_def dest: spec[of _ "[e]"])
  then show ?thesis by (auto simp: closest_emu_def begin_of_def Let_def)
qed

text \<open>An emulation that takes over a middlebox without one, leaving the one it had.\<close>

lemma pool_take:
  assumes "pool_ok env w" "ee_nodes env mb \<noteq> None" "mb_emu_map w mb = None" "em_mb em = mb" "em_nph em = []"
    and "case ew_heap w e of None \<Rightarrow> e = ew_next w \<and> emus = e # ew_emus w \<and> nxt = Suc e \<and> tbls = mb_emu_map w
      | Some old \<Rightarrow> emus = ew_emus w \<and> nxt = ew_next w \<and> tbls = (mb_emu_map w)(em_mb old := None)"
  shows "pool_ok env (w\<lparr>ew_heap := (ew_heap w)(e \<mapsto> em), ew_next := nxt, ew_emus := emus,
    mb_emu_map := tbls(mb \<mapsto> [([], [e])])\<rparr>)"
proof -
  note D = pool_okD[OF assms(1)]
  have "distinct (ew_emus w)" "dom (ew_heap w) = set (ew_emus w)" using assms(1) by (auto simp: pool_ok_def)
  then have 1: "distinct emus" "insert e (dom (ew_heap w)) = set emus" "\<forall>e \<in> set emus. e < nxt"
    using assms(6) D(3,5) by (auto split: option.splits simp: less_Suc_eq)
  have other: "em_mb em' \<noteq> mb \<and> tbls (em_mb em') = Some [(em_nph em', [e'])]"
    if "ew_heap w e' = Some em'" "e' \<noteq> e" for e' em'
  proof -
    have "em_mb em' \<noteq> mb" using D(1)[OF that(1)] assms(3) by auto
    moreover have "em_mb em' \<noteq> em_mb old" if o: "ew_heap w e = Some old" for old
      using D(1)[OF o] D(1)[OF \<open>ew_heap w e' = Some em'\<close>] \<open>e' \<noteq> e\<close> by auto
    ultimately show ?thesis using D(1)[OF that(1)] assms(6) by (auto split: option.splits)
  qed
  have covered: "\<exists>e' em'. e' \<noteq> e \<and> ew_heap w e' = Some em' \<and> em_mb em' = mb'"
    if "tbls mb' = Some tbl" for mb' tbl
  proof -
    have "mb_emu_map w mb' = Some tbl" using that assms(6) by (auto split: option.splits if_splits)
    then obtain e' em' where e': "ew_heap w e' = Some em'" "em_mb em' = mb'" using D(4) by blast
    moreover have "e' \<noteq> e" using e' that assms(6) by (auto split: option.splits)
    ultimately show ?thesis by blast
  qed
  let ?w = "w\<lparr>ew_heap := (ew_heap w)(e \<mapsto> em), ew_next := nxt, ew_emus := emus,
    mb_emu_map := tbls(mb \<mapsto> [([], [e])])\<rparr>"
  have own: "has_emulation ?w (em_mb em') e' em' \<and> ee_nodes env (em_mb em') \<noteq> None" if "ew_heap ?w e' = Some em'" for e' em'
    using that other[of e' em'] D(2)[of e' em'] assms(2,4,5) by (cases "e' = e") (auto simp: has_emulation_def)
  have "\<exists>e' em'. has_emulation ?w mb' e' em'" if t: "mb_emu_map ?w mb' = Some tbl" for mb' tbl
  proof (cases "mb' = mb")
    case True
    then show ?thesis using own[of e em] assms(4) by auto
  next
    case False
    then obtain e' em' where "e' \<noteq> e" "ew_heap w e' = Some em'" "em_mb em' = mb'"
      using t covered[of mb' tbl] by auto
    then show ?thesis using own[of e' em'] by auto
  qed
  then show ?thesis using 1 own unfolding pool_ok_def by simp
qed

text \<open>An emulation that stays with its middlebox, at another history.\<close>

lemma pool_move:
  assumes "pool_ok env w" "ew_heap w e = Some em" "em_mb em' = em_mb em"
    and "w' = w\<lparr>ew_heap := (ew_heap w)(e \<mapsto> em'), mb_emu_map := (mb_emu_map w)(em_mb em \<mapsto> [(em_nph em', [e])]),
      mb_emulation := x, ew_timeout := t\<rparr>"
  shows "pool_ok env w'"
proof -
  note D = pool_okD[OF assms(1)]
  have 1: "distinct (ew_emus w)" "insert e (dom (ew_heap w)) = set (ew_emus w)"
    using assms(1,2) by (auto simp: pool_ok_def)
  have other: "em_mb em2 \<noteq> em_mb em" if "ew_heap w e2 = Some em2" "e2 \<noteq> e" for e2 em2
    using D(1)[OF that(1)] D(1)[OF assms(2)] that(2) by auto
  have covered: "\<exists>e2 em2. e2 \<noteq> e \<and> ew_heap w e2 = Some em2 \<and> em_mb em2 = mb"
    if "mb_emu_map w mb = Some tbl" "mb \<noteq> em_mb em" for mb tbl
    using D(4)[OF that(1)] assms(2) that(2) by (metis option.inject)
  have own: "has_emulation w' (em_mb em2) e2 em2 \<and> ee_nodes env (em_mb em2) \<noteq> None" if "ew_heap w' e2 = Some em2" for e2 em2
    using that other[of e2 em2] D(1,2)[of e2 em2] D(2)[OF assms(2)] assms(3) unfolding assms(4)
    by (cases "e2 = e") (auto simp: has_emulation_def)
  have "\<exists>e2 em2. has_emulation w' mb e2 em2" if t: "mb_emu_map w' mb = Some tbl" for mb tbl
  proof (cases "mb = em_mb em")
    case True
    then show ?thesis using own[of e em'] assms(3) unfolding assms(4) by auto
  next
    case False
    then obtain e2 em2 where "e2 \<noteq> e" "ew_heap w e2 = Some em2" "em_mb em2 = mb"
      using t covered[of mb tbl] unfolding assms(4) by auto
    then show ?thesis using own[of e2 em2] unfolding assms(4) by auto
  qed
  moreover have "\<forall>e \<in> set (ew_emus w). e < ew_next w" using D(3,5) by blast
  ultimately show ?thesis using 1 own unfolding pool_ok_def assms(4) by simp
qed

lemma get_emulation_own:
  assumes "pool_ok env w" "env_ok env" "mb_emu_map w mb = Some tbl"
  obtains k e em where "tbl = [(k, [e])]" "ew_heap w e = Some em" "em_mb em = mb" "em_nph em = k"
    "get_emulation env mb h w = (if hist_less env h k \<and> \<not> hist_less env k h then Inl Undefined_behaviour else Inr (e, w))"
proof -
  obtain e em where e: "tbl = [(em_nph em, [e])]" "ew_heap w e = Some em" "em_mb em = mb"
    using pool_okD(4)[OF assms(1,3)] by blast
  have "get_emulation env mb h w = (if hist_less env h (em_nph em) \<and> \<not> hist_less env (em_nph em) h
      then Inl Undefined_behaviour else Inr (e, w))"
    unfolding get_emulation_def assms(3) e(1) option.case closest_own[OF assms(2)] by simp
  then show ?thesis by (rule that[OF e refl])
qed

lemma get_emulation_new:
  assumes "pool_ok env w" "env_ok env" "mb_emu_map w mb = None" "ee_docker env mb" "ew_emus w \<noteq> [] \<or> 0 < max_emu w"
  obtains e w' em where "get_emulation env mb h w = Inr (e, w')" "ew_heap w' e = Some em" "em_mb em = mb"
    "em_nph em = []" "pool_ok env w'" "length (ew_emus w') \<le> max (length (ew_emus w)) (max_emu w)"
    "ew_timeout w' = ew_timeout w" "mb_emulation w' = mb_emulation w" "max_emu w' = max_emu w"
proof (cases "length (ew_emus w) < max_emu w")
  case True
  let ?e = "ew_next w"
  obtain em where i: "emu_init env mb new_emulation = Inr em" "em_mb em = mb" "em_nph em = []"
    using emu_init_form[OF assms(4)] by blast
  have n: "ee_nodes env mb \<noteq> None" using assms(2,4) by (auto simp: env_ok_def)
  have "ew_heap w ?e = None" using pool_okD(3)[OF assms(1), of ?e] by (cases "ew_heap w ?e") auto
  then have "pool_ok env (w\<lparr>ew_heap := (ew_heap w)(?e \<mapsto> em), ew_next := Suc ?e, ew_emus := ?e # ew_emus w,
      mb_emu_map := (mb_emu_map w)(mb \<mapsto> [([], [?e])])\<rparr>)"
    by (intro pool_take[OF assms(1) n assms(3) i(2,3)]) simp
  moreover have "table_of (mb_emu_map w) mb = []" using assms(3) by (simp add: table_of_def)
  ultimately show ?thesis
    using that True i assms(3) by (simp add: get_emulation_def launch_emulation_def insert_emu_missing Let_def)
next
  case False
  let ?e = "ee_begin env (ew_emus w)"
  have ne: "ew_emus w \<noteq> []" using False assms(5) by auto
  then have "?e \<in> set (ew_emus w)" using assms(2) by (simp add: env_ok_def)
  then obtain old where o: "ew_heap w ?e = Some old" using pool_okD(5)[OF assms(1)] by blast
  note m = pool_okD(1)[OF assms(1) o]
  obtain em where i: "emu_init env mb old = Inr em" "em_mb em = mb" "em_nph em = []"
    using emu_init_form[OF assms(4)] by blast
  have n: "ee_nodes env mb \<noteq> None" using assms(2,4) by (auto simp: env_ok_def)
  have p: "pool_ok env (w\<lparr>ew_heap := (ew_heap w)(?e \<mapsto> em), ew_next := ew_next w, ew_emus := ew_emus w,
      mb_emu_map := ((mb_emu_map w)(em_mb old := None))(mb \<mapsto> [([], [?e])])\<rparr>)"
    by (intro pool_take[OF assms(1) n assms(3) i(2,3)]) (simp add: o)
  have er: "erase_emu env (em_mb old) (em_nph old) ?e (mb_emu_map w) = Inr ((mb_emu_map w)(em_mb old \<mapsto> []))"
    by (rule erase_emu_own) (rule m)
  have t: "table_of ((mb_emu_map w)(em_mb old \<mapsto> [])) (em_mb old) = []"
      "table_of ((mb_emu_map w)(em_mb old := None)) mb = []"
    using assms(3) by (simp_all add: table_of_def)
  have u: "(mb_emu_map w)(em_mb old \<mapsto> [], em_mb old := None) = (mb_emu_map w)(em_mb old := None)" by simp
  have "get_emulation env mb h w = Inr (?e, w\<lparr>ew_heap := (ew_heap w)(?e \<mapsto> em),
      mb_emu_map := ((mb_emu_map w)(em_mb old := None))(mb \<mapsto> [([], [?e])])\<rparr>)"
    using False ne unfolding get_emulation_def assms(3) option.case steal_emulation_def derefR_def o Let_def er bindR_Inr i(1)
      if_P[OF t(1)] u insert_emu_missing[OF t(2)] by simp
  then show ?thesis using that p i by simp
qed

lemma rewind_keeps:
  assumes "emu_rewind env h (em, dt) = Inr (n, em', dt')"
  shows "em_mb em' = em_mb em \<and> em_nph em' = em_nph em"
proof (cases "em_nph em = h")
  case True
  then show ?thesis using assms by (auto simp: emu_rewind_def bindR_eq_Inr_iff)
next
  case False
  have "ee_nodes env (em_mb em) \<noteq> None"
    using assms False by (auto simp: emu_rewind_def bindR_eq_Inr_iff derefR_def split: option.splits)
  from assms[unfolded rewind_eq[OF this False[symmetric]]] obtain em1 dt1 where
    "(if h = [] \<or> \<not> nph_contains (em_nph em) h then reset_emulation env em else Inr em) = Inr em1"
    "replay env (get_packets_since (em_nph em) h) (em1, dt) = Inr (em', dt1)"
    by (auto simp: bindR_eq_Inr_iff)
  then show ?thesis using replay_keeps reset_form by (fastforce split: if_splits)
qed

lemma send_times_keeps:
  assumes "send_times env p n rs (em, dt) = Inr (rs', em', dt')"
  shows "em_mb em' = em_mb em \<and> em_nph em' = em_nph em"
  using assms
proof (induction n arbitrary: rs em dt)
  case (Suc n)
  obtain ir em1 dt1 where 1: "emu_send_pkt env p (em, dt) = Inr (ir, em1, dt1)"
      "send_times env p n (results_add (ee_res_adr env) ir rs) (em1, dt1) = Inr (rs', em', dt')"
    using Suc.prems by (auto simp: bindR_eq_Inr_iff)
  then show ?case using Suc.IH[OF 1(2)] send_pkt_keeps[OF 1(1)] by simp
qed simp

lemma get_emulation_ok:
  assumes "pool_ok env w" "env_ok env" "get_emulation env mb h w = Inr (e, w')"
  shows "pool_ok env w' \<and> (\<exists>em. ew_heap w' e = Some em \<and> em_mb em = mb)"
proof (cases "mb_emu_map w mb")
  case None
  have d: "ee_docker env mb"
    using assms(3) None by (auto simp: get_emulation_def launch_emulation_def steal_emulation_def Let_def
        emu_init_def bindR_eq_Inr_iff split: if_splits)
  have "ew_emus w \<noteq> [] \<or> 0 < max_emu w"
    using assms(3) None by (auto simp: get_emulation_def steal_emulation_def assertR_def split: if_splits)
  then show ?thesis
    using get_emulation_new[OF assms(1,2) None d, of h] assms(3) by (metis Pair_inject sum.inject(2))
next
  case (Some tbl)
  then show ?thesis
    using get_emulation_own[OF assms(1,2) Some, of h] assms(1,3)
    by (metis Pair_inject sum.inject(2) sum.distinct(1))
qed

lemma pool_put:
  assumes "pool_ok env w" "ew_heap w e = Some em" "em_mb em' = em_mb em" "em_nph em' = em_nph em"
  shows "pool_ok env (put_emulation e (em', dt) (w\<lparr>mb_emulation := x\<rparr>))"
proof (rule pool_move[OF assms(1-3)])
  have "(mb_emu_map w)(em_mb em \<mapsto> [(em_nph em', [e])]) = mb_emu_map w"
    using pool_okD(1)[OF assms(1,2)] assms(4) by (simp add: fun_upd_idem)
  then show "put_emulation e (em', dt) (w\<lparr>mb_emulation := x\<rparr>) = w\<lparr>ew_heap := (ew_heap w)(e \<mapsto> em'),
      mb_emu_map := (mb_emu_map w)(em_mb em \<mapsto> [(em_nph em', [e])]), mb_emulation := x, ew_timeout := dt\<rparr>"
    by (simp add: put_emulation_def)
qed

lemma mb_rewind_pool:
  assumes "pool_ok env w" "env_ok env" "mb_rewind env mb h w = Inr w'"
  shows "pool_ok env w'"
proof -
  obtain e w1 where 1: "get_emulation env mb h w = Inr (e, w1)"
    using assms(3) unfolding mb_rewind_def by (elim bindR_okE) fastforce
  obtain em where em: "ew_heap w1 e = Some em" "em_mb em = mb" and ok: "pool_ok env w1"
    using get_emulation_ok[OF assms(1,2) 1] by blast
  obtain n em' dt' where 2: "emu_rewind env h (em, ew_timeout w1) = Inr (n, em', dt')"
      "w' = put_emulation e (em', dt') (w1\<lparr>mb_emulation := (mb_emulation w1)(mb \<mapsto> e)\<rparr>)"
    using assms(3) em(1) unfolding mb_rewind_def 1 by (auto simp: bindR_eq_Inr_iff derefR_def)
  then show ?thesis using pool_put[OF ok em(1)] rewind_keeps[OF 2(1)] by simp
qed

lemma own_emulation_form:
  assumes "own_emulation mb w = Inr e"
  obtains em where "mb_emulation w mb = Some e" "ew_heap w e = Some em" "em_mb em = mb"
  using assms by (auto simp: own_emulation_def bindR_eq_Inr_iff derefR_def split: option.splits)

lemma set_nph_form:
  assumes "pool_ok env w" "mb_set_node_pkt_hist env mb h w = Inr w'"
  obtains e em where "mb_emulation w mb = Some e" "ew_heap w e = Some em" "em_mb em = mb"
    "w' = w\<lparr>ew_heap := (ew_heap w)(e \<mapsto> em\<lparr>em_nph := h\<rparr>), mb_emu_map := (mb_emu_map w)(mb \<mapsto> [(h, [e])])\<rparr>"
proof -
  obtain e where e: "own_emulation mb w = Inr e" "update_node_pkt_hist env e h w = Inr w'"
    using assms(2) unfolding mb_set_node_pkt_hist_def by (elim bindR_okE)
  obtain em where em: "mb_emulation w mb = Some e" "ew_heap w e = Some em" "em_mb em = mb"
    using own_emulation_form[OF e(1)] by blast
  have m: "mb_emu_map w mb = Some [(em_nph em, [e])]" using pool_okD(1)[OF assms(1) em(2)] em(3) by simp
  have t: "table_of ((mb_emu_map w)(mb \<mapsto> [])) mb = []" by (simp add: table_of_def)
  have er: "erase_emu env mb (em_nph em) e (mb_emu_map w) = Inr ((mb_emu_map w)(mb \<mapsto> []))"
    by (rule erase_emu_own) (rule m)
  have "w' = w\<lparr>ew_heap := (ew_heap w)(e \<mapsto> em\<lparr>em_nph := h\<rparr>), mb_emu_map := (mb_emu_map w)(mb \<mapsto> [(h, [e])])\<rparr>"
  proof -
    have "update_node_pkt_hist env e h w = Inr (w\<lparr>mb_emu_map := ((mb_emu_map w)(mb \<mapsto> []))(mb \<mapsto> [(h, [e])]),
        ew_heap := (ew_heap w)(e \<mapsto> em\<lparr>em_nph := h\<rparr>)\<rparr>)"
      unfolding update_node_pkt_hist_def derefR_def em(2,3) option.case bindR_Inr Let_def er insert_emu_missing[OF t] ..
    then show ?thesis unfolding e(2) by simp
  qed
  then show ?thesis using that em by blast
qed

lemma set_nph_pool:
  assumes "pool_ok env w" "mb_set_node_pkt_hist env mb h w = Inr w'"
  shows "pool_ok env w'"
proof -
  obtain e em where "mb_emulation w mb = Some e" and em: "ew_heap w e = Some em" "em_mb em = mb"
    and w': "w' = w\<lparr>ew_heap := (ew_heap w)(e \<mapsto> em\<lparr>em_nph := h\<rparr>), mb_emu_map := (mb_emu_map w)(mb \<mapsto> [(h, [e])])\<rparr>"
    using set_nph_form[OF assms] by blast
  show ?thesis
    using em(2) by (intro pool_move[OF assms(1) em(1), where em' = "em\<lparr>em_nph := h\<rparr>" and x = "mb_emulation w" and t = "ew_timeout w"])
      (simp_all add: w')
qed

lemma mb_send_pool:
  assumes "pool_ok env w" "mb_send_pkt env mb p w = Inr (rs, w')"
  shows "pool_ok env w'"
proof -
  obtain e times em s where 1: "own_emulation mb w = Inr e" "ew_heap w e = Some em"
      "send_times env p (nat times) [] (em, ew_timeout w) = Inr (rs, s)" "w' = put_emulation e s w"
    using assms(2) unfolding mb_send_pkt_def by (auto simp: bindR_eq_Inr_iff derefR_def split: option.splits)
  obtain em' dt' where s: "s = (em', dt')" by fastforce
  show ?thesis
    using pool_put[OF assms(1) 1(2), of em' dt' "mb_emulation w"] send_times_keeps[OF 1(3)[unfolded s]] 1(4) s by simp
qed

text \<open>C14. The pool never duplicates an emulation. It is an invariant of the pool that each middlebox
  has at most one emulation, filed under exactly the packet history this emulation has, and that
  each emulation belongs to one middlebox: rewinding a middlebox, giving it a history and sending a
  packet to it keep this. The pool the program starts with, without emulations, satisfies it
  (\<open>pool_ok_empty\<close>).\<close>

theorem one_emulation_per_middlebox:
  assumes "env_ok env" "pool_ok env w"
    and "mb_rewind env mb h w = Inr w' \<or> mb_set_node_pkt_hist env mb h w = Inr w'
      \<or> mb_send_pkt env mb p w = Inr (rs, w')"
  shows "pool_ok env w'"
  using assms mb_rewind_pool set_nph_pool mb_send_pool by blast

text \<open>C15. A middlebox always finds an emulation, its own, a new one or one taken from another
  middlebox, and no more emulations are launched than allowed; the one exception is an own
  emulation whose history is ordered after the one asked for, for which the search steps before the
  first entry of the map.\<close>

theorem get_emulation_spec:
  assumes "env_ok env" "pool_ok env w" "ee_docker env mb" "0 < max_emu w"
  shows "(if \<exists>k e. mb_emu_map w mb = Some [(k, [e])] \<and> hist_less env h k \<and> \<not> hist_less env k h
    then get_emulation env mb h w = Inl Undefined_behaviour
    else \<exists>e w' em. get_emulation env mb h w = Inr (e, w') \<and> pool_ok env w' \<and> ew_heap w' e = Some em
      \<and> em_mb em = mb \<and> length (ew_emus w') \<le> max (length (ew_emus w)) (max_emu w)
      \<and> (\<forall>tbl. mb_emu_map w mb = Some tbl \<longrightarrow> w' = w))"
proof (cases "mb_emu_map w mb")
  case None
  have "ew_emus w \<noteq> [] \<or> 0 < max_emu w" using assms(4) by simp
  from get_emulation_new[OF assms(2,1) None assms(3) this, of h] None show ?thesis by (metis option.distinct(1))
next
  case (Some tbl)
  obtain k e em where "tbl = [(k, [e])]" "ew_heap w e = Some em" "em_mb em = mb" "em_nph em = k"
    and "get_emulation env mb h w = (if hist_less env h k \<and> \<not> hist_less env k h then Inl Undefined_behaviour else Inr (e, w))"
    using get_emulation_own[OF assms(2,1) Some, of h] by blast
  then show ?thesis using Some assms(2) by auto
qed

text \<open>What a middlebox claims: its emulation is there, its own and filed under the history.\<close>

definition claims_history :: "'d emu_env \<Rightarrow> 'd emu_world \<Rightarrow> nat \<Rightarrow> node_pkt_hist \<Rightarrow> bool" where
  "claims_history env w mb h \<longleftrightarrow> env_ok env \<and> ee_nodes env mb \<noteq> None
    \<and> (\<exists>e em. mb_emulation w mb = Some e \<and> has_emulation w mb e em \<and> em_nph em = h)"

lemma rewind_up_to_date:
  assumes "claims_history env w mb h"
  shows "mb_rewind env mb h w = Inr w"
proof -
  obtain e em where e: "mb_emulation w mb = Some e" "ew_heap w e = Some em" "em_mb em = mb"
      "mb_emu_map w mb = Some [(h, [e])]" "em_nph em = h" and ok: "env_ok env"
    using assms by (auto simp: claims_history_def has_emulation_def)
  obtain nd where nd: "ee_nodes env mb = Some nd" using assms by (auto simp: claims_history_def)
  have g: "get_emulation env mb h w = Inr (e, w)"
    unfolding get_emulation_def e(4) option.case closest_own[OF ok] by simp
  have u: "(mb_emulation w)(mb \<mapsto> e) = mb_emulation w" "(ew_heap w)(e \<mapsto> em) = ew_heap w"
    using e by (simp_all add: fun_upd_idem)
  have r: "emu_rewind env h (em, t) = Inr (-1, em, t)" for t
    by (simp add: emu_rewind_def e(3,5) derefR_def nd)
  show ?thesis
    unfolding mb_rewind_def g bindR_Inr prod.case Let_def u
    by (simp add: derefR_def e(2) r put_emulation_def u)
qed

interpretation emulated: claiming_middleboxes "middlebox_ops env" "claims_history env"
  "\<lambda>w. env_ok env \<and> pool_ok env w" for env
proof unfold_locales
  show "env_ok env \<and> pool_ok env w'"
    if "env_ok env \<and> pool_ok env w" "op_rewind (middlebox_ops env) mb h w = Inr w'" for w mb h w'
    using that mb_rewind_pool by (simp add: middlebox_ops_def) blast
  show "claims_history env w' mb h"
    if "env_ok env \<and> pool_ok env w" "op_set_nph (middlebox_ops env) mb h w = Inr w'" for w mb h w'
  proof -
    have s: "mb_set_node_pkt_hist env mb h w = Inr w'" using that(2) by (simp add: middlebox_ops_def)
    have ok: "pool_ok env w" using that(1) by simp
    obtain e em where "mb_emulation w mb = Some e" "ew_heap w e = Some em" "em_mb em = mb"
      and "w' = w\<lparr>ew_heap := (ew_heap w)(e \<mapsto> em\<lparr>em_nph := h\<rparr>), mb_emu_map := (mb_emu_map w)(mb \<mapsto> [(h, [e])])\<rparr>"
      using set_nph_form[OF ok s] by blast
    then show ?thesis using that(1) pool_okD(2)[OF ok] by (auto simp: claims_history_def has_emulation_def)
  qed
  show "op_rewind (middlebox_ops env) mb h w = Inr w" if "claims_history env w mb h" for w mb h
    using rewind_up_to_date[OF that] by (simp add: middlebox_ops_def)
qed

text \<open>C5. A cached injection result corrupts the emulation. The packet enters the history of the
  middlebox and of its emulation, but nobody sends it: the container behind the emulation is in the
  state before the packet. The next injection at the middlebox finds the emulation up to date, and
  sends its packet to a container that never saw the previous one.\<close>

theorem cached_injection_skips_packet:
  assumes "env_ok env" "pool_ok env (m_world m)"
    and "inject_packet (middlebox_ops env) mb m = Inr m'"
    and "get_pkt_hist m = Some ph" "get_node_pkt_hist ph mb = Inr h"
    and "mb_rewind env mb h (m_world m) = Inr w1" "packet_of_model (set_world w1 m) = Inr p"
    and "store_packet p (set_world w1 m) = (new_pkt, m1)"
    and "cache_get (m_cache m) mb (new_pkt # h) = Some rs"
  shows "\<exists>e em em'. mb_emulation w1 mb = Some e \<and> ew_heap w1 e = Some em \<and> ew_heap (m_world m') e = Some em'
    \<and> em_driver em' = em_driver em \<and> em_nph em' = new_pkt # h
    \<and> mb_rewind env mb (new_pkt # h) (m_world m') = Inr (m_world m')"
proof -
  have r: "op_rewind (middlebox_ops env) mb h (m_world m) = Inr w1" using assms(6) by (simp add: middlebox_ops_def)
  have s: "mb_set_node_pkt_hist env mb (new_pkt # h) w1 = Inr (m_world m')"
    and up: "mb_rewind env mb (new_pkt # h) (m_world m') = Inr (m_world m')"
    using emulated.cached_injection[OF assms(3) conjI[OF assms(1,2)] assms(4,5) r assms(7-9)]
    by (simp_all add: middlebox_ops_def)
  obtain e em where e: "mb_emulation w1 mb = Some e" "ew_heap w1 e = Some em"
    and w: "m_world m' = w1\<lparr>ew_heap := (ew_heap w1)(e \<mapsto> em\<lparr>em_nph := new_pkt # h\<rparr>),
      mb_emu_map := (mb_emu_map w1)(mb \<mapsto> [(new_pkt # h, [e])])\<rparr>"
    using set_nph_form[OF mb_rewind_pool[OF assms(2,1,6)] s] by blast
  have "ew_heap (m_world m') e = Some (em\<lparr>em_nph := new_pkt # h\<rparr>)" unfolding w by simp
  then have "ew_heap (m_world m') e = Some (em\<lparr>em_nph := new_pkt # h\<rparr>)
    \<and> em_driver (em\<lparr>em_nph := new_pkt # h\<rparr>) = em_driver em" by simp
  then show ?thesis using up e by auto
qed

text \<open>A pool with the emulation of one middlebox, at address 5, which has sent the packets of a
  history.\<close>

definition sample_pool :: "node_pkt_hist \<Rightarrow> packet list emu_world" where
  "sample_pool h = \<lparr>ew_heap = [5 \<mapsto> at_history h h], ew_next = 6, max_emu = 1, ew_emus = [5],
     mb_emu_map = [1 \<mapsto> [(h, [5])]], mb_emulation = [1 \<mapsto> 5], ew_timeout = dt_reset\<rparr>"

lemma sample_env_ok: "env_ok sample_env" "ee_docker sample_env 1" "ee_docker sample_env 2"
  by (simp_all add: env_ok_def sample_env_def)

lemma sample_pool_ok: "pool_ok sample_env (sample_pool h)"
  by (auto simp: pool_ok_def has_emulation_def sample_pool_def at_history_def sample_env_def split: if_splits)

lemma sample_set_nph:
  "\<exists>w'. mb_set_node_pkt_hist sample_env 1 h (sample_pool []) = Inr w' \<and> mb_emu_map w' 1 = Some [(h, [5])]"
proof -
  have o: "own_emulation 1 (sample_pool []) = Inr 5"
    by (simp add: own_emulation_def sample_pool_def at_history_def derefR_def)
  have e: "erase_emu sample_env 1 [] 5 (mb_emu_map (sample_pool [])) = Inr ((mb_emu_map (sample_pool []))(1 \<mapsto> []))"
    by (rule erase_emu_own) (simp add: sample_pool_def)
  have t: "table_of ((mb_emu_map (sample_pool []))(1 \<mapsto> [])) 1 = []" by (simp add: table_of_def)
  have h: "derefR (ew_heap (sample_pool [])) 5 = Inr (at_history [] [])" "em_mb (at_history [] []) = 1"
      "em_nph (at_history [] []) = []"
    by (simp_all add: sample_pool_def at_history_def derefR_def)
  show ?thesis
    unfolding mb_set_node_pkt_hist_def o bindR_Inr update_node_pkt_hist_def h Let_def e insert_emu_missing[OF t] by simp
qed

theorem one_emulation_per_middlebox_witness:
  "\<exists>w'. mb_set_node_pkt_hist sample_env 1 [sample_probe 1] (sample_pool []) = Inr w'
    \<and> pool_ok sample_env w' \<and> mb_emu_map w' 1 = Some [([sample_probe 1], [5])]"
  using sample_set_nph one_emulation_per_middlebox[OF sample_env_ok(1) sample_pool_ok disjI2[OF disjI1]] by meson

theorem get_emulation_spec_witness:
  "get_emulation sample_env 1 [] (sample_pool [sample_probe 1]) = Inl Undefined_behaviour
    \<and> (\<exists>e w' em. get_emulation sample_env 2 [] (sample_pool []) = Inr (e, w') \<and> pool_ok sample_env w'
      \<and> ew_heap w' e = Some em \<and> em_mb em = 2)"
proof -
  have "mb_emu_map (sample_pool [sample_probe 1]) 1 = Some [([sample_probe 1], [5])]"
      "mb_emu_map (sample_pool []) 2 = None"
      "hist_less sample_env [] [sample_probe 1]" "\<not> hist_less sample_env [sample_probe 1] []"
      "0 < max_emu (sample_pool h)" for h
    by (simp_all add: sample_pool_def hist_less_def nph_less_def)
  then show ?thesis
    using get_emulation_spec[OF sample_env_ok(1) sample_pool_ok sample_env_ok(2), of "[sample_probe 1]" "[]"]
      get_emulation_spec[OF sample_env_ok(1) sample_pool_ok sample_env_ok(3), of "[]" "[]"]
    by auto
qed

text \<open>A state in which the result of the next injection is cached.\<close>

definition with_world :: "'v \<Rightarrow> 'w model \<Rightarrow> 'v model" where
  "with_world w m = \<lparr>m_now = m_now m, m_net = m_net m, m_updates = m_updates m, m_ecs = m_ecs m,
     m_pl_map = m_pl_map m, m_pkts = m_pkts m, m_cache = m_cache m, m_world = w\<rparr>"

definition sample_cached :: "packet \<Rightarrow> packet list emu_world model" where
  "sample_cached p = with_world (sample_pool []) (sample_model\<lparr>m_cache := cache_insert 1 [p] [] (\<lambda>_. Map.empty),
     m_now := sample_now\<lparr>now_pkt_hist := Some [1 \<mapsto> []]\<rparr>\<rparr>)"

theorem cached_injection_skips_packet_witness:
  "\<exists>p m' em'. packet_of_model (sample_cached p) = Inr p
    \<and> inject_packet (middlebox_ops sample_env) 1 (sample_cached p) = Inr m'
    \<and> ew_heap (m_world m') 5 = Some em' \<and> em_driver em' = Some [] \<and> em_nph em' = [p]"
proof -
  obtain p where p: "packet_of_model sample_model = Inr p"
  proof -
    have "is_ok (packet_of_model sample_model)" by code_simp
    then show ?thesis using that by (auto simp: is_ok_iff)
  qed
  have same: "packet_of_model (sample_cached q) = packet_of_model sample_model" for q
    by (simp add: packet_of_model_def ec_addr_def sample_cached_def with_world_def sample_model_def sample_now_def
        model_defs)
  let ?m = "sample_cached p"
  have w: "m_world ?m = sample_pool []" "set_world (sample_pool []) ?m = ?m"
    by (simp_all add: sample_cached_def with_world_def set_world_def)
  have h: "get_pkt_hist ?m = Some [1 \<mapsto> []]" "get_node_pkt_hist [1 \<mapsto> []] 1 = Inr []"
    by (simp_all add: sample_cached_def with_world_def get_pkt_hist_def get_node_pkt_hist_def)
  have c: "claims_history sample_env (sample_pool []) 1 []"
    unfolding claims_history_def using sample_env_ok(1)
    by (auto simp: sample_env_def sample_pool_def has_emulation_def at_history_def)
  have r: "mb_rewind sample_env 1 [] (m_world ?m) = Inr (sample_pool [])" unfolding w by (rule rewind_up_to_date[OF c])
  have s: "store_packet p (set_world (sample_pool []) ?m) = (p, ?m\<lparr>m_pkts := [p]\<rparr>)"
    unfolding w by (simp add: store_packet_def sample_cached_def with_world_def sample_model_def)
  have k: "cache_get (m_cache ?m) 1 (p # []) = Some []"
    by (simp add: cache_get_def cache_insert_def sample_cached_def with_world_def)
  obtain w2 where w2: "mb_set_node_pkt_hist sample_env 1 [p] (sample_pool []) = Inr w2"
    using sample_set_nph by blast
  have ops: "op_rewind (middlebox_ops sample_env) = mb_rewind sample_env"
      "op_set_nph (middlebox_ops sample_env) = mb_set_node_pkt_hist sample_env"
    by (simp_all add: middlebox_ops_def)
  have k': "cache_get (m_cache (set_pkt_hist x (set_world y (?m\<lparr>m_pkts := z\<rparr>)))) 1 [p] = Some []" for x y z
    using k by (simp add: set_pkt_hist_def upd_now_def set_world_def)
  have m: "m_world (?m\<lparr>m_pkts := [p]\<rparr>) = sample_pool []" using w(1) by simp
  obtain m' where m': "inject_packet (middlebox_ops sample_env) 1 ?m = Inr m'"
    unfolding inject_packet_def ops h(1) valR_simps bindR_Inr h(2) r Let_def w(2) same p s[unfolded w(2)]
      prod.case mk_node_pkt_hist_def m w2 k' option.case by blast
  have p1: "packet_of_model (set_world (sample_pool []) ?m) = Inr p" unfolding w(2) same by (rule p)
  obtain e em em' where "mb_emulation (sample_pool []) 1 = Some e" "ew_heap (sample_pool []) e = Some em"
      "ew_heap (m_world m') e = Some em'" "em_driver em' = em_driver em" "em_nph em' = [p]"
    using cached_injection_skips_packet[OF sample_env_ok(1) _ m' h r p1 s k] sample_pool_ok w(1) by metis
  then have "ew_heap (m_world m') 5 = Some em' \<and> em_driver em' = Some [] \<and> em_nph em' = [p]"
    by (auto simp: sample_pool_def at_history_def split: if_splits)
  moreover have "packet_of_model (sample_cached p) = Inr p" using p same by simp
  ultimately show ?thesis using m' by blast
qed

end
