(* ===== verification/InitialEcs.thy ===== *)
theory InitialEcs
  imports Openflow
begin

text \<open>
  \<open>EqClassMgr::compute_initial_ecs\<close> (\<open>src/eqclassmgr.cpp\<close>) over the network and the OpenFlow
  updates, and what the classes are for: the composition of the class manager, the routing
  tables and the next hop computation of nodes. Every operation that builds the initial classes
  is shown to cut the manager along a set of addresses (\<open>cutting\<close>), which composes along the
  loops; then two addresses of one class cannot be told apart by any lookup of any node.
\<close>

section \<open>Initial classes\<close>

text \<open>The values of the random engine are the sequence \<open>draws\<close>; the loop may not end.\<close>

partial_function (option) draw_port :: "(nat \<Rightarrow> 16 word) \<Rightarrow> 16 word list \<Rightarrow> nat \<Rightarrow> 16 word option"
where
  "draw_port draws ports i =
     (let port = draws i in if port \<in> set ports then draw_port draws ports (Suc i) else Some port)"

definition add_node_ecs ::
    "(nat list \<Rightarrow> nat) \<Rightarrow> net_heap \<Rightarrow> string \<times> nat \<Rightarrow> eqclassmgr \<Rightarrow> eqclassmgr result" where
  "add_node_ecs alloc h nd m =
     bindR (derefR (node_heap h) (snd nd)) (\<lambda>nd.
     bindR (foldR (\<lambda>(a, _). add_ec_addr alloc a True) (nd_intfs_l3 nd) m)
       (foldR (\<lambda>r. add_ec_net alloc (rt_network r)) (nd_rib nd)))"

definition add_middlebox_ecs ::
    "(nat list \<Rightarrow> nat) \<Rightarrow> net_heap \<Rightarrow> nat \<Rightarrow> eqclassmgr \<Rightarrow> eqclassmgr result" where
  "add_middlebox_ecs alloc h mb m =
     bindR (derefR (node_heap h) mb) (\<lambda>nd.
     case nd_middlebox nd of
       None \<Rightarrow> Inl Undefined_behaviour
     | Some conf \<Rightarrow>
         bindR (foldR (add_ec_net alloc) (ec_ip_prefixes conf) m) (\<lambda>m.
         bindR (foldR (\<lambda>a. add_ec_addr alloc a False) (ec_ip_addrs conf) m) (\<lambda>m.
         Inr (m\<lparr>mgr_ports := fold oset_insert (ec_ports conf) (mgr_ports m)\<rparr>))))"

definition add_initial ::
    "(nat list \<Rightarrow> nat) \<Rightarrow> network \<Rightarrow> updates \<Rightarrow> eqclassmgr \<Rightarrow> eqclassmgr result" where
  "add_initial alloc nw updates m =
     bindR (foldR (add_node_ecs alloc (net_objs nw)) (net_nodes nw) m) (\<lambda>m.
     bindR (foldR (\<lambda>(_, rs). foldR (\<lambda>r. add_ec_net alloc (rt_network r)) rs) updates m)
       (foldR (add_middlebox_ecs alloc (net_objs nw)) (net_mbs nw)))"

text \<open>The result is \<open>None\<close> when every drawn port is a port already.\<close>

definition compute_initial_ecs ::
    "(nat list \<Rightarrow> nat) \<Rightarrow> (nat \<Rightarrow> 16 word) \<Rightarrow> network \<Rightarrow> updates \<Rightarrow> eqclassmgr \<Rightarrow> eqclassmgr result option"
where
  "compute_initial_ecs alloc draws nw updates m =
     (case add_initial alloc nw updates m of
        Inl e \<Rightarrow> Some (Inl e)
      | Inr m' \<Rightarrow>
          (case draw_port draws (mgr_ports m') 0 of
             None \<Rightarrow> None
           | Some port \<Rightarrow> Some (Inr (m'\<lparr>mgr_ports := oset_insert port (mgr_ports m')\<rparr>))))"

section \<open>The manager cut along networks and addresses\<close>

text \<open>\<open>cuts Rs Ws Ps m m'\<close>: \<open>m'\<close> is a manager cut along the sets \<open>Rs\<close>, whose addresses \<open>Ws\<close>
  are owned, and along everything that \<open>m\<close> is, with the ports \<open>Ps\<close> added.\<close>

definition cuts ::
    "ipv4 set set \<Rightarrow> ipv4 set \<Rightarrow> 16 word set \<Rightarrow> eqclassmgr \<Rightarrow> eqclassmgr \<Rightarrow> bool" where
  "cuts Rs Ws Ps m m' \<longleftrightarrow> ecmgr_ok m' \<and> (\<forall>R \<in> Rs. split_by m' R) \<and> (\<forall>S. split_by m S \<longrightarrow> split_by m' S)
     \<and> Ws \<subseteq> owned_addrs m' \<and> owned_addrs m \<subseteq> owned_addrs m'
     \<and> oset (mgr_ports m') \<and> set (mgr_ports m') = set (mgr_ports m) \<union> Ps"

definition cutting ::
    "ipv4 set set \<Rightarrow> ipv4 set \<Rightarrow> 16 word set \<Rightarrow> (eqclassmgr \<Rightarrow> eqclassmgr result) \<Rightarrow> bool" where
  "cutting Rs Ws Ps f \<longleftrightarrow>
     (\<forall>m. ecmgr_ok m \<longrightarrow> oset (mgr_ports m) \<longrightarrow> (\<exists>m'. f m = Inr m' \<and> cuts Rs Ws Ps m m'))"

lemma cutting_bind:
  assumes "cutting R1 W1 P1 f" and "cutting R2 W2 P2 g"
  shows "cutting (R1 \<union> R2) (W1 \<union> W2) (P1 \<union> P2) (\<lambda>m. bindR (f m) g)"
  unfolding cutting_def
proof (intro allI impI)
  fix m assume m: "ecmgr_ok m" "oset (mgr_ports m)"
  obtain m1 where m1: "f m = Inr m1" "cuts R1 W1 P1 m m1"
    using assms(1) m by (auto simp: cutting_def)
  then obtain m2 where m2: "g m1 = Inr m2" "cuts R2 W2 P2 m1 m2"
    using assms(2) by (auto simp: cutting_def cuts_def)
  have "cuts (R1 \<union> R2) (W1 \<union> W2) (P1 \<union> P2) m m2"
    using m1(2) m2(2) unfolding cuts_def by blast
  then show "\<exists>m'. bindR (f m) g = Inr m' \<and> cuts (R1 \<union> R2) (W1 \<union> W2) (P1 \<union> P2) m m'"
    using m1 m2 by auto
qed

lemma cutting_Inr: "cutting {} {} {} Inr"
  by (simp add: cutting_def cuts_def)

lemma cutting_foldR:
  assumes "\<And>x. x \<in> set xs \<Longrightarrow> cutting (R x) (W x) (P x) (f x)"
  shows "cutting (\<Union>x \<in> set xs. R x) (\<Union>x \<in> set xs. W x) (\<Union>x \<in> set xs. P x) (foldR f xs)"
  using assms
proof (induction xs)
  case Nil
  then show ?case using cutting_Inr by (simp add: cutting_def)
next
  case (Cons x xs)
  from cutting_bind[OF Cons.prems[of x] Cons.IH] Cons.prems
  show ?case by (simp add: cutting_def)
qed

lemma oset_fold_insert:
  "oset acc \<Longrightarrow> oset (fold oset_insert xs acc) \<and> set (fold oset_insert xs acc) = set acc \<union> set xs"
  by (induction xs arbitrary: acc) auto

lemma cutting_ports:
  "cutting {} {} (set ps) (\<lambda>m. Inr (m\<lparr>mgr_ports := fold oset_insert ps (mgr_ports m)\<rparr>))"
proof -
  have "ecmgr_ok (m\<lparr>mgr_ports := p\<rparr>) \<longleftrightarrow> ecmgr_ok m"
    and "split_by (m\<lparr>mgr_ports := p\<rparr>) S \<longleftrightarrow> split_by m S"
    and "owned_addrs (m\<lparr>mgr_ports := p\<rparr>) = owned_addrs m" for m p S
    by (simp_all add: ecmgr_ok_def class_ok_def split_by_def covered_def same_ec_def owns_def
      owned_addrs_def)
  then show ?thesis by (simp add: cutting_def cuts_def oset_fold_insert)
qed

lemma cutting_add_ec:
  assumes "fresh_alloc alloc" and "range_ok rng"
  shows "cutting {addrs rng} (if owned then addrs rng else {}) {} (add_ec alloc rng owned)"
  unfolding cutting_def
proof (intro allI impI)
  fix m assume m: "ecmgr_ok m" "oset (mgr_ports m)"
  obtain m' where m': "add_ec alloc rng owned m = Inr m'" "ecmgr_ok m'"
      "ec_abs m' = spec_add_ec (addrs rng) owned (ec_abs m)" "mgr_ports m' = mgr_ports m"
    using add_ec_contract[OF m(1) assms] by blast
  note sp = add_ec_split[OF m'(3)]
  have "owned_addrs m' = (if owned then owned_addrs m \<union> addrs rng else owned_addrs m)"
    using m'(3) by (simp add: ec_abs_def spec_add_ec_def)
  then have "cuts {addrs rng} (if owned then addrs rng else {}) {} m m'"
    using m'(2,4) m(2) sp by (auto simp: cuts_def)
  then show "\<exists>m'. add_ec alloc rng owned m = Inr m'
      \<and> cuts {addrs rng} (if owned then addrs rng else {}) {} m m'"
    using m'(1) by blast
qed

lemma range_ok_network:
  assumes "valid_network n"
  shows "range_ok (ecrange_of_network n)"
proof -
  have "unat (ip_value n) \<le> unat (broadcast_addr n)"
    unfolding unat_broadcast[OF assms] by (rule le_add1)
  then show ?thesis
    by (simp add: range_ok_def ecrange_of_network_def network_addr_def word_le_nat_alt)
qed

lemma cutting_net:
  assumes "fresh_alloc alloc" and "valid_network n"
  shows "cutting {net_addrs n} {} {} (add_ec_net alloc n)"
  using cutting_add_ec[OF assms(1) range_ok_network[OF assms(2)], of False]
  by (simp add: net_addrs_range add_ec_net_def[abs_def])

lemma cutting_addr:
  assumes "fresh_alloc alloc"
  shows "cutting {{a}} (if owned then {a} else {}) {} (add_ec_addr alloc a owned)"
proof -
  let ?r = "\<lparr>r_lb = a, r_ub = a, ec_ptr = 0\<rparr> :: ecrange"
  have "addrs ?r = {a}" by (auto simp: addrs_def range_contains_def)
  moreover have "add_ec_addr alloc a owned = add_ec alloc ?r owned"
    by (simp add: fun_eq_iff add_ec_addr_def new_ecrange_def mk_range_def)
  ultimately show ?thesis using cutting_add_ec[OF assms, of ?r owned]
    by (cases owned) (simp_all add: range_ok_def)
qed

section \<open>What the initial classes separate\<close>

definition node_nets :: "node \<Rightarrow> ip_network set" where
  "node_nets nd = rt_network ` set (nd_rib nd)"

definition l3_addrs :: "node \<Rightarrow> ipv4 set" where
  "l3_addrs nd = fst ` set (nd_intfs_l3 nd)"

text \<open>The nodes and middleboxes are in the heap, middleboxes have their configuration, and every
  network is valid.\<close>

definition nets_wf :: "network \<Rightarrow> updates \<Rightarrow> bool" where
  "nets_wf nw updates \<longleftrightarrow>
     (\<forall>n \<in> snd ` set (net_nodes nw). \<exists>nd. node_heap (net_objs nw) n = Some nd
        \<and> (\<forall>x \<in> node_nets nd. valid_network x))
     \<and> (\<forall>(n, rs) \<in> set updates. \<forall>r \<in> set rs. valid_network (rt_network r))
     \<and> (\<forall>mb \<in> set (net_mbs nw). \<exists>nd conf. node_heap (net_objs nw) mb = Some nd
        \<and> nd_middlebox nd = Some conf \<and> (\<forall>x \<in> set (ec_ip_prefixes conf). valid_network x))"

definition nodes_of :: "network \<Rightarrow> node set" where
  "nodes_of nw = {nd. \<exists>n \<in> snd ` set (net_nodes nw). node_heap (net_objs nw) n = Some nd}"

definition mbs_of :: "network \<Rightarrow> middlebox_conf set" where
  "mbs_of nw = {conf. \<exists>n \<in> set (net_mbs nw). \<exists>nd. node_heap (net_objs nw) n = Some nd
     \<and> nd_middlebox nd = Some conf}"

lemma cutting_node:
  assumes "fresh_alloc alloc" and "node_heap h (snd p) = Some nd"
    and "\<forall>x \<in> node_nets nd. valid_network x"
  shows "cutting ((\<lambda>a. {a}) ` l3_addrs nd \<union> net_addrs ` node_nets nd) (l3_addrs nd) {}
     (add_node_ecs alloc h p)"
proof -
  have 1: "cutting (\<Union>x \<in> set (nd_intfs_l3 nd). {{fst x}}) (\<Union>x \<in> set (nd_intfs_l3 nd). {fst x})
      (\<Union>x \<in> set (nd_intfs_l3 nd). {}) (foldR (\<lambda>(a, _). add_ec_addr alloc a True) (nd_intfs_l3 nd))"
  proof (rule cutting_foldR)
    fix x :: "ipv4 \<times> nat"
    show "cutting {{fst x}} {fst x} {} (case x of (a, _) \<Rightarrow> add_ec_addr alloc a True)"
      using cutting_addr[OF assms(1), of "fst x" True] by (simp add: case_prod_beta)
  qed
  have 2: "cutting (\<Union>r \<in> set (nd_rib nd). {net_addrs (rt_network r)}) (\<Union>r \<in> set (nd_rib nd). {})
      (\<Union>r \<in> set (nd_rib nd). {}) (foldR (\<lambda>r. add_ec_net alloc (rt_network r)) (nd_rib nd))"
    by (rule cutting_foldR) (use cutting_net[OF assms(1)] assms(3) in \<open>auto simp: node_nets_def\<close>)
  have "(\<Union>x \<in> set (nd_intfs_l3 nd). {{fst x}}) \<union> (\<Union>r \<in> set (nd_rib nd). {net_addrs (rt_network r)})
      = (\<lambda>a. {a}) ` l3_addrs nd \<union> net_addrs ` node_nets nd"
    by (auto simp: l3_addrs_def node_nets_def)
  moreover have "(\<Union>x \<in> set (nd_intfs_l3 nd). {fst x}) = l3_addrs nd" by (auto simp: l3_addrs_def)
  moreover have "add_node_ecs alloc h p = (\<lambda>m. bindR (foldR (\<lambda>(a, _). add_ec_addr alloc a True)
      (nd_intfs_l3 nd) m) (foldR (\<lambda>r. add_ec_net alloc (rt_network r)) (nd_rib nd)))"
    by (simp add: fun_eq_iff add_node_ecs_def derefR_def assms(2))
  ultimately show ?thesis using cutting_bind[OF 1 2] by simp
qed

lemma cutting_middlebox:
  assumes "fresh_alloc alloc" and "node_heap h mb = Some nd" and "nd_middlebox nd = Some conf"
    and "\<forall>x \<in> set (ec_ip_prefixes conf). valid_network x"
  shows "cutting (net_addrs ` set (ec_ip_prefixes conf) \<union> (\<lambda>a. {a}) ` set (ec_ip_addrs conf)) {}
     (set (ec_ports conf)) (add_middlebox_ecs alloc h mb)"
proof -
  have 1: "cutting (\<Union>x \<in> set (ec_ip_prefixes conf). {net_addrs x})
      (\<Union>x \<in> set (ec_ip_prefixes conf). {}) (\<Union>x \<in> set (ec_ip_prefixes conf). {})
      (foldR (add_ec_net alloc) (ec_ip_prefixes conf))"
    by (rule cutting_foldR) (use cutting_net[OF assms(1)] assms(4) in auto)
  have 2: "cutting (\<Union>x \<in> set (ec_ip_addrs conf). {{x}})
      (\<Union>x \<in> set (ec_ip_addrs conf). {}) (\<Union>x \<in> set (ec_ip_addrs conf). {})
      (foldR (\<lambda>a. add_ec_addr alloc a False) (ec_ip_addrs conf))"
    by (rule cutting_foldR) (use cutting_addr[OF assms(1), of _ False] in auto)
  have e: "add_middlebox_ecs alloc h mb = (\<lambda>m. bindR (foldR (add_ec_net alloc) (ec_ip_prefixes conf) m)
      (\<lambda>m. bindR (foldR (\<lambda>a. add_ec_addr alloc a False) (ec_ip_addrs conf) m)
      (\<lambda>m. Inr (m\<lparr>mgr_ports := fold oset_insert (ec_ports conf) (mgr_ports m)\<rparr>))))"
    by (simp add: fun_eq_iff add_middlebox_ecs_def derefR_def assms(2,3))
  show ?thesis
    using cutting_bind[OF 1 cutting_bind[OF 2 cutting_ports]] unfolding e
    by (simp add: UNION_singleton_eq_range)
qed

definition initial_sets :: "network \<Rightarrow> updates \<Rightarrow> ipv4 set set" where
  "initial_sets nw updates =
     (\<Union>nd \<in> nodes_of nw. (\<lambda>a. {a}) ` l3_addrs nd \<union> net_addrs ` node_nets nd)
     \<union> (\<Union>(n, rs) \<in> set updates. (\<lambda>r. net_addrs (rt_network r)) ` set rs)
     \<union> (\<Union>conf \<in> mbs_of nw. net_addrs ` set (ec_ip_prefixes conf) \<union> (\<lambda>a. {a}) ` set (ec_ip_addrs conf))"

definition app_ports :: "network \<Rightarrow> 16 word set" where
  "app_ports nw = (\<Union>conf \<in> mbs_of nw. set (ec_ports conf))"

lemma cutting_initial:
  assumes al: "fresh_alloc alloc" and wf: "nets_wf nw updates"
  shows "cutting (initial_sets nw updates) (\<Union>(l3_addrs ` nodes_of nw)) (app_ports nw)
    (add_initial alloc nw updates)"
proof -
  let ?h = "net_objs nw"
  define N where "N = (\<lambda>p :: string \<times> nat. the (node_heap ?h (snd p)))"
  define C where "C = (\<lambda>mb. the (nd_middlebox (the (node_heap ?h mb))))"
  have N: "node_heap ?h (snd p) = Some (N p) \<and> (\<forall>x \<in> node_nets (N p). valid_network x)"
    if "p \<in> set (net_nodes nw)" for p
    using wf that unfolding nets_wf_def N_def by fastforce
  have C: "\<exists>nd. node_heap ?h mb = Some nd \<and> nd_middlebox nd = Some (C mb)
      \<and> (\<forall>x \<in> set (ec_ip_prefixes (C mb)). valid_network x)" if "mb \<in> set (net_mbs nw)" for mb
    using wf that unfolding nets_wf_def C_def by fastforce
  have 1: "cutting (\<Union>p \<in> set (net_nodes nw). (\<lambda>a. {a}) ` l3_addrs (N p) \<union> net_addrs ` node_nets (N p))
      (\<Union>p \<in> set (net_nodes nw). l3_addrs (N p)) (\<Union>p \<in> set (net_nodes nw). {})
      (foldR (add_node_ecs alloc ?h) (net_nodes nw))"
    by (rule cutting_foldR) (use cutting_node[OF al] N in blast)
  have 2: "cutting (\<Union>u \<in> set updates. (\<Union>r \<in> set (snd u). {net_addrs (rt_network r)}))
      (\<Union>u \<in> set updates. (\<Union>r \<in> set (snd u). {})) (\<Union>u \<in> set updates. (\<Union>r \<in> set (snd u). {}))
      (foldR (\<lambda>(_, rs). foldR (\<lambda>r. add_ec_net alloc (rt_network r)) rs) updates)"
  proof (rule cutting_foldR)
    fix u assume u: "u \<in> set updates"
    have "cutting (\<Union>r \<in> set (snd u). {net_addrs (rt_network r)}) (\<Union>r \<in> set (snd u). {})
       (\<Union>r \<in> set (snd u). {}) (foldR (\<lambda>r. add_ec_net alloc (rt_network r)) (snd u))"
      by (rule cutting_foldR) (use cutting_net[OF al] wf u in \<open>auto simp: nets_wf_def\<close>)
    then show "cutting (\<Union>r \<in> set (snd u). {net_addrs (rt_network r)}) (\<Union>r \<in> set (snd u). {})
       (\<Union>r \<in> set (snd u). {}) (case u of (_, rs) \<Rightarrow> foldR (\<lambda>r. add_ec_net alloc (rt_network r)) rs)"
      by (simp add: case_prod_beta)
  qed
  have 3: "cutting (\<Union>mb \<in> set (net_mbs nw). net_addrs ` set (ec_ip_prefixes (C mb))
        \<union> (\<lambda>a. {a}) ` set (ec_ip_addrs (C mb)))
      (\<Union>mb \<in> set (net_mbs nw). {}) (\<Union>mb \<in> set (net_mbs nw). set (ec_ports (C mb)))
      (foldR (add_middlebox_ecs alloc ?h) (net_mbs nw))"
    by (rule cutting_foldR) (use cutting_middlebox[OF al] C in blast)
  have nodes: "nodes_of nw = N ` set (net_nodes nw)" using N by (force simp: nodes_of_def)
  have mbs: "mbs_of nw = C ` set (net_mbs nw)" using C by (force simp: mbs_of_def)
  have sets: "initial_sets nw updates =
     (\<Union>p \<in> set (net_nodes nw). (\<lambda>a. {a}) ` l3_addrs (N p) \<union> net_addrs ` node_nets (N p))
     \<union> ((\<Union>u \<in> set updates. (\<Union>r \<in> set (snd u). {net_addrs (rt_network r)}))
     \<union> (\<Union>mb \<in> set (net_mbs nw). net_addrs ` set (ec_ip_prefixes (C mb))
        \<union> (\<lambda>a. {a}) ` set (ec_ip_addrs (C mb))))"
    unfolding initial_sets_def nodes mbs by (auto simp: case_prod_beta)
  have "add_initial alloc nw updates = (\<lambda>m. bindR (foldR (add_node_ecs alloc ?h) (net_nodes nw) m)
      (\<lambda>m. bindR (foldR (\<lambda>(_, rs). foldR (\<lambda>r. add_ec_net alloc (rt_network r)) rs) updates m)
        (foldR (add_middlebox_ecs alloc ?h) (net_mbs nw))))"
    by (simp add: fun_eq_iff add_initial_def)
  then show ?thesis
    using cutting_bind[OF 1 cutting_bind[OF 2 3]] unfolding sets nodes
    by (simp add: app_ports_def mbs)
qed

lemma draw_port_Some:
  assumes "draws (i + k) \<notin> set ports"
  shows "\<exists>j. draw_port draws ports i = Some (draws j) \<and> draws j \<notin> set ports"
  using assms
proof (induction k arbitrary: i)
  case 0
  then show ?case by (subst draw_port.simps) auto
next
  case (Suc k)
  show ?case
  proof (cases "draws i \<in> set ports")
    case True
    then show ?thesis using Suc.IH[of "Suc i"] Suc.prems by (subst draw_port.simps) (simp add: Let_def)
  next
    case False
    then show ?thesis by (subst draw_port.simps) auto
  qed
qed

lemma draw_port_outcome:
  assumes "draw_port draws ports i = Some p"
  shows "p \<notin> set ports \<and> (\<exists>j. p = draws j)"
  by (rule draw_port.raw_induct[OF _ assms]) (force simp: Let_def split: if_splits)

text \<open>C6. \<open>compute_initial_ecs\<close> on a fresh manager returns exactly when the random engine ever draws a
  port that no application listens on, and never fails. The manager it returns
  is well formed and cut along the network of every route and update and of every middlebox
  rule, and along every interface address; the interface addresses belong to owned classes; and
  the ports are those of the applications and one other.\<close>

theorem compute_initial_ecs_spec:
  assumes "fresh_alloc alloc" and "nets_wf nw updates"
  shows "(compute_initial_ecs alloc draws nw updates ecmgr_init = None \<longleftrightarrow> range draws \<subseteq> app_ports nw) \<and>
    (range draws \<subseteq> app_ports nw \<or>
     (\<exists>m i. compute_initial_ecs alloc draws nw updates ecmgr_init = Some (Inr m) \<and> ecmgr_ok m
        \<and> (\<forall>R \<in> initial_sets nw updates. split_by m R)
        \<and> \<Union>(l3_addrs ` nodes_of nw) \<subseteq> owned_addrs m
        \<and> set (mgr_ports m) = insert (draws i) (app_ports nw) \<and> draws i \<notin> app_ports nw))"
proof -
  have "oset (mgr_ports ecmgr_init)" by (simp add: ecmgr_init_def)
  then obtain m where m: "add_initial alloc nw updates ecmgr_init = Inr m"
      "cuts (initial_sets nw updates) (\<Union>(l3_addrs ` nodes_of nw)) (app_ports nw) ecmgr_init m"
    using cutting_initial[OF assms] ecmgr_init_ok unfolding cutting_def by blast
  have p: "set (mgr_ports m) = app_ports nw" "oset (mgr_ports m)"
    using m(2) by (auto simp: cuts_def ecmgr_init_def)
  let ?d = "draw_port draws (mgr_ports m) 0"
  have c: "compute_initial_ecs alloc draws nw updates ecmgr_init =
      (case ?d of None \<Rightarrow> None | Some q \<Rightarrow> Some (Inr (m\<lparr>mgr_ports := oset_insert q (mgr_ports m)\<rparr>)))"
    using m(1) by (simp add: compute_initial_ecs_def)
  show ?thesis
  proof (cases "range draws \<subseteq> app_ports nw")
    case True
    then have "?d = None" using draw_port_outcome[of draws "mgr_ports m" 0] p(1) by (cases ?d) auto
    then show ?thesis using True c by simp
  next
    case False
    then obtain k where "draws (0 + k) \<notin> set (mgr_ports m)" using p(1) by auto
    with draw_port_Some[of draws 0 k "mgr_ports m"] obtain j where j: "?d = Some (draws j)" "draws j \<notin> app_ports nw"
      using p(1) by auto
    let ?m = "m\<lparr>mgr_ports := oset_insert (draws j) (mgr_ports m)\<rparr>"
    have f: "ecmgr_ok ?m \<longleftrightarrow> ecmgr_ok m" "split_by ?m S \<longleftrightarrow> split_by m S"
      "owned_addrs ?m = owned_addrs m" for S
      by (simp_all add: ecmgr_ok_def class_ok_def split_by_def covered_def same_ec_def owns_def
        owned_addrs_def)
    have "set (mgr_ports ?m) = insert (draws j) (app_ports nw)" using p by simp
    then show ?thesis using False c j m(2) unfolding cuts_def
      by (intro conjI disjI2 exI[of _ ?m] exI[of _ j]) (simp_all add: f)
  qed
qed

definition sample_node :: node where
  "sample_node =
     \<lparr>nd_name = ''r1'', nd_intfs = Map.empty, nd_intfs_l3 = [(0x0A000001, 1)], nd_intfs_l2 = [],
      nd_rib = [\<lparr>rt_network = \<lparr>ip_value = 0x0A000000, ip_prefix = 8\<rparr>, rt_next_hop = 0x0A000001,
         rt_egress_intf = ''eth0'', rt_adm_dist = 0\<rparr>],
      nd_l2_peers = Map.empty, nd_l2_lans = Map.empty, nd_middlebox = None\<rparr>"

definition sample_network :: network where
  "sample_network =
     \<lparr>net_nodes = [(''r1'', 1)], net_links = [], net_mbs = [], net_l2_lans = [],
      net_objs = \<lparr>intf_heap = Map.empty, node_heap = [1 \<mapsto> sample_node], lan_heap = Map.empty\<rparr>\<rparr>"

lemma sample_network_wf: "nets_wf sample_network []"
  by (simp add: nets_wf_def sample_network_def sample_node_def node_nets_def valid_network_def
    prefix_ok_def is_network_def host_mask_def)

lemma sample_nodes: "nodes_of sample_network = {sample_node}" "mbs_of sample_network = {}"
  by (auto simp: nodes_of_def mbs_of_def sample_network_def)

theorem compute_initial_ecs_spec_witness:
  "\<exists>m. compute_initial_ecs sum_alloc (\<lambda>_. 80) sample_network [] ecmgr_init = Some (Inr m)
     \<and> mgr_ports m = [80] \<and> 0x0A000001 \<in> owned_addrs m"
proof -
  have "app_ports sample_network = {}" by (simp add: app_ports_def sample_nodes)
  with compute_initial_ecs_spec[OF sum_alloc_fresh sample_network_wf, of "\<lambda>_. 80"]
  obtain m where m: "compute_initial_ecs sum_alloc (\<lambda>_. 80) sample_network [] ecmgr_init = Some (Inr m)"
      "\<Union>(l3_addrs ` nodes_of sample_network) \<subseteq> owned_addrs m" "set (mgr_ports m) = {80}"
    by auto
  have "oset (mgr_ports m)"
  proof -
    obtain m0 where m0: "add_initial sum_alloc sample_network [] ecmgr_init = Inr m0"
        "oset (mgr_ports m0)"
      using cutting_initial[OF sum_alloc_fresh sample_network_wf] ecmgr_init_ok
      unfolding cutting_def cuts_def by (auto simp: ecmgr_init_def)
    then show ?thesis using m(1) by (auto simp: compute_initial_ecs_def split: option.splits)
  qed
  then have "mgr_ports m = [80]" using m(3) oset_eqI[of "mgr_ports m" "[80]"]
    by (simp add: oset_def sorted_set_def)
  then show ?thesis using m by (auto simp: sample_nodes l3_addrs_def sample_node_def)
qed

section \<open>Forwarding is uniform in a class\<close>

lemma via_unfold:
  "via rib dst ip \<longleftrightarrow> ip = dst \<or>
     (\<exists>r \<in> set (iter_range (rib_lookup rib dst) rib). rt_egress_intf r = [] \<and> via rib (rt_next_hop r) ip)"
proof
  show "ip = dst \<or> (\<exists>r \<in> set (iter_range (rib_lookup rib dst) rib).
      rt_egress_intf r = [] \<and> via rib (rt_next_hop r) ip)" if "via rib dst ip"
    using that
  proof (induction rule: via.induct)
    case via_refl
    then show ?case by simp
  next
    case (via_step ip r)
    then show ?case using via.intros by metis
  qed
next
  assume "ip = dst \<or> (\<exists>r \<in> set (iter_range (rib_lookup rib dst) rib).
      rt_egress_intf r = [] \<and> via rib (rt_next_hop r) ip)"
  then show "via rib dst ip"
  proof (elim disjE bexE conjE)
    fix r assume r: "r \<in> set (iter_range (rib_lookup rib dst) rib)" "rt_egress_intf r = []"
      "via rib (rt_next_hop r) ip"
    then have "via rib dst (rt_next_hop r)" using via.via_step[OF via.via_refl] by blast
    then show ?thesis using via_trans[OF r(3)] by blast
  qed (simp add: via_refl)
qed

text \<open>The addresses a node's forwarding distinguishes beside the networks of its table: those of its
  own interfaces and of the endpoints of the LANs in the heap.\<close>

definition told_apart :: "net_heap \<Rightarrow> node \<Rightarrow> ipv4 set" where
  "told_apart h nd = l3_addrs nd \<union> (\<Union>lan \<in> ran (lan_heap h). fst ` set (l3_endpoints lan))"

definition alike :: "net_heap \<Rightarrow> node \<Rightarrow> rib \<Rightarrow> ipv4 \<Rightarrow> ipv4 \<Rightarrow> bool" where
  "alike h nd rib a b \<longleftrightarrow>
     (\<forall>r \<in> set rib. network_contains (rt_network r) a \<longleftrightarrow> network_contains (rt_network r) b)
     \<and> (\<forall>x \<in> told_apart h nd. a = x \<longleftrightarrow> b = x)"

lemma map_of_alike:
  assumes "\<And>x. x \<in> fst ` set xs \<Longrightarrow> a = x \<longleftrightarrow> b = x"
  shows "map_of xs a = map_of xs b"
proof (cases "a = b")
  case False
  then have "a \<notin> fst ` set xs" "b \<notin> fst ` set xs" using assms by auto
  then show ?thesis by (metis map_of_eq_None_iff)
qed simp

lemma get_ipnh_alike:
  assumes "alike h nd rib a b"
  shows "get_ipnh h nd e a = get_ipnh h nd e b"
proof -
  have "find_l3_endpoint lan a = find_l3_endpoint lan b" if "lan_heap h l = Some lan" for l lan
  proof -
    have "map_of (l3_endpoints lan) a = map_of (l3_endpoints lan) b"
      using assms that by (intro map_of_alike) (auto simp: alike_def told_apart_def ran_def)
    then show ?thesis by (simp add: find_l3_endpoint_def)
  qed
  then show ?thesis
    by (auto simp: get_ipnh_def derefR_def bindR_def split: option.splits sum.splits prod.splits)
qed

lemma direct_nhs_alike:
  assumes "alike h nd rib a b"
  shows "direct_nhs h self nd rib a = direct_nhs h self nd rib b"
proof -
  have "map_of (nd_intfs_l3 nd) a = map_of (nd_intfs_l3 nd) b"
    using assms by (intro map_of_alike) (auto simp: alike_def told_apart_def l3_addrs_def)
  then have "has_ip nd a = has_ip nd b" by (simp add: has_ip_def)
  moreover have "rib_lookup rib a = rib_lookup rib b"
    using assms by (intro rib_lookup_cong) (auto simp: alike_def)
  ultimately show ?thesis
    using get_ipnh_alike[OF assms] by (simp add: direct_nhs_def)
qed

lemma get_ipnhs_alike:
  assumes "node_heap h self = Some nd" and "ipnh_total h nd (nd_rib nd)" and "alike h nd (nd_rib nd) a b"
  shows "\<exists>nhs. get_ipnhs h self a None = Inr nhs \<and> get_ipnhs h self b None = Inr nhs"
proof (cases "is_emulated nd")
  case True
  then show ?thesis using assms(1) by (simp add: get_ipnhs_def derefR_def)
next
  case False
  let ?rib = "nd_rib nd" and ?f = "ipnhs_fuel (nd_rib nd)"
  obtain na sa where a: "get_ipnhs_rec ?f h self nd ?rib a [] = Inr (na, sa)" "oset na"
      "set na = (\<Union>ip \<in> {ip. via ?rib a ip}. direct_nhs h self nd ?rib ip)"
    using get_ipnhs_rec_total[OF assms(2), of self a] by metis
  obtain nb sb where b: "get_ipnhs_rec ?f h self nd ?rib b [] = Inr (nb, sb)" "oset nb"
      "set nb = (\<Union>ip \<in> {ip. via ?rib b ip}. direct_nhs h self nd ?rib ip)"
    using get_ipnhs_rec_total[OF assms(2), of self b] by metis
  have "rib_lookup ?rib a = rib_lookup ?rib b"
    using assms(3) by (intro rib_lookup_cong) (auto simp: alike_def)
  then have "(\<Union>ip \<in> {ip. via ?rib a ip}. direct_nhs h self nd ?rib ip)
      = (\<Union>ip \<in> {ip. via ?rib b ip}. direct_nhs h self nd ?rib ip)"
    using direct_nhs_alike[OF assms(3)] by (auto simp: via_unfold[of ?rib a] via_unfold[of ?rib b])
  then have "na = nb" using a b oset_eqI by metis
  then show ?thesis using False a(1) b(1) assms(1) by (simp add: get_ipnhs_def derefR_def)
qed

text \<open>A manager cut along the initial sets: the one \<open>compute_initial_ecs\<close> returns, and every one
  that more ranges have been added to since. The endpoints of LANs are interfaces of nodes.\<close>

definition ecs_cut :: "network \<Rightarrow> updates \<Rightarrow> eqclassmgr \<Rightarrow> bool" where
  "ecs_cut nw updates m \<longleftrightarrow> ecmgr_ok m \<and> (\<forall>R \<in> initial_sets nw updates. split_by m R)"

definition endpoints_wf :: "network \<Rightarrow> bool" where
  "endpoints_wf nw \<longleftrightarrow> (\<forall>lan \<in> ran (lan_heap (net_objs nw)). fst ` set (l3_endpoints lan)
     \<subseteq> \<Union>(l3_addrs ` nodes_of nw))"

lemma split_same: "split_by m R \<Longrightarrow> owns m p a \<Longrightarrow> owns m p b \<Longrightarrow> a \<in> R \<longleftrightarrow> b \<in> R"
  by (auto simp: split_by_def same_ec_def)

lemma class_alike:
  assumes "ecs_cut nw updates m" and "endpoints_wf nw" and "owns m p a" and "owns m p b"
    and "n \<in> snd ` set (net_nodes nw)" and "node_heap (net_objs nw) n = Some nd"
  shows "alike (net_objs nw) nd (nd_rib nd) a b"
proof -
  have nd: "nd \<in> nodes_of nw" using assms(5,6) by (auto simp: nodes_of_def)
  have sp: "a \<in> R \<longleftrightarrow> b \<in> R" if "R \<in> initial_sets nw updates" for R
    using split_same[OF _ assms(3,4)] that assms(1) by (simp add: ecs_cut_def)
  have "network_contains (rt_network r) a \<longleftrightarrow> network_contains (rt_network r) b"
    if "r \<in> set (nd_rib nd)" for r
  proof -
    have "net_addrs (rt_network r) \<in> net_addrs ` node_nets nd" using that by (auto simp: node_nets_def)
    then have "net_addrs (rt_network r) \<in> initial_sets nw updates"
      using nd unfolding initial_sets_def by blast
    from sp[OF this] show ?thesis by (simp add: net_addrs_def)
  qed
  moreover have "a = x \<longleftrightarrow> b = x" if xt: "x \<in> told_apart (net_objs nw) nd" for x
  proof -
    have "told_apart (net_objs nw) nd \<subseteq> \<Union>(l3_addrs ` nodes_of nw)"
      using nd assms(2) by (auto simp: told_apart_def endpoints_wf_def)
    then obtain nd' where nd': "nd' \<in> nodes_of nw" "x \<in> l3_addrs nd'" using xt by blast
    have "{x} \<in> (\<lambda>a. {a}) ` l3_addrs nd'" using nd'(2) by simp
    then have "{x} \<in> initial_sets nw updates" using nd'(1) unfolding initial_sets_def by blast
    from sp[OF this] show ?thesis by auto
  qed
  ultimately show ?thesis by (simp add: alike_def)
qed

text \<open>C1. What equivalence classes are for: once the manager is cut along the networks and the
  interface addresses of the network, every node computes from its routing table the same next hops
  for all addresses of a class, recursive routes included. This is why the code may compute them
  for one representative address.\<close>

theorem forwarding_uniform_in_class:
  assumes "ecs_cut nw updates m" and "endpoints_wf nw" and "owns m p a" and "owns m p b"
    and "n \<in> snd ` set (net_nodes nw)" and "node_heap (net_objs nw) n = Some nd"
    and "ipnh_total (net_objs nw) nd (nd_rib nd)"
  shows "\<exists>nhs. get_ipnhs (net_objs nw) n a None = Inr nhs \<and> get_ipnhs (net_objs nw) n b None = Inr nhs"
  using get_ipnhs_alike[OF assms(6,7) class_alike[OF assms(1-6)]] .

theorem forwarding_uniform_in_class_witness:
  "\<exists>nhs. get_ipnhs (net_objs sample_network) 1 0x0A000005 None = Inr nhs
     \<and> get_ipnhs (net_objs sample_network) 1 0x0AFF0000 None = Inr nhs"
proof -
  let ?n = "\<lparr>ip_value = 0x0A000000, ip_prefix = 8\<rparr> :: ip_network"
  let ?a = "\<lparr>r_lb = 0x0A000001, r_ub = 0x0A000001, ec_ptr = 0\<rparr> :: ecrange"
  have ok: "range_ok ?a" by (simp add: range_ok_def)
  have aa: "addrs ?a = {0x0A000001}" by (auto simp: addrs_def range_contains_def)
  have v: "valid_network ?n"
    by (simp add: valid_network_def prefix_ok_def is_network_def host_mask_def)
  obtain m1 where m1: "ecmgr_ok m1" "ec_abs m1 = spec_add_ec (addrs ?a) True (ec_abs ecmgr_init)"
    using add_ec_contract[OF ecmgr_init_ok sum_alloc_fresh ok] by blast
  obtain m where m: "ecmgr_ok m" "ec_abs m = spec_add_ec (net_addrs ?n) False (ec_abs m1)"
    using add_ec_contract[OF m1(1) sum_alloc_fresh range_ok_network[OF v]]
    unfolding net_addrs_range by blast
  note sp1 = add_ec_split[OF m1(2)] and sp = add_ec_split[OF m(2)]
  have c1: "covered m1 = {0x0A000001}"
    unfolding sp1(3) aa by (simp add: ecmgr_init_def covered_def owns_def)
  have "0x0A000005 \<in> net_addrs ?n - covered m1" "0x0AFF0000 \<in> net_addrs ?n - covered m1"
    by (simp_all add: c1 net_addrs_def network_contains_def network_addr_def broadcast_addr_def
      host_mask_def)
  then have "(0x0A000005, 0x0AFF0000) \<in> same_ec m"
    using m(2) by (auto simp: ec_abs_def spec_add_ec_def)
  then obtain p where p: "owns m p 0x0A000005" "owns m p 0x0AFF0000" by (auto simp: same_ec_def)
  have "initial_sets sample_network [] = {addrs ?a, net_addrs ?n}"
    by (auto simp: initial_sets_def sample_nodes aa sample_node_def l3_addrs_def node_nets_def)
  then have cut: "ecs_cut sample_network [] m"
    using m(1) sp(1) sp(2)[OF sp1(1)] by (simp add: ecs_cut_def)
  have "endpoints_wf sample_network" by (simp add: endpoints_wf_def sample_network_def)
  moreover have "1 \<in> snd ` set (net_nodes sample_network)"
      "node_heap (net_objs sample_network) 1 = Some sample_node"
      "ipnh_total (net_objs sample_network) sample_node (nd_rib sample_node)"
    by (simp_all add: sample_network_def ipnh_total_def sample_node_def get_ipnh_def get_peer_def)
  ultimately show ?thesis using forwarding_uniform_in_class[OF cut _ p] by blast
qed

end
