(* ===== verification/Plankton.thy ===== *)
theory Plankton
  imports Invariants
begin

text \<open>
  The choice of the next connection (\<open>src/process/choose_conn.cpp\<close>) and the driver called by the
  model checker (\<open>src/plankton.cpp\<close>, \<open>src/network.pml\<close>): initialisation, one step of the current
  process, the switch between processes, and the exploration. The flag \<open>_terminate\<close>, set by
  signals, is not modelled: it only makes the process exit.
\<close>

section \<open>Choosing a connection\<close>

definition conn_finished :: "2 word \<Rightarrow> fwd_mode \<Rightarrow> ps \<Rightarrow> bool" where
  "conn_finished exec mode proto_state \<longleftrightarrow>
     exec = 0 \<and> mode = DROPPED \<or> exec = 0 \<and> mode = ACCEPTED \<and> ps_is_last proto_state"

text \<open>The connections by the value of \<open>executable\<close>; indexing the vector out of range is undefined.\<close>

definition get_conn_map :: "'w model \<Rightarrow> int list list result" where
  "get_conn_map m =
     foldR (\<lambda>conn conn_map.
         let exec = get_executable_for_conn conn m;
             mode = get_fwd_mode_for_conn conn m;
             proto_state = get_proto_state_for_conn conn m in
         if conn_finished exec mode proto_state then Inr conn_map
         else if unat exec < length conn_map
         then Inr (conn_map[unat exec := conn_map ! unat exec @ [conn]])
         else Inl Undefined_behaviour)
       [0 .. get_num_conns m - 1] [[], [], []]"

definition update_choice_count :: "'w model \<Rightarrow> 'w model result" where
  "update_choice_count m =
     bindR (get_conn_map m) (\<lambda>conn_map.
     if conn_map ! 2 \<noteq> [] then Inr (set_choice_count 1 m)
     else if conn_map ! 1 \<noteq> [] then Inr (set_choice_count (int (length (conn_map ! 1))) m)
     else if conn_map ! 0 \<noteq> [] then Inr (set_choice_count 1 m)
     else print_conn_states (set_choice_count 0 m))"

text \<open>Dropping the selected connection, unless it has ended.\<close>

definition drop_selected :: "'w model \<Rightarrow> 'w model result" where
  "drop_selected m =
     (let mode = get_fwd_mode m; proto_state = get_proto_state m in
      if mode \<noteq> DROPPED \<and> \<not> (mode = ACCEPTED \<and> ps_is_last proto_state) then
        bindR (node_at m (get_pkt_location m)) (\<lambda>_. Inr (set_fwd_mode DROPPED m))
      else Inr m)"

definition choose_conn_exec_step :: "'w model \<Rightarrow> 'w model result" where
  "choose_conn_exec_step m =
     (let choice = get_choice m in
      bindR (get_conn_map m) (\<lambda>conn_map.
      bindR (if conn_map ! 2 \<noteq> [] then
          bindR (assertR (choice = 0)) (\<lambda>_.
          print_conn_states (set_conn (conn_map ! 2 ! 0) m))
        else if conn_map ! 1 \<noteq> [] then
          if 0 \<le> choice \<and> nat choice < length (conn_map ! 1) then
            print_conn_states (set_executable 2 (set_conn (conn_map ! 1 ! nat choice) m))
          else Inl Undefined_behaviour
        else if conn_map ! 0 \<noteq> [] then
          bindR (assertR (choice = 0)) (\<lambda>_.
          bindR (drop_selected (set_conn (conn_map ! 0 ! 0) m)) print_conn_states)
        else Inl (Runtime_error ''No executable connection'')) (\<lambda>m.
      if get_fwd_mode m = FORWARD_PACKET \<or> get_fwd_mode m = FIRST_FORWARD then
        bindR (valR (get_candidates m)) (\<lambda>candidates.
        Inr (set_choice_count (int (length candidates)) m))
      else Inr (set_choice_count 1 m))))"

section \<open>The driver\<close>

type_synonym 'w sys = "invariant \<times> 'w model"

definition control_state :: "'w model \<Rightarrow> 'w model" where
  "control_state m = set_choice_count 1 (set_choice 0 (set_process_id PID_FORWARDING m))"

definition initialize :: "'w sys \<Rightarrow> 'w sys result" where
  "initialize = (\<lambda>(v, m).
     bindR (forwarding_init m) (\<lambda>m.
     bindR (inv_init v (openflow_init m)) (\<lambda>(v, m).
     Inr (v, control_state m))))"

definition reinit :: "'w sys \<Rightarrow> 'w sys result" where
  "reinit = (\<lambda>(v, m).
     bindR (forwarding_init m) (\<lambda>m.
     bindR (inv_reinit v (openflow_init m)) (\<lambda>m.
     Inr (v, control_state m))))"

definition check_to_switch_process :: "'w model \<Rightarrow> 'w model result" where
  "check_to_switch_process m =
     (if get_executable m \<noteq> 2 then update_choice_count (set_process_id PID_CHOOSE_CONN m)
      else
        let process_id = get_process_id m; mode = get_fwd_mode m; current_node = get_pkt_location m in
        if process_id = PID_CHOOSE_CONN then Inr (set_process_id PID_FORWARDING m)
        else if process_id = PID_FORWARDING then
          if mode = COLLECT_NHOPS \<or> mode = FIRST_COLLECT then
            bindR (has_updates current_node m) (\<lambda>upd.
            Inr (if upd then set_choice_count 2 (set_process_id PID_OPENFLOW m) else m))
          else Inr m
        else if process_id = PID_OPENFLOW then
          Inr (if get_choice_count m = 1 then set_process_id PID_FORWARDING m else m)
        else Inl (Runtime_error ''Unknown process id ''))"

definition process_step :: "int \<Rightarrow> 'w emu_ops \<Rightarrow> 'w model \<Rightarrow> 'w model result" where
  "process_step max_conns ops m =
     (let process_id = get_process_id m in
      if process_id = PID_CHOOSE_CONN then choose_conn_exec_step m
      else if process_id = PID_FORWARDING then forwarding_exec_step max_conns ops m
      else if process_id = PID_OPENFLOW then openflow_exec_step m
      else Inl (Runtime_error ''Unknown process id ''))"

definition exec_step :: "int \<Rightarrow> 'w emu_ops \<Rightarrow> 'w sys \<Rightarrow> 'w sys result" where
  "exec_step max_conns ops = (\<lambda>(v, m).
     bindR (process_step max_conns ops m) (\<lambda>m.
     bindR (check_to_switch_process m) (\<lambda>m.
     bindR (check_violation v m) (\<lambda>(reinit_dp, v, m).
     if reinit_dp then reinit (v, m) else Inr (v, m)))))"

text \<open>The loop of \<open>verify_invariant\<close>: the invariant the child process number \<open>n\<close> verifies, if there
  are more than \<open>n\<close> combinations of connections, and the classes cut for the invariant. A violation
  found by an earlier child, or a signal, may end the loop before.\<close>

fun conn_round :: "nat \<Rightarrow> invariant \<Rightarrow> invariant option result" where
  "conn_round 0 v =
     bindR (set_conns v) (\<lambda>(more, v'). Inr (if more then Some v' else None))"
| "conn_round (Suc n) v =
     bindR (set_conns v) (\<lambda>(more, v'). if more then conn_round n v' else Inr None)"

definition verify_invariant ::
    "(nat list \<Rightarrow> nat) \<Rightarrow> nat \<Rightarrow> invariant \<Rightarrow> eqclassmgr \<Rightarrow> (invariant option \<times> eqclassmgr) result" where
  "verify_invariant alloc n v ecs =
     bindR (compute_conn_matrix alloc v ecs) (\<lambda>(v, ecs).
     bindR (conn_round n v) (\<lambda>child. Inr (child, ecs)))"

section \<open>The exploration\<close>

text \<open>
  The model checker stores the state vectors it has reached and goes back to any of them; the
  objects outside the vector (the invariant's fields, payloads, stored packets, cached results,
  emulations) keep the value the last step left. A state of the exploration is the set of state
  vectors reached and the current system. A step takes a reached vector, selects a choice below
  its number of choices, and executes it.
\<close>

inductive explores :: "int \<Rightarrow> 'w emu_ops \<Rightarrow> 'w sys \<Rightarrow> spin_state set \<Rightarrow> 'w sys \<Rightarrow> bool"
  for max_conns ops s0 where
  start: "initialize s0 = Inr (v, m) \<Longrightarrow> explores max_conns ops s0 {m_now m} (v, m)"
| step: "explores max_conns ops s0 V (v, m) \<Longrightarrow> n \<in> V \<Longrightarrow> 0 \<le> c \<Longrightarrow> c < now_choice_count n \<Longrightarrow>
     exec_step max_conns ops (v, set_choice c (m\<lparr>m_now := n\<rparr>)) = Inr (v', m') \<Longrightarrow>
     explores max_conns ops s0 (insert (m_now m') V) (v', m')"

end
