(* ===== verification/Safety.thy ===== *)
theory Safety
  imports Plankton
begin

text \<open>
  What every state vector reached by the exploration satisfies: the selected connection exists and
  the number of connections stays within the array, modes and process numbers are those the code
  handles, and a choice below \<open>choice_count\<close> is valid for the process that will use it. Each
  handler is shown to keep this, by its effect on the current connection.
\<close>

section \<open>Processing all received packets\<close>

definition received_rel :: "int \<Rightarrow> 'w model \<Rightarrow> 'w model \<times> bool \<times> bool \<Rightarrow> bool" where
  "received_rel max_conns m0 = (\<lambda>(m, cu, ou).
     conns_bounded max_conns m \<and> m_net m = m_net m0 \<and> get_conn m = get_conn m0
     \<and> get_process_id m = get_process_id m0 \<and> get_num_conns m0 \<le> get_num_conns m
     \<and> (\<forall>c. now_conn_state (m_now m) c = now_conn_state (m_now m0) c \<or> conn_received (now_conn_state (m_now m) c))
     \<and> (\<forall>c. get_num_conns m0 \<le> c \<and> c < get_num_conns m \<longrightarrow> conn_received (now_conn_state (m_now m) c))
     \<and> (if cu then conn_received (cur m) else cur m = cur m0))"

lemma cur_conn: "cur m = now_conn_state (m_now m) (get_conn m)"
  by (simp add: cur_def get_conn_def)

lemma received_step:
  assumes "received_rel max_conns m0 (m, cu, ou)"
    and "process_recv_pkt max_conns mb p (m, cu, ou) = Inr (m', cu', ou')"
  shows "received_rel max_conns m0 (m', cu', ou')"
proof -
  have b: "conns_bounded max_conns m" using assms(1) by (simp add: received_rel_def)
  from process_recv_pkt_effect[OF assms(2) b] show ?thesis
  proof (elim disjE exE)
    assume "(m', cu', ou') = (m, cu, ou)"
    then show ?thesis using assms(1) by simp
  next
    fix c cs
    assume e: "0 \<le> c \<and> c < max_conns \<and> c \<le> get_num_conns m \<and> conn_received cs
      \<and> m_net m' = m_net m \<and> get_conn m' = get_conn m \<and> get_process_id m' = get_process_id m
      \<and> get_num_conns m' = (if c = get_num_conns m then get_num_conns m + 1 else get_num_conns m)
      \<and> now_conn_state (m_now m') = (now_conn_state (m_now m))(c := cs)
      \<and> cu' = (cu \<or> c = get_conn m) \<and> ou' = (ou \<or> c \<noteq> get_conn m)"
    have "conns_bounded max_conns m'" using b e by (auto simp: conns_bounded_def)
    moreover have "cur m' = (if c = get_conn m then cs else cur m)" using e by (simp add: cur_conn)
    moreover have "conn_received (now_conn_state (m_now m') d)"
      if "get_num_conns m0 \<le> d \<and> d < get_num_conns m'" for d
      using that assms(1) e by (cases "d = c") (auto simp: received_rel_def split: if_splits)
    moreover have "now_conn_state (m_now m') d = now_conn_state (m_now m0) d
        \<or> conn_received (now_conn_state (m_now m') d)" for d
      using assms(1) e by (cases "d = c") (auto simp: received_rel_def)
    ultimately show ?thesis using assms(1) e by (simp add: received_rel_def)
  qed
qed

lemma received_all:
  assumes "conns_bounded max_conns m"
    and "foldR (process_recv_pkt max_conns mb) pkts (m, False, False) = Inr s"
  shows "received_rel max_conns m s"
proof (rule foldR_invariant[where I = "received_rel max_conns m", OF _ _ assms(2)])
  show "received_rel max_conns m (m, False, False)" using assms(1) by (auto simp: received_rel_def)
  show "received_rel max_conns m t" if "received_rel max_conns m s" "process_recv_pkt max_conns mb x s = Inr t"
    for x s t
    using received_step[of max_conns m "fst s" "fst (snd s)" "snd (snd s)" mb x "fst t" "fst (snd t)" "snd (snd t)"]
      that by simp
qed

section \<open>The invariant of the state vector\<close>

text \<open>One connection: the modes and values of \<open>executable\<close> that occur; a connection that can
  forward has candidates; a connection waiting for a middlebox is about to collect next hops; a
  packet starts at a node that is not emulated.\<close>

definition conn_ok :: "network \<Rightarrow> conn_state \<Rightarrow> bool" where
  "conn_ok net cs \<longleftrightarrow> cs_executable cs \<noteq> 3 \<and> cs_fwd_mode cs \<noteq> 7
     \<and> (cs_executable cs = 1 \<longrightarrow> cs_fwd_mode cs = COLLECT_NHOPS)
     \<and> (cs_executable cs \<noteq> 0 \<and> cs_fwd_mode cs \<in> {FIRST_FORWARD, FORWARD_PACKET} \<longrightarrow> cs_candidates cs \<noteq> None)
     \<and> (cs_fwd_mode cs = FIRST_COLLECT \<longrightarrow> \<not> emulated_at net (cs_pkt_location cs))"

definition conns_ok :: "int \<Rightarrow> 'w model \<Rightarrow> bool" where
  "conns_ok max_conns m \<longleftrightarrow> conns_bounded max_conns m
     \<and> (\<forall>c. 0 \<le> c \<and> c < get_num_conns m \<longrightarrow> conn_ok (m_net m) (now_conn_state (m_now m) c))
     \<and> (\<forall>c. 0 \<le> c \<and> c < get_num_conns m \<and> c \<noteq> get_conn m \<longrightarrow>
          cs_fwd_mode (now_conn_state (m_now m) c) \<noteq> CHOOSE_INJ_RES)"

text \<open>The number of choices matches what the forwarding handler of the mode will index.\<close>

definition fwd_choices_ok :: "conn_state \<Rightarrow> int \<Rightarrow> bool" where
  "fwd_choices_ok cs n \<longleftrightarrow>
     (cs_fwd_mode cs \<in> {FIRST_FORWARD, FORWARD_PACKET} \<longrightarrow> (\<exists>cands. cs_candidates cs = Some cands \<and> n = int (length cands)))
     \<and> (cs_fwd_mode cs = CHOOSE_INJ_RES \<longrightarrow> (\<exists>rs. cs_inj_results cs = Some rs \<and> n = int (length rs)))"

text \<open>The number of choices \<open>update_choice_count\<close> computes.\<close>

definition conn_choices :: "'w model \<Rightarrow> int option" where
  "conn_choices m = (case get_conn_map m of
     Inl _ \<Rightarrow> None
   | Inr cm \<Rightarrow> if cm ! 2 \<noteq> [] then Some 1 else if cm ! 1 \<noteq> [] then Some (int (length (cm ! 1)))
       else if cm ! 0 \<noteq> [] then Some 1 else Some 0)"

text \<open>After the step of a process, before the switch.\<close>

definition mid_ok :: "int \<Rightarrow> 'w model \<Rightarrow> bool" where
  "mid_ok max_conns m \<longleftrightarrow> conns_ok max_conns m
     \<and> (get_fwd_mode m = CHOOSE_INJ_RES \<longrightarrow> get_executable m = 2)
     \<and> (get_executable m = 2 \<longrightarrow> fwd_choices_ok (cur m) (get_choice_count m))
     \<and> (get_process_id m = PID_OPENFLOW \<longrightarrow>
          get_fwd_mode m \<in> {FIRST_COLLECT, COLLECT_NHOPS} \<and> get_executable m = 2)
     \<and> get_process_id m \<noteq> 3"

text \<open>Between steps.\<close>

definition state_ok :: "int \<Rightarrow> 'w model \<Rightarrow> bool" where
  "state_ok max_conns m \<longleftrightarrow> conns_ok max_conns m \<and> get_process_id m \<noteq> 3
     \<and> (get_process_id m = PID_CHOOSE_CONN \<longrightarrow> get_executable m \<noteq> 2 \<and> get_fwd_mode m \<noteq> CHOOSE_INJ_RES
          \<and> (get_choice_count m \<noteq> 0 \<longrightarrow> conn_choices m = Some (get_choice_count m)))
     \<and> (get_process_id m = PID_OPENFLOW \<longrightarrow>
          get_fwd_mode m \<in> {FIRST_COLLECT, COLLECT_NHOPS} \<and> get_executable m = 2)
     \<and> (get_process_id m = PID_FORWARDING \<longrightarrow> (get_executable m = 2 \<or> get_fwd_mode m = ACCEPTED)
          \<and> (get_choice_count m \<noteq> 0 \<longrightarrow> fwd_choices_ok (cur m) (get_choice_count m)))"

section \<open>Each process keeps it\<close>

lemma keep_conns:
  assumes "conns_ok max_conns m" "frame m m'" "conn_ok (m_net m) (cur m')"
  shows "conns_ok max_conns m'"
proof -
  have "conn_ok (m_net m') (now_conn_state (m_now m') c)" if "0 \<le> c \<and> c < get_num_conns m'" for c
    using assms that by (cases "c = get_conn m") (auto simp: conns_ok_def frame_def cur_conn)
  moreover have "cs_fwd_mode (now_conn_state (m_now m') c) \<noteq> CHOOSE_INJ_RES"
    if "0 \<le> c \<and> c < get_num_conns m' \<and> c \<noteq> get_conn m'" for c
    using assms that by (auto simp: conns_ok_def frame_def)
  ultimately show ?thesis using assms by (auto simp: conns_ok_def conns_bounded_def frame_def)
qed

lemma cur_conn_ok: "conns_ok max_conns m \<Longrightarrow> conn_ok (m_net m) (cur m)"
  by (simp add: conns_ok_def conns_bounded_def cur_conn)

text \<open>A handler that works on the current connection and ends in a good state.\<close>

lemma mid_okI:
  assumes "conns_ok max_conns m" "get_process_id m = PID_FORWARDING" "frame m m'"
    and "conn_ok (m_net m) (cur m')"
    and "get_fwd_mode m' = CHOOSE_INJ_RES \<Longrightarrow> get_executable m' = 2"
    and "get_executable m' = 2 \<Longrightarrow> fwd_choices_ok (cur m') (get_choice_count m')"
  shows "mid_ok max_conns m'"
  using keep_conns[OF assms(1,3,4)] assms(2,3,5,6) by (auto simp: mid_ok_def frame_def)

lemma collect_effect:
  assumes "collect_next_hops ops m = Inr m'"
  shows "emulated_at (m_net m) (get_pkt_location m) \<and> (\<exists>rs. cur m' = (cur m)\<lparr>cs_fwd_mode := CHOOSE_INJ_RES, cs_inj_results := Some rs\<rparr>
      \<and> get_choice_count m' = int (length rs))
    \<or> \<not> emulated_at (m_net m) (get_pkt_location m) \<and> cur m' = (cur m)\<lparr>cs_fwd_mode := DROPPED, cs_executable := 0\<rparr>
    \<or> \<not> emulated_at (m_net m) (get_pkt_location m) \<and> (\<exists>cs. cs \<noteq> [] \<and> cur m' = (cur m)\<lparr>cs_candidates := Some cs, cs_fwd_mode := FORWARD_PACKET\<rparr>
      \<and> get_choice_count m' = int (length cs))"
  using assms
proof (cases rule: collect_cases)
  case inject
  then show ?thesis using inject_packet_effect(2)[of ops "get_pkt_location m" m m'] by blast
next
  case drop
  then show ?thesis by (simp add: drop_packet_def model_defs)
next
  case (forward cs)
  then have "cur m' = (cur m)\<lparr>cs_candidates := Some cs, cs_fwd_mode := FORWARD_PACKET\<rparr>"
      "get_choice_count m' = int (length cs)"
    by (simp_all add: model_defs)
  then show ?thesis using forward by blast
qed

lemma collect_mid:
  assumes "conns_ok max_conns m" "get_process_id m = PID_FORWARDING" "get_executable m = 2"
    and "collect_next_hops ops m = Inr m'"
  shows "mid_ok max_conns m'"
proof (rule mid_okI[OF assms(1,2) collect_frame[OF assms(4)]])
  note c = cur_conn_ok[OF assms(1)] and e = collect_effect[OF assms(4)]
  show "conn_ok (m_net m) (cur m')" using c e assms(3) by (auto simp: conn_ok_def get_executable_def)
  show "get_executable m' = 2" if "get_fwd_mode m' = CHOOSE_INJ_RES"
    using e that assms(3) by (auto simp: get_executable_def get_fwd_mode_def)
  show "fwd_choices_ok (cur m') (get_choice_count m')" if "get_executable m' = 2"
    using e that assms(3) by (auto simp: get_executable_def get_fwd_mode_def fwd_choices_ok_def)
qed

lemma first_collect_mid:
  assumes "conns_ok max_conns m" "get_process_id m = PID_FORWARDING" "get_executable m = 2"
    and "get_fwd_mode m = FIRST_COLLECT" "first_collect ops m = Inr m'"
  shows "mid_ok max_conns m'"
proof -
  obtain m1 where m1: "collect_next_hops ops m = Inr m1" "m' = set_fwd_mode FIRST_FORWARD m1"
    using assms(5) by (auto simp: first_collect_def bindR_eq_Inr_iff)
  have f: "frame m m'" unfolding m1(2) by (rule frame_trans[OF collect_frame[OF m1(1)] frame_setters(13)])
  have "\<not> emulated_at (m_net m) (get_pkt_location m)"
    using cur_conn_ok[OF assms(1)] assms(4) by (simp add: conn_ok_def get_fwd_mode_def get_pkt_location_def)
  moreover have "cur m' = (cur m1)\<lparr>cs_fwd_mode := FIRST_FORWARD\<rparr>" "get_choice_count m' = get_choice_count m1"
    by (simp_all add: m1(2) model_defs)
  ultimately have e: "cur m' = (cur m)\<lparr>cs_fwd_mode := FIRST_FORWARD, cs_executable := 0\<rparr>
     \<or> (\<exists>cs. cur m' = (cur m)\<lparr>cs_candidates := Some cs, cs_fwd_mode := FIRST_FORWARD\<rparr>
        \<and> get_choice_count m' = int (length cs))"
    using collect_effect[OF m1(1)] by auto
  show ?thesis
  proof (rule mid_okI[OF assms(1,2) f])
    show "conn_ok (m_net m) (cur m')" using e cur_conn_ok[OF assms(1)] assms(3)
      by (auto simp: conn_ok_def get_executable_def)
    show "get_executable m' = 2" if "get_fwd_mode m' = CHOOSE_INJ_RES"
      using e that by (auto simp: get_fwd_mode_def)
    show "fwd_choices_ok (cur m') (get_choice_count m')" if "get_executable m' = 2"
      using e that by (auto simp: fwd_choices_ok_def get_executable_def)
  qed
qed

lemma forward_mid:
  assumes "conns_ok max_conns m" "get_process_id m = PID_FORWARDING" "get_executable m = 2"
    and "forward_packet m = Inr m'"
  shows "mid_ok max_conns m'"
proof -
  obtain nh ch where m': "m' = set_choice_count 1 (upd_cur (forwarded_state (m_net m) nh ch) m)"
    using forward_packet_effect[OF assms(4)] by blast
  have c: "cur m' = forwarded_state (m_net m) nh ch (cur m)"
    unfolding m' by (simp add: cur_upd_cur[symmetric] del: cur_upd_cur) (simp add: model_defs)
  show ?thesis
  proof (rule mid_okI[OF assms(1,2) forward_frame[OF assms(4)]])
    show "conn_ok (m_net m) (cur m')" using assms(3)
      by (auto simp: c conn_ok_def forwarded_state_def Let_def get_executable_def)
    show "get_executable m' = 2" if "get_fwd_mode m' = CHOOSE_INJ_RES"
      using that by (auto simp: get_fwd_mode_def c forwarded_state_def Let_def split: if_splits)
    show "fwd_choices_ok (cur m') (get_choice_count m')"
      by (auto simp: c forwarded_state_def Let_def fwd_choices_ok_def)
  qed
qed

lemma accepted_cases:
  assumes "accepted m = Inr m'"
  shows "m' = set_executable 0 m \<or> (\<exists>st dir. phase_transition st dir m = Inr m')"
proof -
  have "\<exists>st dir. accepted m \<in> {Inr (set_executable 0 m), phase_transition st dir m}
      \<or> (\<exists>e. accepted m = Inl e)"
    unfolding accepted_def Let_def by (cases "node_at m (get_pkt_location m)") auto
  then show ?thesis using assms by (metis (no_types, lifting) Inl_Inr_False insertE singletonD sum.inject(2))
qed

lemma accepted_mid:
  assumes "conns_ok max_conns m" "get_process_id m = PID_FORWARDING" "get_fwd_mode m = ACCEPTED"
    and "accepted m = Inr m'"
  shows "mid_ok max_conns m'"
proof -
  have cases: "m' = set_executable 0 m \<or> frame m m' \<and> cs_fwd_mode (cur m') = FIRST_COLLECT
      \<and> cs_executable (cur m') = get_executable m \<and> \<not> emulated_at (m_net m) (cs_pkt_location (cur m'))"
  proof -
    consider "m' = set_executable 0 m" | st dir where "phase_transition st dir m = Inr m'"
      using accepted_cases[OF assms(4)] by blast
    then show ?thesis
    proof cases
      case 2
      define nd where "nd = (if dir then get_pkt_location m else get_src_node m)"
      from phase_transition_effect[OF 2 nd_def] show ?thesis
        by (auto simp: nd_def turned_def get_executable_def get_pkt_location_def get_src_node_def split: if_splits)
    qed blast
  qed
  have x: "get_executable m \<noteq> 3 \<and> get_executable m \<noteq> 1"
    using cur_conn_ok[OF assms(1)] assms(3) by (auto simp: conn_ok_def get_executable_def get_fwd_mode_def)
  have f: "frame m m'" using cases frame_setters(1) by blast
  show ?thesis
  proof (rule mid_okI[OF assms(1,2) f])
    show "conn_ok (m_net m) (cur m')"
      using cases x assms(3) by (auto simp: conn_ok_def set_executable_def get_fwd_mode_def)
    show "get_executable m' = 2" if "get_fwd_mode m' = CHOOSE_INJ_RES"
      using cases that assms(3) by (auto simp: get_fwd_mode_def set_executable_def)
    show "fwd_choices_ok (cur m') (get_choice_count m')"
      using cases assms(3) by (auto simp: get_fwd_mode_def set_executable_def fwd_choices_ok_def)
  qed
qed

lemma conns_received:
  assumes "conns_ok max_conns m" "received_rel max_conns m (m', cu, ou)"
  shows "conns_ok max_conns m'"
proof -
  have ok: "conn_ok (m_net m') (now_conn_state (m_now m') c)
      \<and> (c \<noteq> get_conn m' \<longrightarrow> cs_fwd_mode (now_conn_state (m_now m') c) \<noteq> CHOOSE_INJ_RES)"
    if "0 \<le> c \<and> c < get_num_conns m'" for c
  proof (cases "conn_received (now_conn_state (m_now m') c)")
    case True
    then show ?thesis by (auto simp: conn_received_def conn_ok_def)
  next
    case False
    then have "now_conn_state (m_now m') c = now_conn_state (m_now m) c \<and> c < get_num_conns m"
      using assms(2) that unfolding received_rel_def by (auto simp: not_less[symmetric])
    then show ?thesis using assms(1,2) that by (auto simp: conns_ok_def received_rel_def)
  qed
  then show ?thesis using assms(2) by (auto simp: conns_ok_def received_rel_def)
qed

lemma choose_results_mid:
  assumes "conns_ok max_conns m" "get_process_id m = PID_FORWARDING" "get_executable m = 2"
    and "get_fwd_mode m = CHOOSE_INJ_RES" "choose_injection_results max_conns m = Inr m'"
  shows "mid_ok max_conns m'"
proof -
  obtain r where r: "update_model_from_injection_result max_conns (get_pkt_location m) r m = Inr m'"
    using assms(5) by (auto simp: choose_injection_results_def bindR_eq_Inr_iff)
  obtain m1 cu ou where f: "foldR (process_recv_pkt max_conns (get_pkt_location m)) (recv_pkts r) (m, False, False)
      = Inr (m1, cu, ou)"
    and m': "(if \<not> cu then Inr (no_packet_received (get_pkt_location m) (explicit_drop r) ou m1)
        else bindR (valR (get_candidates m1)) (\<lambda>candidates.
          Inr (if candidates = [] then drop_packet m1
               else set_choice_count (int (length candidates)) m1))) = Inr m'"
    using r by (auto simp: update_model_from_injection_result_def bindR_eq_Inr_iff split: if_splits)
  have b: "conns_bounded max_conns m" using assms(1) by (simp add: conns_ok_def)
  note rel = received_all[OF b f]
  have ok: "conns_ok max_conns m1" by (rule conns_received[OF assms(1) rel])
  have pid: "get_process_id m1 = PID_FORWARDING" using rel assms(2) by (simp add: received_rel_def)
  have "conn_ok (m_net m1) (cur m1)" by (rule cur_conn_ok[OF ok])
  show ?thesis
  proof (cases cu)
    case True
    then have rec: "conn_received (cur m1)" using rel by (simp add: received_rel_def)
    obtain cs where cs: "get_candidates m1 = Some cs"
      and e: "m' = (if cs = [] then drop_packet m1 else set_choice_count (int (length cs)) m1)"
      using m' True by (auto simp: bindR_eq_Inr_iff)
    have fr: "frame m1 m'" using e frame_drop frame_others(1) by metis
    have c: "cur m' = (if cs = [] then (cur m1)\<lparr>cs_fwd_mode := DROPPED, cs_executable := 0\<rparr> else cur m1)"
        "cs \<noteq> [] \<longrightarrow> get_choice_count m' = int (length cs)"
      by (simp_all add: e drop_packet_def model_defs)
    show ?thesis
    proof (rule mid_okI[OF ok pid fr])
      show "conn_ok (m_net m1) (cur m')" using rec by (auto simp: c conn_ok_def conn_received_def)
      show "get_executable m' = 2" if "get_fwd_mode m' = CHOOSE_INJ_RES"
        using that rec by (auto simp: c get_fwd_mode_def conn_received_def split: if_splits)
      show "fwd_choices_ok (cur m') (get_choice_count m')" if "get_executable m' = 2"
        using that rec c cs
        by (auto simp: get_executable_def fwd_choices_ok_def conn_received_def get_candidates_def split: if_splits)
    qed
  next
    case False
    then have u: "cur m1 = cur m" using rel by (simp add: received_rel_def)
    have e: "m' = no_packet_received (get_pkt_location m) (explicit_drop r) ou m1" using m' False by simp
    have n: "m' = drop_packet m1 \<or>
        m' = set_choice_count 1 (set_candidates (candidates_add (FIB_IPNH (get_pkt_location m) 0 (get_pkt_location m) 0) [])
          (set_fwd_mode FORWARD_PACKET (set_executable 2 m1)))"
      unfolding e no_packet_received_def Let_def by auto
    have fr: "frame m1 m'"
      using n frame_drop frame_trans[OF frame_trans[OF frame_setters(1) frame_setters(13)]
        frame_trans[OF frame_setters(16) frame_others(1)]] by metis
    have c: "cur m' = (cur m1)\<lparr>cs_fwd_mode := DROPPED, cs_executable := 0\<rparr> \<or>
        (\<exists>nh. cur m' = (cur m1)\<lparr>cs_executable := 2, cs_fwd_mode := FORWARD_PACKET, cs_candidates := Some [nh]\<rparr>
          \<and> get_choice_count m' = 1)"
      using n by (auto simp: drop_packet_def model_defs candidates_add_def)
    show ?thesis
    proof (rule mid_okI[OF ok pid fr])
      show "conn_ok (m_net m1) (cur m')" using c by (auto simp: conn_ok_def)
      show "get_executable m' = 2" if "get_fwd_mode m' = CHOOSE_INJ_RES"
        using that c by (auto simp: get_fwd_mode_def)
      show "fwd_choices_ok (cur m') (get_choice_count m')" if "get_executable m' = 2"
        using that c by (auto simp: get_executable_def fwd_choices_ok_def)
    qed
  qed
qed

lemma dropped_mid:
  assumes "conns_ok max_conns m" "get_process_id m = PID_FORWARDING" "get_fwd_mode m = DROPPED"
  shows "mid_ok max_conns (set_executable 0 m)"
  by (rule mid_okI[OF assms(1,2) frame_setters(1)])
    (use assms(3) in \<open>auto simp: conn_ok_def set_executable_def get_fwd_mode_def get_executable_def\<close>)

lemma first_forward_mid:
  assumes "conns_ok max_conns m" "get_process_id m = PID_FORWARDING" "get_executable m = 2"
    and "first_forward m = Inr m'"
  shows "mid_ok max_conns m'"
proof -
  obtain a where a: "forward_packet (set_src_ip a m) = Inr m'" using first_forward_effect[OF assms(4)] by blast
  have "conns_ok max_conns (set_src_ip a m)"
    using cur_conn_ok[OF assms(1)]
    by (intro keep_conns[OF assms(1) frame_setters(3)]) (simp add: conn_ok_def set_src_ip_def)
  moreover have "get_process_id (set_src_ip a m) = PID_FORWARDING" "get_executable (set_src_ip a m) = 2"
    using assms(2,3) by (simp_all add: model_defs)
  ultimately show ?thesis using forward_mid a by blast
qed

lemma forwarding_mid:
  assumes "state_ok max_conns m" "get_process_id m = PID_FORWARDING"
    and "forwarding_exec_step max_conns ops m = Inr m'"
  shows "mid_ok max_conns m'"
proof -
  have c: "conns_ok max_conns m" and e: "get_executable m = 2 \<or> get_fwd_mode m = ACCEPTED"
    using assms(1,2) by (simp_all add: state_ok_def)
  note h = c assms(2)
  consider "get_fwd_mode m = FIRST_COLLECT" "first_collect ops m = Inr m'"
    | "get_fwd_mode m = FIRST_FORWARD" "first_forward m = Inr m'"
    | "get_fwd_mode m = COLLECT_NHOPS" "collect_next_hops ops m = Inr m'"
    | "get_fwd_mode m = CHOOSE_INJ_RES" "choose_injection_results max_conns m = Inr m'"
    | "get_fwd_mode m = FORWARD_PACKET" "forward_packet m = Inr m'"
    | "get_fwd_mode m = ACCEPTED" "accepted m = Inr m'"
    | "get_fwd_mode m = DROPPED" "m' = set_executable 0 m"
    using assms(3) by (auto simp: forwarding_exec_step_def Let_def split: if_splits)
  then show ?thesis
  proof cases
    case 1 then show ?thesis using first_collect_mid[OF h] e by simp
  next
    case 2 then show ?thesis using first_forward_mid[OF h] e by simp
  next
    case 3 then show ?thesis using collect_mid[OF h] e by simp
  next
    case 4 then show ?thesis using choose_results_mid[OF h] e by simp
  next
    case 5 then show ?thesis using forward_mid[OF h] e by simp
  next
    case 6 then show ?thesis using accepted_mid[OF h] by simp
  next
    case 7 then show ?thesis using dropped_mid[OF h] by simp
  qed
qed

lemma openflow_form:
  assumes "openflow_exec_step m = Inr m'"
  shows "m' = m \<or> (\<exists>n. m' = set_choice_count n m)
    \<or> (\<exists>n s f. m' = set_fib f (set_choice_count n (set_openflow_update_state s m)))"
  using assms
  by (auto simp: openflow_exec_step_def install_update_def bindR_eq_Inr_iff Let_def
      split: if_splits option.splits)

lemma openflow_mid:
  assumes "state_ok max_conns m" "get_process_id m = PID_OPENFLOW" "openflow_exec_step m = Inr m'"
  shows "mid_ok max_conns m'"
proof -
  have h: "conns_ok max_conns m" "get_fwd_mode m \<in> {FIRST_COLLECT, COLLECT_NHOPS}" "get_executable m = 2"
    using assms(1,2) by (simp_all add: state_ok_def)
  have f: "frame m m'" using openflow_form[OF assms(3)]
    using frame_refl frame_others(1) frame_trans[OF frame_others(8) frame_trans[OF frame_others(1) frame_setters(20)]]
    by metis
  have c: "cur m' = cur m \<or> (\<exists>fib. cur m' = (cur m)\<lparr>cs_fib := fib\<rparr>)"
    using openflow_form[OF assms(3)] by (auto simp: model_defs)
  have "conn_ok (m_net m) (cur m')" using c cur_conn_ok[OF h(1)] by (auto simp: conn_ok_def)
  then have "conns_ok max_conns m'" by (rule keep_conns[OF h(1) f])
  moreover have "get_fwd_mode m' = get_fwd_mode m" "get_executable m' = 2"
    using c h(3) by (auto simp: get_fwd_mode_def get_executable_def)
  moreover have "fwd_choices_ok (cur m') n" for n
    using h(2) \<open>get_fwd_mode m' = get_fwd_mode m\<close> by (auto simp: fwd_choices_ok_def get_fwd_mode_def)
  ultimately show ?thesis using h(2) f assms(2) by (auto simp: mid_ok_def frame_def)
qed

section \<open>Choosing a connection\<close>

text \<open>The connections with a given value of \<open>executable\<close> that have not finished.\<close>

definition ready :: "'w model \<Rightarrow> nat \<Rightarrow> int \<Rightarrow> bool" where
  "ready m k c \<longleftrightarrow> unat (get_executable_for_conn c m) = k
     \<and> \<not> conn_finished (get_executable_for_conn c m) (get_fwd_mode_for_conn c m) (get_proto_state_for_conn c m)"

lemma exec_unat: "(e :: 2 word) \<noteq> 3 \<Longrightarrow> unat e < 3"
proof -
  assume e: "e \<noteq> 3"
  have "unat e < 2 ^ LENGTH(2)" by (rule unsigned_less)
  then have "unat e < 4" by simp
  moreover have "(of_nat (unat e) :: 2 word) = e" by simp
  then have "unat e \<noteq> 3" using e by (metis of_nat_numeral)
  ultimately show ?thesis by linarith
qed

lemma conn_map_eq:
  assumes "\<forall>c. 0 \<le> c \<and> c < get_num_conns m \<longrightarrow> get_executable_for_conn c m \<noteq> 3"
  shows "get_conn_map m = Inr (map (\<lambda>k. filter (ready m k) [0 .. get_num_conns m - 1]) [0, 1, 2])"
proof -
  let ?f = "\<lambda>conn conn_map.
         let exec = get_executable_for_conn conn m;
             mode = get_fwd_mode_for_conn conn m;
             proto_state = get_proto_state_for_conn conn m in
         if conn_finished exec mode proto_state then Inr conn_map
         else if unat exec < length conn_map
         then Inr (conn_map[unat exec := conn_map ! unat exec @ [conn]])
         else Inl Undefined_behaviour"
  have "foldR ?f xs [a, b, d] = Inr [a @ filter (ready m 0) xs, b @ filter (ready m 1) xs, d @ filter (ready m 2) xs]"
    if "\<forall>c \<in> set xs. get_executable_for_conn c m \<noteq> 3" for xs a b d
    using that
  proof (induction xs arbitrary: a b d)
    case Nil
    then show ?case by simp
  next
    case (Cons x xs)
    let ?e = "unat (get_executable_for_conn x m)"
    have "?e < 3" using Cons.prems by (intro exec_unat) simp
    then consider "?e = 0" | "?e = 1" | "?e = 2" by linarith
    then show ?case using Cons
      by cases (simp_all add: Let_def ready_def del: One_nat_def, simp_all)
  qed
  from this[of "[0 .. get_num_conns m - 1]" "[]" "[]" "[]"] assms show ?thesis
    by (simp add: get_conn_map_def)
qed

lemma ready_set_choice [simp]: "ready (set_choice c m) = ready m" "ready (set_choice_count n m) = ready m"
    "ready (set_process_id p m) = ready m" "ready (set_violated b m) = ready m"
  by (simp_all add: fun_eq_iff ready_def model_defs)

definition choices_of :: "'w model \<Rightarrow> int" where
  "choices_of m =
     (let rs = (\<lambda>k. filter (ready m k) [0 .. get_num_conns m - 1]) in
      if rs 2 \<noteq> [] then 1 else if rs 1 \<noteq> [] then int (length (rs 1)) else if rs 0 \<noteq> [] then 1 else 0)"

lemma conns_exec: "conns_ok max_conns m \<Longrightarrow> \<forall>c. 0 \<le> c \<and> c < get_num_conns m \<longrightarrow> get_executable_for_conn c m \<noteq> 3"
  by (auto simp: conns_ok_def conn_ok_def get_executable_for_conn_def)

lemma conn_choices_eq:
  assumes "conns_ok max_conns m"
  shows "conn_choices m = Some (choices_of m)"
  unfolding conn_choices_def conn_map_eq[OF conns_exec[OF assms]] by (simp add: choices_of_def Let_def)

lemma update_choice_count_form:
  assumes "conns_ok max_conns m" "update_choice_count m = Inr m'"
  shows "m' = set_choice_count (choices_of m) m"
  using assms(2) conn_map_eq[OF conns_exec[OF assms(1)]]
  by (auto simp: update_choice_count_def choices_of_def Let_def dest!: print_conn_states_id split: if_splits)

lemma drop_selected_form:
  assumes "drop_selected m = Inr m'"
  shows "m' = (if get_fwd_mode m \<noteq> DROPPED \<and> \<not> (get_fwd_mode m = ACCEPTED \<and> ps_is_last (get_proto_state m))
    then set_fwd_mode DROPPED m else m)"
  using assms by (auto simp: drop_selected_def Let_def bindR_eq_Inr_iff split: if_splits)

text \<open>Selecting one of the connections.\<close>

lemma drop_selected_ready:
  assumes "bindR (drop_selected (set_conn c m)) print_conn_states = Inr m1" "ready m 0 c"
  shows "m1 = set_fwd_mode DROPPED (set_conn c m)"
proof -
  obtain m2 where m2: "drop_selected (set_conn c m) = Inr m2" "print_conn_states m2 = Inr m1"
    using assms(1) unfolding bindR_eq_Inr_iff by blast
  have "m1 = m2" by (rule print_conn_states_id[OF m2(2)])
  then have "drop_selected (set_conn c m) = Inr m1" using m2(1) by simp
  then have d: "m1 = (if get_fwd_mode (set_conn c m) \<noteq> DROPPED \<and> \<not> (get_fwd_mode (set_conn c m) = ACCEPTED
      \<and> ps_is_last (get_proto_state (set_conn c m))) then set_fwd_mode DROPPED (set_conn c m) else set_conn c m)"
    using drop_selected_form by blast
  have "\<not> (get_fwd_mode_for_conn c m = DROPPED \<or> get_fwd_mode_for_conn c m = ACCEPTED
      \<and> ps_is_last (get_proto_state_for_conn c m))"
    using assms(2) by (auto simp: ready_def conn_finished_def unat_eq_0)
  then show ?thesis
    unfolding d by (simp add: get_fwd_mode_for_conn_def get_proto_state_for_conn_def get_fwd_mode_def
      get_proto_state_def cur_def set_conn_def upd_now_def)
qed

lemma select_effect:
  assumes "conns_ok max_conns m" "get_fwd_mode m \<noteq> CHOOSE_INJ_RES"
    and "choose_conn_exec_step m = Inr m'"
  obtains c k m1 where "0 \<le> c" "c < get_num_conns m" "ready m k c" "k < 3"
    and "m1 = (if k = 2 then set_conn c m else if k = 1 then set_executable 2 (set_conn c m)
      else set_fwd_mode DROPPED (set_conn c m))"
    and "\<exists>n. m' = set_choice_count n m1 \<and> (get_fwd_mode m1 = FORWARD_PACKET \<or> get_fwd_mode m1 = FIRST_FORWARD \<longrightarrow>
      (\<exists>cs. get_candidates m1 = Some cs \<and> n = int (length cs)))"
proof -
  let ?rs = "\<lambda>k. filter (ready m k) [0 .. get_num_conns m - 1]"
  note cm = conn_map_eq[OF conns_exec[OF assms(1)]]
  have mem: "0 \<le> c \<and> c < get_num_conns m \<and> ready m k c" if "c \<in> set (?rs k)" for c k
    using that by auto
  obtain m1 where m1: "(if ?rs 2 \<noteq> [] then
          bindR (assertR (get_choice m = 0)) (\<lambda>_.
          print_conn_states (set_conn (?rs 2 ! 0) m))
        else if ?rs 1 \<noteq> [] then
          if 0 \<le> get_choice m \<and> nat (get_choice m) < length (?rs 1) then
            print_conn_states (set_executable 2 (set_conn (?rs 1 ! nat (get_choice m)) m))
          else Inl Undefined_behaviour
        else if ?rs 0 \<noteq> [] then
          bindR (assertR (get_choice m = 0)) (\<lambda>_.
          bindR (drop_selected (set_conn (?rs 0 ! 0) m)) print_conn_states)
        else Inl (Runtime_error ''No executable connection'')) = Inr m1"
    and r: "(if get_fwd_mode m1 = FORWARD_PACKET \<or> get_fwd_mode m1 = FIRST_FORWARD then
        bindR (valR (get_candidates m1)) (\<lambda>candidates.
        Inr (set_choice_count (int (length candidates)) m1))
      else Inr (set_choice_count 1 m1)) = Inr m'"
    using assms(3) unfolding choose_conn_exec_step_def Let_def cm bindR_Inr
    by (auto simp only: bindR_eq_Inr_iff list.map nth_Cons_0 nth_Cons_numeral pred_numeral_simps
      nth_Cons_Suc One_nat_def numeral_2_eq_2)
  have m': "\<exists>n. m' = set_choice_count n m1 \<and> (get_fwd_mode m1 = FORWARD_PACKET \<or> get_fwd_mode m1 = FIRST_FORWARD \<longrightarrow>
      (\<exists>cs. get_candidates m1 = Some cs \<and> n = int (length cs)))"
    using r by (auto simp: bindR_eq_Inr_iff split: if_splits)
  consider (two) "?rs 2 \<noteq> []" | (one) "?rs 2 = []" "?rs 1 \<noteq> []" | (zero) "?rs 2 = []" "?rs 1 = []" "?rs 0 \<noteq> []"
    | (none) "?rs 2 = []" "?rs 1 = []" "?rs 0 = []" by blast
  then show ?thesis
  proof cases
    case two
    then have e: "m1 = set_conn (?rs 2 ! 0) m" using m1 by (auto simp: bindR_eq_Inr_iff dest: print_conn_states_id)
    have "?rs 2 ! 0 \<in> set (?rs 2)" using two by (metis length_greater_0_conv nth_mem)
    note t = mem[OF this]
    show ?thesis
      by (rule that[OF t[THEN conjunct1] t[THEN conjunct2, THEN conjunct1] t[THEN conjunct2, THEN conjunct2] _ _ m'])
        (simp_all add: e)
  next
    case one
    then have i: "nat (get_choice m) < length (?rs 1)" using m1 by (simp split: if_splits)
    then have e: "m1 = set_executable 2 (set_conn (?rs 1 ! nat (get_choice m)) m)"
      using m1 one by (auto dest: print_conn_states_id split: if_splits)
    have "?rs 1 ! nat (get_choice m) \<in> set (?rs 1)" using i by (rule nth_mem)
    note t = mem[OF this]
    show ?thesis
      by (rule that[OF t[THEN conjunct1] t[THEN conjunct2, THEN conjunct1] t[THEN conjunct2, THEN conjunct2] _ _ m'])
        (simp_all add: e)
  next
    case zero
    define c where "c = ?rs 0 ! 0"
    have c: "c \<in> set (?rs 0)" unfolding c_def using zero by (metis length_greater_0_conv nth_mem)
    have "bindR (assertR (get_choice m = 0)) (\<lambda>_. bindR (drop_selected (set_conn c m)) print_conn_states) = Inr m1"
      using m1 unfolding c_def zero(1,2) if_P[OF zero(3)] by (simp only: if_False simp_thms)
    then have "bindR (drop_selected (set_conn c m)) print_conn_states = Inr m1"
      by (cases "get_choice m = 0") simp_all
    then have e: "m1 = set_fwd_mode DROPPED (set_conn c m)"
      using drop_selected_ready mem[OF c] by blast
    note t = mem[OF c]
    show ?thesis
      by (rule that[OF t[THEN conjunct1] t[THEN conjunct2, THEN conjunct1] t[THEN conjunct2, THEN conjunct2] _ _ m'])
        (simp_all add: e)
  next
    case none
    then show ?thesis using m1 by simp
  qed
qed

lemma choose_conn_mid:
  assumes "state_ok max_conns m" "get_process_id m = PID_CHOOSE_CONN" "choose_conn_exec_step m = Inr m'"
  shows "mid_ok max_conns m'"
proof -
  have ok: "conns_ok max_conns m" and mode: "get_fwd_mode m \<noteq> CHOOSE_INJ_RES"
    using assms(1,2) by (simp_all add: state_ok_def)
  from select_effect[OF ok mode assms(3)] obtain c k m1 n where c: "0 \<le> c" "c < get_num_conns m" "ready m k c" "k < 3"
    and m1: "m1 = (if k = 2 then set_conn c m else if k = 1 then set_executable 2 (set_conn c m)
      else set_fwd_mode DROPPED (set_conn c m))"
    and m': "m' = set_choice_count n m1"
    and n: "get_fwd_mode m1 = FORWARD_PACKET \<or> get_fwd_mode m1 = FIRST_FORWARD \<longrightarrow>
      (\<exists>cs. get_candidates m1 = Some cs \<and> n = int (length cs))" by metis
  define old where "old = now_conn_state (m_now m) c"
  define new where "new = (if k = 2 then old else if k = 1 then old\<lparr>cs_executable := 2\<rparr>
    else old\<lparr>cs_fwd_mode := DROPPED\<rparr>)"
  have st: "now_conn_state (m_now m') = (now_conn_state (m_now m))(c := new)" "get_conn m' = c"
      "get_num_conns m' = get_num_conns m" "m_net m' = m_net m" "get_process_id m' = get_process_id m"
      "cur m' = new" "get_choice_count m' = n" "cur m1 = new"
    by (simp_all add: m' m1 new_def old_def model_defs)
  have o: "conn_ok (m_net m) old" using ok c(1,2) by (simp add: conns_ok_def old_def)
  have nomode: "cs_fwd_mode (now_conn_state (m_now m) d) \<noteq> CHOOSE_INJ_RES"
    if "0 \<le> d" "d < get_num_conns m" for d
    using that ok mode by (cases "d = get_conn m") (auto simp: conns_ok_def get_fwd_mode_def cur_conn)
  have e: "unat (cs_executable old) = k" using c(3) by (simp add: ready_def old_def get_executable_for_conn_def)
  have "cs_executable old = of_nat k" unfolding e[symmetric] by simp
  then have e2: "k = 2 \<Longrightarrow> cs_executable old = 2" "k = 1 \<Longrightarrow> cs_executable old = 1" "k = 0 \<Longrightarrow> cs_executable old = 0"
    by simp_all
  have nmode: "cs_fwd_mode new \<noteq> CHOOSE_INJ_RES" using nomode[OF c(1,2)] by (simp add: new_def old_def)
  have nok: "conn_ok (m_net m) new"
    using o e2 c(4) by (auto simp: new_def conn_ok_def)
  have "conns_ok max_conns m'"
    using ok nok nmode nomode c(1,2) by (auto simp: conns_ok_def conns_bounded_def st)
  moreover have "fwd_choices_ok new n"
    using n nmode by (auto simp: fwd_choices_ok_def get_fwd_mode_def get_candidates_def st)
  ultimately show ?thesis using nmode assms(2) by (simp add: mid_ok_def get_fwd_mode_def st)
qed

lemma process_mid:
  assumes "state_ok max_conns m" "process_step max_conns ops m = Inr m'"
  shows "mid_ok max_conns m'"
  using assms choose_conn_mid[OF assms(1)] forwarding_mid[OF assms(1)] openflow_mid[OF assms(1)]
  by (auto simp: process_step_def Let_def split: if_splits)

section \<open>Switching the process\<close>

lemma choices_of_cong:
  assumes "get_num_conns m' = get_num_conns m"
    and "\<And>c. get_executable_for_conn c m' = get_executable_for_conn c m"
    and "\<And>c. get_fwd_mode_for_conn c m' = get_fwd_mode_for_conn c m"
    and "\<And>c. get_proto_state_for_conn c m' = get_proto_state_for_conn c m"
  shows "choices_of m' = choices_of m"
proof -
  have "ready m' = ready m" by (simp add: fun_eq_iff ready_def assms)
  then show ?thesis by (simp add: choices_of_def assms(1))
qed

lemma conns_ok_control:
  "conns_ok max_conns (set_choice_count n m) = conns_ok max_conns m"
  "conns_ok max_conns (set_process_id p m) = conns_ok max_conns m"
  "conns_ok max_conns (set_choice n m) = conns_ok max_conns m"
  by (simp_all add: conns_ok_def conns_bounded_def model_defs)

lemma switch_cases:
  assumes "check_to_switch_process m = Inr m'" "get_executable m = 2"
  obtains "get_process_id m = PID_CHOOSE_CONN" "m' = set_process_id PID_FORWARDING m"
    | "get_process_id m = PID_FORWARDING" "get_fwd_mode m \<in> {FIRST_COLLECT, COLLECT_NHOPS}"
      "m' = set_choice_count 2 (set_process_id PID_OPENFLOW m)"
    | "get_process_id m = PID_FORWARDING" "m' = m"
    | "get_process_id m = PID_OPENFLOW" "m' = set_process_id PID_FORWARDING m"
    | "get_process_id m = PID_OPENFLOW" "m' = m"
proof -
  have "get_process_id m = PID_CHOOSE_CONN \<or> get_process_id m = PID_FORWARDING \<or> get_process_id m = PID_OPENFLOW"
    using assms unfolding check_to_switch_process_def Let_def by (simp split: if_splits)
  then show thesis
  proof (elim disjE)
    assume pid: "get_process_id m = PID_FORWARDING"
    show thesis
    proof (cases "get_fwd_mode m = COLLECT_NHOPS \<or> get_fwd_mode m = FIRST_COLLECT")
      case t: True
      have h: "bindR (has_updates (get_pkt_location m) m) (\<lambda>upd.
          Inr (if upd then set_choice_count 2 (set_process_id PID_OPENFLOW m) else m)) = Inr m'"
        using assms pid t unfolding check_to_switch_process_def Let_def by simp
      then obtain u where hu: "has_updates (get_pkt_location m) m = Inr u"
        by (cases "has_updates (get_pkt_location m) m") simp_all
      have u: "m' = (if u then set_choice_count 2 (set_process_id PID_OPENFLOW m) else m)"
        using h hu by simp
      show thesis using that(2,3)[OF pid] t u by (cases u) auto
    next
      case False
      then have "m' = m" using assms pid unfolding check_to_switch_process_def Let_def by simp
      then show thesis using that(3) pid by blast
    qed
  next
    assume pid: "get_process_id m = PID_OPENFLOW"
    then have "m' = (if get_choice_count m = 1 then set_process_id PID_FORWARDING m else m)"
      using assms unfolding check_to_switch_process_def Let_def by simp
    then show thesis using that(4,5) pid by (cases "get_choice_count m = 1") auto
  next
    assume pid: "get_process_id m = PID_CHOOSE_CONN"
    then have "m' = set_process_id PID_FORWARDING m"
      using assms unfolding check_to_switch_process_def Let_def by simp
    then show thesis using that(1) pid by blast
  qed
qed

lemma switch_state:
  assumes "mid_ok max_conns m" "check_to_switch_process m = Inr m'"
  shows "state_ok max_conns m'"
proof -
  have ok: "conns_ok max_conns m" and mode: "get_fwd_mode m = CHOOSE_INJ_RES \<longrightarrow> get_executable m = 2"
    and ch: "get_executable m = 2 \<longrightarrow> fwd_choices_ok (cur m) (get_choice_count m)"
    and ofl: "get_process_id m = PID_OPENFLOW \<longrightarrow>
          get_fwd_mode m \<in> {FIRST_COLLECT, COLLECT_NHOPS} \<and> get_executable m = 2"
    using assms(1) by (simp_all add: mid_ok_def)
  show ?thesis
  proof (cases "get_executable m = 2")
    case False
    define m1 where "m1 = set_process_id PID_CHOOSE_CONN m"
    have ok1: "conns_ok max_conns m1" using ok by (simp add: m1_def conns_ok_control)
    have "update_choice_count m1 = Inr m'" using assms(2) False by (simp add: check_to_switch_process_def m1_def)
    from update_choice_count_form[OF ok1 this] have m': "m' = set_choice_count (choices_of m1) m1" .
    have "choices_of m' = choices_of m1" by (rule choices_of_cong) (simp_all add: m' model_defs)
    moreover have ok': "conns_ok max_conns m'" using ok1 by (simp add: m' conns_ok_control)
    moreover have "get_choice_count m' = choices_of m1" "get_process_id m' = PID_CHOOSE_CONN"
        "get_executable m' = get_executable m" "get_fwd_mode m' = get_fwd_mode m"
      by (simp_all add: m' m1_def model_defs)
    ultimately show ?thesis using conn_choices_eq[OF ok'] False mode by (simp add: state_ok_def)
  next
    case True
    show ?thesis
      by (rule switch_cases[OF assms(2) True]; use ok True ch ofl in
        \<open>(simp add: state_ok_def conns_ok_control, (simp add: model_defs)?)\<close>)
  qed
qed


section \<open>The checks\<close>

text \<open>What a check may change: the visited hops of the current connection, \<open>executable\<close> of an
  accepted connection, which becomes 0, the number of choices, which becomes 0, and the fields of
  the invariants.\<close>

definition checked :: "'w model \<Rightarrow> 'w model \<Rightarrow> bool" where
  "checked m m' \<longleftrightarrow> frame m m' \<and> (get_choice_count m' = get_choice_count m \<or> get_choice_count m' = 0)
     \<and> cur m' = (cur m)\<lparr>cs_executable := cs_executable (cur m'), cs_visited_hops := cs_visited_hops (cur m')\<rparr>
     \<and> (get_executable m' = get_executable m \<or> get_fwd_mode m = ACCEPTED \<and> get_executable m' = 0)"

lemma checked_refl: "checked m m"
  by (simp add: checked_def frame_refl)

lemma checked_trans:
  assumes "checked a b" "checked b c"
  shows "checked a c"
proof -
  have m: "get_fwd_mode b = get_fwd_mode a"
    using assms(1) unfolding checked_def get_fwd_mode_def by (metis conn_state.select_convs(13) conn_state.surjective conn_state.update_convs(1,20))
  have "cur c = (cur a)\<lparr>cs_executable := cs_executable (cur c), cs_visited_hops := cs_visited_hops (cur c)\<rparr>"
  proof -
    have e: "(x\<lparr>cs_executable := e, cs_visited_hops := v\<rparr>)\<lparr>cs_executable := e', cs_visited_hops := v'\<rparr>
        = x\<lparr>cs_executable := e', cs_visited_hops := v'\<rparr>" for x :: conn_state and e e' v v'
      by simp
    have "cur b = (cur a)\<lparr>cs_executable := cs_executable (cur b), cs_visited_hops := cs_visited_hops (cur b)\<rparr>"
        "cur c = (cur b)\<lparr>cs_executable := cs_executable (cur c), cs_visited_hops := cs_visited_hops (cur c)\<rparr>"
      using assms by (simp_all add: checked_def)
    then show ?thesis using e by metis
  qed
  then show ?thesis using assms m frame_trans[of a b c] unfolding checked_def by auto
qed

lemma checked_steps:
  "checked m (conclude b m)" "checked m (set_reach_counts rc m)" "checked m (set_visited_hops vh m)"
  "get_fwd_mode m = ACCEPTED \<Longrightarrow> checked m (set_executable 0 m)"
  "checked m (set_correlated_inv_idx i m)"
  unfolding checked_def conclude_def
  by (simp_all add: frame_def model_defs)


lemma checked_conclude: "checked m m' \<Longrightarrow> checked m (conclude b m')"
  by (rule checked_trans[OF _ checked_steps(1)])

lemma check_one_request_checked:
  assumes "check_one_request ns m = Inr m'"
  shows "checked m m'"
proof (cases "get_fwd_mode m = ACCEPTED \<and> ps_is_request (get_proto_state m) \<and> get_rx_node m \<in> set ns")
  case True
  then obtain rc b where "m' = set_executable 0 (set_reach_counts rc (if b then conclude True m else m))"
    using assms by (auto simp: check_one_request_def Let_def bindR_eq_Inr_iff)
  moreover have "checked m (set_reach_counts rc (if b then conclude True m else m))"
    by (cases b) (auto intro: checked_trans[OF _ checked_steps(2)] checked_steps)
  moreover have "get_fwd_mode (set_reach_counts rc (if b then conclude True m else m)) = ACCEPTED"
    using True by (simp add: conclude_def model_defs)
  ultimately show ?thesis using checked_trans checked_steps(4) by blast
next
  case False
  then have "m' = m" using assms by (auto simp: check_one_request_def Let_def split: if_splits)
  then show ?thesis by (simp add: checked_refl)
qed

lemma check_loadbalance_checked:
  assumes "check_loadbalance ns ex m = Inr m'"
  shows "checked m m'"
proof (cases "get_fwd_mode m = ACCEPTED \<and> ps_is_first (get_proto_state m)")
  case True
  then obtain rc b where "m' = set_executable 0 (set_reach_counts rc (if b then conclude True m else m))"
    using assms by (auto simp: check_loadbalance_def Let_def bindR_eq_Inr_iff)
  moreover have "checked m (set_reach_counts rc (if b then conclude True m else m))"
    by (cases b) (auto intro: checked_trans[OF _ checked_steps(2)] checked_steps)
  moreover have "get_fwd_mode (set_reach_counts rc (if b then conclude True m else m)) = ACCEPTED"
    using True by (simp add: conclude_def model_defs)
  ultimately show ?thesis using checked_trans checked_steps(4) by blast
next
  case False
  then have "m' = m" using assms by (auto simp: check_loadbalance_def Let_def split: if_splits)
  then show ?thesis by (simp add: checked_refl)
qed

lemma check_simple_checked:
  assumes "check_simple k m = Inr m'"
  shows "checked m m'"
proof (cases k)
  case (Reachability ns r)
  then show ?thesis using assms checked_refl[of m] checked_steps(1)[of m]
    by (auto simp: check_simple_def check_reachability_def Let_def)
next
  case (Reply_reachability ns r)
  then show ?thesis using assms checked_refl[of m] checked_steps(1)[of m]
    by (auto simp: check_simple_def check_reply_reachability_def Let_def)
next
  case (Waypoint ns p)
  then show ?thesis using assms checked_refl[of m] checked_steps(1)[of m]
    by (auto simp: check_simple_def check_waypoint_def)
next
  case (One_request ns)
  then show ?thesis using assms check_one_request_checked by (auto simp: check_simple_def)
next
  case (Load_balance ns ex)
  then show ?thesis using assms check_loadbalance_checked by (auto simp: check_simple_def)
next
  case Loop_inv
  have "m' = m \<or> (\<exists>b. m' = conclude b m) \<or> (\<exists>vh. m' = set_visited_hops vh m)"
    using assms unfolding Loop_inv check_simple_def check_loop_def Let_def
    by (auto simp: bindR_eq_Inr_iff split: if_splits option.splits)
  then show ?thesis using checked_refl checked_steps(1,3) by blast
qed (use assms in \<open>simp_all add: check_simple_def\<close>)

text \<open>A combination only updates its own fields and moves on.\<close>

definition same_conns :: "invariant \<Rightarrow> invariant \<Rightarrow> bool" where
  "same_conns u v \<longleftrightarrow> iv_kind u = iv_kind v \<and> iv_correlated u = iv_correlated v \<and> iv_conns u = iv_conns v"

lemma next_correlated_form:
  "next_correlated u m = (flag, v', m') \<Longrightarrow>
     v' = u \<and> ((\<exists>b. m' = conclude b m) \<or> (\<exists>i. m' = set_correlated_inv_idx i m))"
  by (auto simp: next_correlated_def split: if_splits)

lemma check_conditional_form:
  assumes "check_conditional v m = Inr (flag, v', m')"
  shows "\<exists>k m1. check_simple k m = Inr m1 \<and> same_conns v' v
    \<and> (m' = m1 \<or> (\<exists>b. m' = conclude b m1) \<or> (\<exists>i. m' = set_correlated_inv_idx i m1))"
proof -
  obtain k m1 where m1: "check_simple k m = Inr m1"
    and r: "(if get_choice_count m1 = 0 then
       if get_correlated_inv_idx m1 = 0 \<and> get_violated m1 then Inr (False, v, conclude False m1)
       else if get_correlated_inv_idx m1 \<noteq> 0 \<and> get_violated m1 then Inr (False, v, conclude True m1)
       else Inr (next_correlated v m1)
     else Inr (False, v, m1)) = (Inr (flag, v', m') :: (bool \<times> invariant \<times> 'a model) result)"
    using assms unfolding check_conditional_def bindR_eq_Inr_iff by blast
  then have "v' = v \<and> (m' = m1 \<or> (\<exists>b. m' = conclude b m1) \<or> (\<exists>i. m' = set_correlated_inv_idx i m1))"
    using next_correlated_form[of v m1 flag v' m'] by (simp split: if_splits) auto
  then show ?thesis using m1 by (auto simp: same_conns_def)
qed

lemma check_consistency_form:
  assumes "check_consistency v m = Inr (flag, v', m')"
  shows "\<exists>k m1. check_simple k m = Inr m1 \<and> same_conns v' v
    \<and> (m' = m1 \<or> (\<exists>b. m' = conclude b m1) \<or> (\<exists>i. m' = set_correlated_inv_idx i m1))"
proof -
  obtain k m1 where m1: "check_simple k m = Inr m1"
    and r: "(if get_choice_count m1 = 0 then
       let v = (if iv_unset v then v\<lparr>iv_result := get_violated m1, iv_unset := False\<rparr> else v) in
       if get_violated m1 \<noteq> iv_result v then Inr (False, v, conclude True m1)
       else Inr (next_correlated v m1)
     else Inr (False, v, m1)) = (Inr (flag, v', m') :: (bool \<times> invariant \<times> 'a model) result)"
    using assms unfolding check_consistency_def bindR_eq_Inr_iff by blast
  define u where "u = (if iv_unset v then v\<lparr>iv_result := get_violated m1, iv_unset := False\<rparr> else v)"
  have "same_conns u v" "same_conns v v" by (simp_all add: u_def same_conns_def)
  moreover have "(v' = u \<or> v' = v) \<and> (m' = m1 \<or> (\<exists>b. m' = conclude b m1) \<or> (\<exists>i. m' = set_correlated_inv_idx i m1))"
    using r next_correlated_form[of u m1 flag v' m'] unfolding u_def[symmetric] Let_def
    by (simp split: if_splits) auto
  ultimately show ?thesis using m1 by blast
qed

lemma check_violation_checked:
  assumes "check_violation v m = Inr (flag, v', m')"
  shows "checked m m' \<and> same_conns v' v"
proof -
  have step: "checked m m' \<and> same_conns v' v"
    if "\<exists>k m1. check_simple k m = Inr m1 \<and> same_conns v' v
    \<and> (m' = m1 \<or> (\<exists>b. m' = conclude b m1) \<or> (\<exists>i. m' = set_correlated_inv_idx i m1))"
    using that check_simple_checked checked_trans[OF _ checked_steps(5)] checked_conclude by blast
  consider "iv_kind v = Conditional" | "iv_kind v = Consistency" | "iv_kind v \<noteq> Conditional \<and> iv_kind v \<noteq> Consistency"
    by blast
  then show ?thesis
  proof cases
    case 1
    then show ?thesis using assms step check_conditional_form[of v m flag v' m'] by (simp add: check_violation_def)
  next
    case 2
    then show ?thesis using assms step check_consistency_form[of v m flag v' m'] by (simp add: check_violation_def)
  next
    case 3
    then have "bindR (check_simple (iv_kind v) m) (\<lambda>m. Inr (False, v, m)) = Inr (flag, v', m')"
      using assms by (cases "iv_kind v") (simp_all add: check_violation_def)
    then show ?thesis using check_simple_checked by (auto simp: bindR_eq_Inr_iff same_conns_def)
  qed
qed

lemma checked_fields:
  assumes "checked m m'"
  shows "cs_fwd_mode (cur m') = cs_fwd_mode (cur m)" "cs_candidates (cur m') = cs_candidates (cur m)"
    "cs_inj_results (cur m') = cs_inj_results (cur m)" "cs_pkt_location (cur m') = cs_pkt_location (cur m)"
    "cs_proto_state (cur m') = cs_proto_state (cur m)"
proof -
  have "cur m' = (cur m)\<lparr>cs_executable := cs_executable (cur m'), cs_visited_hops := cs_visited_hops (cur m')\<rparr>"
    using assms by (simp add: checked_def)
  then obtain e v where "cur m' = (cur m)\<lparr>cs_executable := e, cs_visited_hops := v\<rparr>" by blast
  then show "cs_fwd_mode (cur m') = cs_fwd_mode (cur m)" "cs_candidates (cur m') = cs_candidates (cur m)"
    "cs_inj_results (cur m') = cs_inj_results (cur m)" "cs_pkt_location (cur m') = cs_pkt_location (cur m)"
    "cs_proto_state (cur m') = cs_proto_state (cur m)" by simp_all
qed

lemma two_bits: "(e :: 2 word) = 0 \<or> e = 1 \<or> e = 2 \<or> e = 3"
proof -
  have "unat e < 2 ^ LENGTH(2)" by (rule unsigned_less)
  moreover have "(of_nat (unat e) :: 2 word) = e" by simp
  ultimately obtain k where k: "e = of_nat k" "k < 4" using that[of "unat e"] by simp
  then have "k = 0 \<or> k = 1 \<or> k = 2 \<or> k = 3" by linarith
  then show ?thesis unfolding k(1) by (elim disjE) simp_all
qed

lemma checked_state:
  assumes "state_ok max_conns m" "checked m m'"
  shows "state_ok max_conns m'"
proof -
  note f = checked_fields[OF assms(2)]
  have ok: "conns_ok max_conns m" using assms(1) by (simp add: state_ok_def)
  have fr: "frame m m'" and cnt: "get_choice_count m' = get_choice_count m \<or> get_choice_count m' = 0"
    and ex: "get_executable m' = get_executable m \<or> get_fwd_mode m = ACCEPTED \<and> get_executable m' = 0"
    using assms(2) by (simp_all add: checked_def)
  have "conn_ok (m_net m) (cur m')"
    using cur_conn_ok[OF ok] ex by (auto simp: conn_ok_def f get_executable_def get_fwd_mode_def)
  then have ok': "conns_ok max_conns m'" by (rule keep_conns[OF ok fr])
  have mode: "get_fwd_mode m' = get_fwd_mode m" by (simp add: get_fwd_mode_def f)
  have pid: "get_process_id m' = get_process_id m" using fr by (simp add: frame_def)
  have fc: "fwd_choices_ok (cur m') n = fwd_choices_ok (cur m) n" for n by (simp add: fwd_choices_ok_def f)
  have ch: "choices_of m' = choices_of m" and e2: "get_executable m' = get_executable m"
    if "get_process_id m = PID_CHOOSE_CONN"
  proof -
    have "get_executable m \<noteq> 2" using assms(1) that by (simp add: state_ok_def)
    then have "get_executable m = 0" if "get_fwd_mode m = ACCEPTED"
      using cur_conn_ok[OF ok] that two_bits[of "get_executable m"]
      by (auto simp add: conn_ok_def get_executable_def get_fwd_mode_def)
    then show e2: "get_executable m' = get_executable m" using ex by auto
    show "choices_of m' = choices_of m"
    proof (rule choices_of_cong)
      show "get_num_conns m' = get_num_conns m" using fr by (simp add: frame_def)
      fix c
      show "get_executable_for_conn c m' = get_executable_for_conn c m"
        "get_fwd_mode_for_conn c m' = get_fwd_mode_for_conn c m"
        "get_proto_state_for_conn c m' = get_proto_state_for_conn c m"
        using fr e2 f by (cases "c = get_conn m"; simp add: frame_def get_executable_for_conn_def
          get_fwd_mode_for_conn_def get_proto_state_for_conn_def get_executable_def cur_conn)+
    qed
  qed
  show ?thesis
    using assms(1) ok' cnt ex ch e2 mode pid conn_choices_eq[OF ok] conn_choices_eq[OF ok']
    unfolding state_ok_def fc by auto
qed

section \<open>Initial states\<close>

definition fresh :: "network \<Rightarrow> conn_state \<Rightarrow> bool" where
  "fresh net cs \<longleftrightarrow> cs_executable cs = 2 \<and> cs_fwd_mode cs = FIRST_COLLECT
     \<and> \<not> emulated_at net (cs_pkt_location cs)"

lemma init_conns_fresh:
  assumes "foldR (\<lambda>(i, c). conn_init i c) (enumerate k conns) m = Inr m'"
    and "\<forall>c \<in> set conns. \<not> emulated_at (m_net m) (cn_src_node c)"
    and "\<forall>i. 0 \<le> i \<and> i < int k \<longrightarrow> fresh (m_net m) (now_conn_state (m_now m) i)"
  shows "m_net m' = m_net m \<and>
    (\<forall>i. 0 \<le> i \<and> i < int (k + length conns) \<longrightarrow> fresh (m_net m) (now_conn_state (m_now m') i))"
  using assms
proof (induction conns arbitrary: k m)
  case Nil
  then show ?case by simp
next
  case (Cons c conns)
  obtain m1 where m1: "conn_init k c m = Inr m1"
    and r: "foldR (\<lambda>(i, c). conn_init i c) (enumerate (Suc k) conns) m1 = Inr m'"
    using Cons.prems(1) by (auto simp: bindR_eq_Inr_iff)
  obtain cs where m1': "m1 = m\<lparr>m_now := (m_now m)\<lparr>now_conn_state := (now_conn_state (m_now m))(int k := cs)\<rparr>\<rparr>"
    and cs: "cs_executable cs = 2" "cs_fwd_mode cs = FIRST_COLLECT" "cs_pkt_location cs = cn_src_node c"
    using conn_init_effect[OF m1] by fastforce
  have "fresh (m_net m) cs" using cs Cons.prems(2) by (simp add: fresh_def)
  then have "\<forall>i. 0 \<le> i \<and> i < int (Suc k) \<longrightarrow> fresh (m_net m1) (now_conn_state (m_now m1) i)"
    using Cons.prems(3) by (auto simp: m1')
  from Cons.IH[OF r _ this] Cons.prems(2) show ?case by (simp add: m1')
qed

text \<open>The connections an invariant starts with.\<close>

definition conns_given :: "int \<Rightarrow> network \<Rightarrow> connection list \<Rightarrow> bool" where
  "conns_given max_conns net conns \<longleftrightarrow> conns \<noteq> [] \<and> int (length conns) \<le> max_conns
     \<and> list_all (\<lambda>c. \<not> emulated_at net (cn_src_node c)) conns"

definition started :: "int \<Rightarrow> 'w model \<Rightarrow> bool" where
  "started max_conns m \<longleftrightarrow> get_conn m = 0 \<and> 0 < get_num_conns m \<and> get_num_conns m \<le> max_conns
     \<and> (\<forall>i. 0 \<le> i \<and> i < get_num_conns m \<longrightarrow> fresh (m_net m) (now_conn_state (m_now m) i))"

lemma init_conns_started:
  assumes "init_conns conns m = Inr m'" "conns_given max_conns (m_net m) conns"
  shows "started max_conns m' \<and> m_net m' = m_net m"
proof -
  obtain m1 where m1: "foldR (\<lambda>(i, c). conn_init i c) (enumerate 0 conns) m = Inr m1"
    and m': "print_conn_states (set_num_conns (int (length conns)) (set_conn 0 m1)) = Inr m'"
    using assms(1) unfolding init_conns_def bindR_eq_Inr_iff by blast
  have "m' = set_num_conns (int (length conns)) (set_conn 0 m1)" by (rule print_conn_states_id[OF m'])
  moreover have "\<forall>i. 0 \<le> i \<and> i < int 0 \<longrightarrow> fresh (m_net m) (now_conn_state (m_now m) i)" by auto
  then have "m_net m1 = m_net m \<and> (\<forall>i. 0 \<le> i \<and> i < int (length conns) \<longrightarrow> fresh (m_net m) (now_conn_state (m_now m1) i))"
    using init_conns_fresh[OF m1] assms(2) by (simp add: conns_given_def list_all_iff)
  ultimately show ?thesis using assms(2) by (simp add: started_def conns_given_def model_defs)
qed

lemma started_control: "started max_conns m \<Longrightarrow> state_ok max_conns (control_state m)"
proof -
  assume s: "started max_conns m"
  then have "fresh (m_net m) (now_conn_state (m_now m) 0)" by (simp add: started_def)
  then have "cs_executable (cur (control_state m)) = 2" "cs_fwd_mode (cur (control_state m)) = FIRST_COLLECT"
    using s by (simp_all add: fresh_def started_def control_state_def model_defs)
  moreover have "conns_ok max_conns (control_state m)"
    using s by (auto simp: conns_ok_def conns_bounded_def started_def conn_ok_def fresh_def control_state_def model_defs)
  moreover have "get_process_id (control_state m) = PID_FORWARDING" by (simp add: control_state_def model_defs)
  ultimately show ?thesis
    by (simp add: state_ok_def get_executable_def get_fwd_mode_def fwd_choices_ok_def)
qed

text \<open>The connections of an invariant, or of each of the correlated ones.\<close>

definition conn_lists :: "invariant \<Rightarrow> connection list list" where
  "conn_lists v =
     (if (iv_kind v = Conditional \<or> iv_kind v = Consistency) \<and> iv_correlated v \<noteq> []
      then map iv_conns (iv_correlated v) else [iv_conns v])"

definition inv_given :: "int \<Rightarrow> network \<Rightarrow> invariant \<Rightarrow> bool" where
  "inv_given max_conns net v \<longleftrightarrow> list_all (conns_given max_conns net) (conn_lists v)"

lemma inv_given_same: "same_conns u v \<Longrightarrow> inv_given max_conns net u = inv_given max_conns net v"
  by (simp add: same_conns_def inv_given_def conn_lists_def)

text \<open>What the parser and the constructors leave in an invariant, and sources that are no
  middleboxes.\<close>

definition plain_sources :: "network \<Rightarrow> connspec list \<Rightarrow> bool" where
  "plain_sources net specs \<longleftrightarrow> (\<forall>sp \<in> set specs. \<forall>n \<in> set (sp_src_nodes sp). \<not> emulated_at net n)"

definition verifiable :: "int \<Rightarrow> network \<Rightarrow> invariant \<Rightarrow> bool" where
  "verifiable max_conns net v \<longleftrightarrow> 1 \<le> max_conns \<and> int (length (iv_conn_specs v)) \<le> max_conns
     \<and> plain_sources net (iv_conn_specs v) \<and> iv_conns v = []
     \<and> (\<forall>p \<in> set (iv_correlated v). plain_sources net (iv_conn_specs p) \<and> iv_conns p = [])
     \<and> (iv_correlated v \<noteq> [] \<longrightarrow> iv_kind v = Conditional \<or> iv_kind v = Consistency)"

text \<open>An invariant whose matrix and current connections come from such specifications.\<close>

definition sourced :: "int \<Rightarrow> network \<Rightarrow> 'a simple_inv_scheme \<Rightarrow> bool" where
  "sourced max_conns net p \<longleftrightarrow> int (length (cm_product (iv_conn_matrix p))) \<le> max_conns
     \<and> (\<forall>s \<in> set (cm_product (iv_conn_matrix p)). \<forall>c \<in> set s. \<not> emulated_at net (cn_src_node c))
     \<and> (iv_conns p \<noteq> [] \<longrightarrow> conns_given max_conns net (iv_conns p))"

lemma deref_itrs_product:
  "deref_itrs ss is = Inr cs \<Longrightarrow> length cs \<le> length ss \<and> (\<forall>c \<in> set cs. \<exists>s \<in> set ss. c \<in> set s)"
  by (induction ss "is" arbitrary: cs rule: deref_itrs.induct)
    (fastforce simp: bindR_eq_Inr_iff split: if_splits)+

lemma set_conns_simple_sourced:
  assumes "set_conns_simple p = Inr (found, p')" "sourced max_conns net p"
  shows "sourced max_conns net p' \<and> (found \<longleftrightarrow> iv_conns p' \<noteq> []) \<and> iv_kind p' = iv_kind p"
proof -
  obtain conns cm where g: "get_next_conns (iv_conn_matrix p) = Inr (conns, cm)"
    and p': "found = (conns \<noteq> [])" "p' = p\<lparr>iv_conns := conns, iv_conn_matrix := cm\<rparr>"
    using assms(1) by (auto simp: set_conns_simple_def bindR_eq_Inr_iff)
  have "cm_product cm = cm_product (iv_conn_matrix p)"
    using g by (auto simp: get_next_conns_def bindR_eq_Inr_iff Let_def split_beta split: if_splits)
  moreover have "conns = [] \<or> deref_itrs (cm_product (iv_conn_matrix p)) (cm_itrs (iv_conn_matrix p)) = Inr conns"
    using g by (auto simp: get_next_conns_def bindR_eq_Inr_iff Let_def split_beta split: if_splits)
  then have "conns \<noteq> [] \<longrightarrow> conns_given max_conns net conns"
    using assms(2) deref_itrs_product by (fastforce simp: conns_given_def sourced_def list_all_iff)
  ultimately show ?thesis using assms(2) by (simp add: p' sourced_def)
qed

lemma set_conns_correlated_sourced:
  assumes "set_conns_correlated ps = Inr (found, ps')" "\<forall>p \<in> set ps. sourced max_conns net p"
  shows "(\<forall>p \<in> set ps'. sourced max_conns net p) \<and> length ps' = length ps"
  using assms
proof (induction ps arbitrary: found ps' rule: set_conns_correlated.induct)
  case (2 p ps)
  obtain m1 p1 where s: "set_conns_simple p = Inr (m1, p1)" using "2.prems"(1) by (auto simp: bindR_eq_Inr_iff)
  have p1: "sourced max_conns net p1" using set_conns_simple_sourced[OF s] "2.prems"(2) by auto
  show ?case
  proof (cases m1)
    case True
    then show ?thesis using "2.prems" s p1 by (auto simp: bindR_eq_Inr_iff)
  next
    case False
    then obtain m2 ps2 where r: "set_conns_correlated ps = Inr (m2, ps2)"
      and ps': "ps' = p1\<lparr>iv_conn_matrix := matrix_reset (iv_conn_matrix p1)\<rparr> # ps2"
      using "2.prems"(1) s by (auto simp: bindR_eq_Inr_iff)
    have "sourced max_conns net (p1\<lparr>iv_conn_matrix := matrix_reset (iv_conn_matrix p1)\<rparr>)"
      using p1 by (simp add: sourced_def matrix_reset_def)
    then show ?thesis using "2.IH"[OF False r] "2.prems"(2) ps' by auto
  qed
qed simp

definition inv_sourced :: "int \<Rightarrow> network \<Rightarrow> invariant \<Rightarrow> bool" where
  "inv_sourced max_conns net v \<longleftrightarrow>
     (if iv_correlated v = [] then sourced max_conns net v
      else (\<forall>p \<in> set (iv_correlated v). sourced max_conns net p)
        \<and> (iv_kind v = Conditional \<or> iv_kind v = Consistency))"

lemma set_conns_sourced:
  assumes "set_conns v = Inr (found, v')" "inv_sourced max_conns net v"
  shows "inv_sourced max_conns net v' \<and> (found \<and> iv_correlated v' = [] \<longrightarrow> iv_conns v' \<noteq> []) \<and> iv_kind v' = iv_kind v"
proof (cases "iv_correlated v = []")
  case True
  then have s: "set_conns_simple v = Inr (found, v')" using assms(1) by (simp add: set_conns_def)
  then have "iv_correlated v' = []" using True by (auto simp: set_conns_simple_def bindR_eq_Inr_iff)
  then show ?thesis using set_conns_simple_sourced[OF s] assms(2) True by (simp add: inv_sourced_def)
next
  case False
  then obtain ps where s: "set_conns_correlated (iv_correlated v) = Inr (found, ps)" "v' = v\<lparr>iv_correlated := ps\<rparr>"
    using assms(1) by (auto simp: set_conns_def bindR_eq_Inr_iff)
  then show ?thesis
    using set_conns_correlated_sourced[OF s(1), of max_conns net] assms(2) False by (auto simp: inv_sourced_def)
qed

lemma conn_round_given:
  assumes "conn_round k v = Inr (Some v')" "inv_sourced max_conns net v"
    and "\<forall>p \<in> set (iv_correlated v'). iv_conns p \<noteq> []"
  shows "inv_given max_conns net v' \<and> iv_kind v' = iv_kind v"
  using assms
proof (induction k v rule: conn_round.induct)
  case (1 v)
  then have "set_conns v = Inr (True, v')" by (auto simp: bindR_eq_Inr_iff split: if_splits)
  from set_conns_sourced[OF this 1(2)] 1(3) show ?case
    by (auto simp: inv_given_def conn_lists_def inv_sourced_def sourced_def list_all_iff split: if_splits)
next
  case (2 n v)
  then obtain v1 where "set_conns v = Inr (True, v1)" "conn_round n v1 = Inr (Some v')"
    by (auto simp: bindR_eq_Inr_iff split: if_splits)
  then show ?case using "2.IH"[of True v1] set_conns_sourced[of v True v1] "2.prems"(2,3) by simp
qed

lemma fill_matrix_sourced:
  assumes "plain_sources net specs" "iv_conns p = []" "int (length specs) \<le> max_conns"
  shows "sourced max_conns net (p\<lparr>iv_conn_matrix := fill_matrix specs ecs cm\<rparr>)"
proof -
  have "fill_matrix specs ecs cm = fold matrix_add (map (\<lambda>sp. compute_connections sp ecs) specs) (matrix_clear cm)"
    by (simp add: fill_matrix_def fold_map comp_def)
  then have "cm_product (fill_matrix specs ecs cm) = map (\<lambda>sp. compute_connections sp ecs) specs"
    by (simp only: matrix_build conn_matrix.select_convs)
  moreover have "\<not> emulated_at net (cn_src_node c)" if "sp \<in> set specs" "c \<in> set (compute_connections sp ecs)" for sp c
  proof -
    have "\<exists>s e q. s \<in> set (sp_src_nodes sp) \<and> c = mk_connection (sp_protocol sp) s e (sp_src_port sp) q"
      using compute_connections_spec[of sp ecs] that(2) by blast
    then show ?thesis using assms(1) that(1) by (auto simp: plain_sources_def mk_connection_def)
  qed
  ultimately show ?thesis using assms(2,3) by (auto simp: sourced_def)
qed

lemma foldR_collect:
  assumes "foldR (\<lambda>p ps. bindR (g p) (\<lambda>x. Inr (ps @ [h p x]))) xs acc = Inr r"
    and "\<And>p x. p \<in> set xs \<Longrightarrow> g p = Inr x \<Longrightarrow> P (h p x)" "\<forall>y \<in> set acc. P y"
  shows "(\<forall>y \<in> set r. P y) \<and> length r = length acc + length xs"
  using assms
proof (induction xs arbitrary: acc)
  case (Cons p xs)
  then obtain x where x: "g p = Inr x" by (auto simp: bindR_eq_Inr_iff)
  have "foldR (\<lambda>p ps. bindR (g p) (\<lambda>x. Inr (ps @ [h p x]))) xs (acc @ [h p x]) = Inr r"
    using Cons.prems(1) x by simp
  from Cons.IH[OF this] Cons.prems(2,3) x show ?case by auto
qed simp

lemma compute_conn_matrix_sourced:
  assumes "compute_conn_matrix alloc v ecs = Inr (v', ecs')" "verifiable max_conns net v"
  shows "inv_sourced max_conns net v' \<and> iv_kind v' = iv_kind v"
proof (cases "iv_correlated v = []")
  case True
  then obtain e where "v' = v\<lparr>iv_conn_matrix := fill_matrix (iv_conn_specs v) e (iv_conn_matrix v)\<rparr>"
    using assms(1) by (auto simp: compute_conn_matrix_def bindR_eq_Inr_iff)
  then show ?thesis using fill_matrix_sourced[of net "iv_conn_specs v" v max_conns] assms(2) True
    by (simp add: inv_sourced_def verifiable_def)
next
  case False
  then obtain e ps where ps: "foldR (\<lambda>p ps. bindR (first_spec p) (\<lambda>sp.
        Inr (ps @ [p\<lparr>iv_conn_matrix := fill_matrix [sp] e (iv_conn_matrix p)\<rparr>]))) (iv_correlated v) [] = Inr ps"
    and v': "v' = v\<lparr>iv_correlated := ps\<rparr>"
    using assms(1) by (auto simp: compute_conn_matrix_def bindR_eq_Inr_iff)
  have "sourced max_conns net (p\<lparr>iv_conn_matrix := fill_matrix [sp] e (iv_conn_matrix p)\<rparr>)"
    if "p \<in> set (iv_correlated v)" "first_spec p = Inr sp" for p sp
  proof (rule fill_matrix_sourced)
    have "sp \<in> set (iv_conn_specs p)" using that(2) by (auto simp: first_spec_def split: list.splits)
    then show "plain_sources net [sp]" "iv_conns p = []" "int (length [sp]) \<le> max_conns"
      using assms(2) that(1) by (auto simp: verifiable_def plain_sources_def)
  qed
  from foldR_collect[OF ps, of "sourced max_conns net", OF this] False assms(2) show ?thesis
    by (auto simp: inv_sourced_def verifiable_def v')
qed

lemma verify_invariant_given:
  assumes "verify_invariant alloc k u ecs = Inr (Some v, ecs')" "verifiable max_conns net u"
    and "\<forall>p \<in> set (iv_correlated v). iv_conns p \<noteq> []"
  shows "inv_given max_conns net v \<and> iv_kind v = iv_kind u"
proof -
  obtain u1 where "compute_conn_matrix alloc u ecs = Inr (u1, ecs')" "conn_round k u1 = Inr (Some v)"
    using assms(1) by (auto simp: verify_invariant_def bindR_eq_Inr_iff)
  then show ?thesis
    using compute_conn_matrix_sourced[of alloc u ecs u1 ecs' max_conns net] conn_round_given[of k u1 v max_conns net]
      assms(2,3) by simp
qed

lemma started_fields:
  assumes "m_net m' = m_net m" "now_conn_state (m_now m') = now_conn_state (m_now m)"
    "get_conn m' = get_conn m" "get_num_conns m' = get_num_conns m"
  shows "started max_conns m' = started max_conns m"
  using assms by (simp add: started_def)

lemma simple_init_started:
  assumes "simple_init p m = Inr m'" "conns_given max_conns (m_net m) (iv_conns p)"
  shows "started max_conns m' \<and> m_net m' = m_net m"
proof -
  have "\<exists>m1. init_conns (iv_conns p) m = Inr m1 \<and> m_net m' = m_net m1
      \<and> now_conn_state (m_now m') = now_conn_state (m_now m1)
      \<and> get_conn m' = get_conn m1 \<and> get_num_conns m' = get_num_conns m1"
    using assms(1)
    by (cases "iv_kind p") (auto simp: simple_init_def reachability_init_def reply_reachability_init_def
      waypoint_init_def one_request_init_def load_balance_init_def loop_init_def bindR_eq_Inr_iff
      set_violated_def set_reach_counts_def upd_now_def get_conn_def get_num_conns_def)
  then obtain m1 where m1: "init_conns (iv_conns p) m = Inr m1" "m_net m' = m_net m1"
      "now_conn_state (m_now m') = now_conn_state (m_now m1)"
      "get_conn m' = get_conn m1" "get_num_conns m' = get_num_conns m1" by blast
  from init_conns_started[OF m1(1) assms(2)] started_fields[OF m1(2-5)] m1(2) show ?thesis by simp
qed

lemma combined_init_started:
  assumes "combined_init v m = Inr m'" "inv_given max_conns (m_net m) v"
    and "iv_kind v = Conditional \<or> iv_kind v = Consistency"
  shows "started max_conns m' \<and> m_net m' = m_net m"
proof (cases "iv_correlated v = []")
  case True
  then show ?thesis using assms init_conns_started
    by (auto simp: combined_init_def inv_given_def conn_lists_def)
next
  case False
  obtain p where p: "correlated_at v m = Inr p" "simple_init p m = Inr m'"
    using assms(1) False by (auto simp: combined_init_def bindR_eq_Inr_iff)
  then have "p \<in> set (iv_correlated v)" by (auto simp: correlated_at_def Let_def split: if_splits)
  then have "conns_given max_conns (m_net m) (iv_conns p)"
    using assms(2,3) False by (auto simp: inv_given_def conn_lists_def list_all_iff)
  then show ?thesis using simple_init_started[OF p(2)] by blast
qed

lemma inv_init_started:
  assumes "inv_init v m = Inr (v', m')" "inv_given max_conns (m_net m) v"
  shows "started max_conns m' \<and> m_net m' = m_net m \<and> same_conns v' v"
proof -
  consider "iv_kind v = Conditional" | "iv_kind v = Consistency" | "iv_kind v \<noteq> Conditional \<and> iv_kind v \<noteq> Consistency"
    by blast
  then show ?thesis
  proof cases
    case 1
    then have "combined_init v (set_correlated_inv_idx 0 m) = Inr m'" "v' = v"
      using assms(1) by (auto simp: inv_init_def conditional_init_def bindR_eq_Inr_iff)
    then show ?thesis using combined_init_started[of v "set_correlated_inv_idx 0 m" m' max_conns] assms(2) 1
      by (simp add: same_conns_def set_correlated_inv_idx_def upd_now_def)
  next
    case 2
    then have "combined_init v (set_correlated_inv_idx 0 m) = Inr m'" "v' = v\<lparr>iv_unset := True\<rparr>"
      using assms(1) by (auto simp: inv_init_def consistency_init_def bindR_eq_Inr_iff)
    then show ?thesis using combined_init_started[of v "set_correlated_inv_idx 0 m" m' max_conns] assms(2) 2
      by (simp add: same_conns_def set_correlated_inv_idx_def upd_now_def)
  next
    case 3
    then have "simple_init v m = Inr m' \<and> v' = v"
      using assms(1) by (cases "iv_kind v") (auto simp: inv_init_def bindR_eq_Inr_iff)
    then show ?thesis using simple_init_started[of v m m' max_conns] assms(2) 3
      by (simp add: same_conns_def inv_given_def conn_lists_def)
  qed
qed

lemma init_net:
  "forwarding_init m = Inr m' \<Longrightarrow> m_net m' = m_net m"
  "m_net (openflow_init m) = m_net m"
  by (auto simp: forwarding_init_def openflow_init_def bindR_eq_Inr_iff set_pkt_hist_def
    set_openflow_update_state_def upd_now_def)

lemma initialize_state:
  assumes "initialize (v, m) = Inr (v', m')" "inv_given max_conns (m_net m) v"
  shows "state_ok max_conns m' \<and> m_net m' = m_net m \<and> same_conns v' v"
proof -
  obtain m1 m2 where m1: "forwarding_init m = Inr m1" and i: "inv_init v (openflow_init m1) = Inr (v', m2)"
    and m': "m' = control_state m2"
    using assms(1) by (auto simp: initialize_def bindR_eq_Inr_iff)
  have n: "m_net (openflow_init m1) = m_net m" using init_net m1 by metis
  from inv_init_started[OF i] assms(2) n
  have "started max_conns m2 \<and> m_net m2 = m_net m \<and> same_conns v' v" by simp
  then show ?thesis using started_control by (auto simp: m' control_state_def set_choice_count_def
    set_choice_def set_process_id_def upd_now_def)
qed

lemma reinit_state:
  assumes "reinit (v, m) = Inr (v', m')" "inv_given max_conns (m_net m) v"
  shows "state_ok max_conns m' \<and> m_net m' = m_net m \<and> v' = v"
proof -
  obtain m1 m2 where m1: "forwarding_init m = Inr m1" and i: "inv_reinit v (openflow_init m1) = Inr m2"
    and m': "m' = control_state m2" "v' = v"
    using assms(1) by (auto simp: reinit_def bindR_eq_Inr_iff)
  have n: "m_net (openflow_init m1) = m_net m" using init_net m1 by metis
  have k: "iv_kind v = Conditional \<or> iv_kind v = Consistency"
    using i by (cases "iv_kind v") (simp_all add: inv_reinit_def)
  have "combined_init v (openflow_init m1) = Inr m2"
    using i k by (auto simp: inv_reinit_def conditional_reinit_def consistency_reinit_def)
  from combined_init_started[OF this _ k] assms(2) n
  have "started max_conns m2 \<and> m_net m2 = m_net m" by simp
  then show ?thesis using started_control by (auto simp: m' control_state_def set_choice_count_def
    set_choice_def set_process_id_def upd_now_def)
qed

section \<open>Every step\<close>

lemma process_net:
  assumes "state_ok max_conns m" "process_step max_conns ops m = Inr m'"
  shows "m_net m' = m_net m"
proof -
  have ok: "conns_ok max_conns m" using assms(1) by (simp add: state_ok_def)
  consider "get_process_id m = PID_CHOOSE_CONN" "choose_conn_exec_step m = Inr m'"
    | "get_process_id m = PID_FORWARDING" "forwarding_exec_step max_conns ops m = Inr m'"
    | "openflow_exec_step m = Inr m'"
    using assms(2) by (auto simp: process_step_def Let_def split: if_splits)
  then show ?thesis
  proof cases
    case 1
    then have mode: "get_fwd_mode m \<noteq> CHOOSE_INJ_RES" using assms(1) by (simp add: state_ok_def)
    from select_effect[OF ok mode 1(2)] obtain c k m1 n where
      "m1 = (if k = (2 :: nat) then set_conn c m else if k = 1 then set_executable 2 (set_conn c m)
        else set_fwd_mode DROPPED (set_conn c m))" "m' = set_choice_count n m1" by metis
    then show ?thesis by (simp add: model_defs)
  next
    case 2
    have fr: "frame m m'" if "first_forward m = Inr m'"
      using first_forward_effect[OF that] forward_frame frame_setters(3) frame_trans by blast
    have acc: "frame m m'" if "accepted m = Inr m'"
    proof -
      consider "m' = set_executable 0 m" | st dir where "phase_transition st dir m = Inr m'"
        using accepted_cases[OF \<open>accepted m = Inr m'\<close>] by blast
      then show ?thesis
      proof cases
        case 2
        from phase_transition_effect[OF 2 refl] show ?thesis using frame_setters(1) by (auto split: if_splits)
      qed (simp add: frame_setters)
    qed
    have col: "frame m m'" if c: "first_collect ops m = Inr m'"
    proof -
      obtain m1 where "collect_next_hops ops m = Inr m1" "m' = set_fwd_mode FIRST_FORWARD m1"
        using c by (auto simp: first_collect_def bindR_eq_Inr_iff)
      then show ?thesis using frame_trans[OF collect_frame frame_setters(13)] by blast
    qed
    have inj: "m_net m' = m_net m" if c: "choose_injection_results max_conns m = Inr m'"
    proof -
      have b: "conns_bounded max_conns m" using ok by (simp add: conns_ok_def)
      obtain r where r: "update_model_from_injection_result max_conns (get_pkt_location m) r m = Inr m'"
        using c by (auto simp: choose_injection_results_def bindR_eq_Inr_iff)
      obtain m1 cu ou where f: "foldR (process_recv_pkt max_conns (get_pkt_location m)) (recv_pkts r) (m, False, False)
          = Inr (m1, cu, ou)"
        and e: "m' = no_packet_received (get_pkt_location m) (explicit_drop r) ou m1 \<or> m' = drop_packet m1
          \<or> (\<exists>n. m' = set_choice_count n m1)"
        using r by (auto simp: update_model_from_injection_result_def bindR_eq_Inr_iff split: if_splits)
      have "m_net m1 = m_net m" using received_all[OF b f] by (simp add: received_rel_def)
      then show ?thesis using e by (auto simp: no_packet_received_def Let_def drop_packet_def model_defs)
    qed
    show ?thesis using 2(2) fr acc col inj collect_frame[of ops m m'] forward_frame[of m m'] frame_setters(1)[of m 0]
      by (auto simp: forwarding_exec_step_def Let_def frame_def split: if_splits)
  next
    case 3
    then show ?thesis using openflow_form[of m m'] by (auto simp: model_defs)
  qed
qed

lemma state_ok_cong:
  assumes "m_now m' = m_now m" "m_net m' = m_net m"
  shows "state_ok max_conns m' = state_ok max_conns m"
proof -
  have "get_conn_map m' = get_conn_map m"
    by (simp add: get_conn_map_def get_executable_for_conn_def get_fwd_mode_for_conn_def
      get_proto_state_for_conn_def get_num_conns_def assms)
  then have "conn_choices m' = conn_choices m" by (simp add: conn_choices_def)
  then show ?thesis
    by (simp add: state_ok_def conns_ok_def conns_bounded_def get_process_id_def get_conn_def
      get_num_conns_def get_fwd_mode_def get_executable_def get_choice_count_def cur_def assms)
qed

lemma state_ok_choice: "state_ok max_conns (set_choice c m) = state_ok max_conns m"
proof -
  have "get_conn_map (set_choice c m) = get_conn_map m"
    by (simp add: get_conn_map_def get_executable_for_conn_def get_fwd_mode_for_conn_def
      get_proto_state_for_conn_def get_num_conns_def set_choice_def upd_now_def)
  then have "conn_choices (set_choice c m) = conn_choices m" by (simp add: conn_choices_def)
  then show ?thesis
    by (simp add: state_ok_def conns_ok_def conns_bounded_def get_process_id_def get_conn_def
      get_num_conns_def get_fwd_mode_def get_executable_def get_choice_count_def cur_def
      set_choice_def upd_now_def)
qed

lemma exec_step_state:
  assumes "exec_step max_conns ops (v, m) = Inr (v', m')"
    and "state_ok max_conns m" "inv_given max_conns (m_net m) v"
  shows "state_ok max_conns m' \<and> m_net m' = m_net m \<and> same_conns v' v"
proof -
  obtain m1 m2 fl u m3 where s: "process_step max_conns ops m = Inr m1" "check_to_switch_process m1 = Inr m2"
      "check_violation v m2 = Inr (fl, u, m3)"
      "(if fl then reinit (u, m3) else Inr (u, m3)) = Inr (v', m')"
    using assms(1) by (auto simp: exec_step_def bindR_eq_Inr_iff)
  have n1: "m_net m1 = m_net m" by (rule process_net[OF assms(2) s(1)])
  have "mid_ok max_conns m1" by (rule process_mid[OF assms(2) s(1)])
  then have ok2: "state_ok max_conns m2" by (rule switch_state[OF _ s(2)])
  have n2: "m_net m2 = m_net m1"
  proof (cases "get_executable m1 = 2")
    case True
    then show ?thesis using s(2)
      by (auto simp: check_to_switch_process_def Let_def bindR_eq_Inr_iff set_process_id_def
        set_choice_count_def upd_now_def split: if_splits)
  next
    case False
    then have "update_choice_count (set_process_id PID_CHOOSE_CONN m1) = Inr m2"
      using s(2) by (simp add: check_to_switch_process_def)
    then have "\<exists>n. m2 = set_choice_count n (set_process_id PID_CHOOSE_CONN m1)"
      by (auto simp: update_choice_count_def bindR_eq_Inr_iff dest!: print_conn_states_id split: if_splits)
    then show ?thesis by (auto simp: model_defs)
  qed
  have c: "checked m2 m3" "same_conns u v" using check_violation_checked[OF s(3)] by blast+
  have ok3: "state_ok max_conns m3" by (rule checked_state[OF ok2 c(1)])
  have n3: "m_net m3 = m_net m" using c(1) n1 n2 by (simp add: checked_def frame_def)
  show ?thesis
  proof (cases fl)
    case True
    then have "reinit (u, m3) = Inr (v', m')" using s(4) by simp
    from reinit_state[OF this] show ?thesis using assms(3) inv_given_same[OF c(2)] n3 c(2) by simp
  next
    case False
    then show ?thesis using s(4) ok3 n3 c(2) by simp
  qed
qed

lemma explores_state:
  assumes "explores max_conns ops s0 V s" "s0 = (v0, m0)" "inv_given max_conns (m_net m0) v0"
  shows "m_net (snd s) = m_net m0 \<and> inv_given max_conns (m_net m0) (fst s)
    \<and> (\<forall>n \<in> V. state_ok max_conns ((snd s)\<lparr>m_now := n\<rparr>))"
  using assms
proof (induction)
  case (start v m)
  then have "initialize (v0, m0) = Inr (v, m)" by simp
  from initialize_state[OF this start(3)] show ?case using start inv_given_same[of v v0] by simp
next
  case (step V v m n c v' m')
  then have IH: "m_net m = m_net m0" "inv_given max_conns (m_net m0) v"
      "\<forall>n \<in> V. state_ok max_conns (m\<lparr>m_now := n\<rparr>)" by simp_all
  let ?m = "set_choice c (m\<lparr>m_now := n\<rparr>)"
  have "state_ok max_conns ?m" using IH(3) step.hyps(2) by (simp add: state_ok_choice)
  moreover have "m_net ?m = m_net m0" using IH(1) by (simp add: set_choice_def upd_now_def)
  ultimately have e: "state_ok max_conns m' \<and> m_net m' = m_net m0 \<and> same_conns v' v"
    using exec_step_state[OF step.hyps(5)] IH(2) by simp
  have "state_ok max_conns (m'\<lparr>m_now := k\<rparr>)" if "k \<in> V" for k
    using IH(1,3) e that state_ok_cong[of "m'\<lparr>m_now := k\<rparr>" "m\<lparr>m_now := k\<rparr>"] by simp
  then show ?case using e IH(2) inv_given_same[of v' v] by simp
qed

text \<open>What a valid choice gives the process that uses it.\<close>

lemma state_ok_selection:
  assumes "state_ok max_conns m" "get_process_id m = PID_CHOOSE_CONN" "0 \<le> c" "c < get_choice_count m"
  shows "\<exists>cm. get_conn_map m = Inr cm \<and>
    (if cm ! 2 \<noteq> [] then c = 0 else if cm ! 1 \<noteq> [] then nat c < length (cm ! 1)
     else cm ! 0 \<noteq> [] \<and> c = 0)"
proof -
  have "conn_choices m = Some (get_choice_count m)" using assms by (auto simp: state_ok_def)
  then obtain cm where cm: "get_conn_map m = Inr cm"
    and n: "(if cm ! 2 \<noteq> [] then Some 1 else if cm ! 1 \<noteq> [] then Some (int (length (cm ! 1)))
     else if cm ! 0 \<noteq> [] then Some 1 else Some 0) = Some (get_choice_count m)"
    unfolding conn_choices_def by (cases "get_conn_map m") simp_all
  define x y z where "x = cm ! 2" and "y = cm ! 1" and "z = cm ! 0"
  have "if x \<noteq> [] then c = 0 else if y \<noteq> [] then nat c < length y else z \<noteq> [] \<and> c = 0"
    using n assms(3,4) unfolding x_def[symmetric] y_def[symmetric] z_def[symmetric]
    by (simp split: if_splits; linarith)
  then show ?thesis using cm unfolding x_def y_def z_def by blast
qed

lemma state_ok_forwarding:
  assumes "state_ok max_conns m" "get_process_id m = PID_FORWARDING" "0 \<le> c" "c < get_choice_count m"
  shows "cs_fwd_mode (cur m) \<in> {FIRST_FORWARD, FORWARD_PACKET} \<Longrightarrow>
      \<exists>cands. cs_candidates (cur m) = Some cands \<and> is_ok (candidates_at cands c)"
    and "cs_fwd_mode (cur m) = CHOOSE_INJ_RES \<Longrightarrow>
      \<exists>rs. cs_inj_results (cur m) = Some rs \<and> is_ok (results_at rs c)"
proof -
  have fwd: "fwd_choices_ok (cur m) (get_choice_count m)" using assms by (simp add: state_ok_def)
  show "\<exists>cands. cs_candidates (cur m) = Some cands \<and> is_ok (candidates_at cands c)"
    if h: "cs_fwd_mode (cur m) \<in> {FIRST_FORWARD, FORWARD_PACKET}"
  proof -
    obtain cands where "cs_candidates (cur m) = Some cands" "get_choice_count m = int (length cands)"
      using fwd h unfolding fwd_choices_ok_def by blast
    then show ?thesis using assms(3,4) by (auto simp: candidates_at_def)
  qed
  show "\<exists>rs. cs_inj_results (cur m) = Some rs \<and> is_ok (results_at rs c)"
    if h: "cs_fwd_mode (cur m) = CHOOSE_INJ_RES"
  proof -
    obtain rs where "cs_inj_results (cur m) = Some rs" "get_choice_count m = int (length rs)"
      using fwd h unfolding fwd_choices_ok_def by blast
    then show ?thesis using assms(3,4) by (auto simp: results_at_def)
  qed
qed

text \<open>C2. Let an invariant as the parser makes it be verified in the way of \<open>verify_invariant\<close>: its
  matrix of connections is computed, and the child process number \<open>k\<close> explores one combination of
  them. Assume that no source node of its connection specifications is a middlebox, which the
  parser does not check. Then in every state vector the exploration reaches the selected
  connection exists, there are at most \<open>MAX_CONNS\<close> connections, the process and the modes are ones
  the code handles, and every choice the model checker may select is in bounds for the process
  that will use it: the candidates or the injection results it indexes exist and have that index,
  and the connection it selects exists; so no choice raises \<open>std::out_of_range\<close>, trips the
  assertions of \<open>ChooseConnProcess\<close> or dereferences a null pointer to candidates or results. For an
  invariant that combines others it must be assumed that each of them has a connection in this
  combination, which \<open>set_conns\<close> does not see to in the first round.\<close>

theorem explored_choices_in_bounds:
  assumes "verify_invariant alloc k u ecs = Inr (Some v0, ecs')" "verifiable max_conns (m_net m0) u"
    and "\<forall>p \<in> set (iv_correlated v0). iv_conns p \<noteq> []"
    and "explores max_conns ops (v0, m0) V (v, m)" "n \<in> V"
  shows "0 \<le> now_conn n \<and> now_conn n < now_num_conns n \<and> now_num_conns n \<le> max_conns
    \<and> now_process_id n \<in> {PID_CHOOSE_CONN, PID_FORWARDING, PID_OPENFLOW}
    \<and> (\<forall>i. 0 \<le> i \<and> i < now_num_conns n \<longrightarrow>
         cs_fwd_mode (now_conn_state n i) \<noteq> 7 \<and> cs_executable (now_conn_state n i) \<noteq> 3)
    \<and> (\<forall>c. 0 \<le> c \<and> c < now_choice_count n \<longrightarrow>
        (let cs = now_conn_state n (now_conn n) in
         (now_process_id n = PID_FORWARDING \<and> cs_fwd_mode cs \<in> {FIRST_FORWARD, FORWARD_PACKET} \<longrightarrow>
           (\<exists>cands. cs_candidates cs = Some cands \<and> is_ok (candidates_at cands c)))
         \<and> (now_process_id n = PID_FORWARDING \<and> cs_fwd_mode cs = CHOOSE_INJ_RES \<longrightarrow>
           (\<exists>rs. cs_inj_results cs = Some rs \<and> is_ok (results_at rs c)))
         \<and> (now_process_id n = PID_CHOOSE_CONN \<longrightarrow>
           (\<exists>cm. get_conn_map (m\<lparr>m_now := n\<rparr>) = Inr cm \<and>
             (if cm ! 2 \<noteq> [] then c = 0 else if cm ! 1 \<noteq> [] then nat c < length (cm ! 1)
              else cm ! 0 \<noteq> [] \<and> c = 0)))))"
proof -
  define M where "M = m\<lparr>m_now := n\<rparr>"
  have ok: "state_ok max_conns M"
    using explores_state[OF assms(4) refl] verify_invariant_given[OF assms(1-3)] assms(5) by (simp add: M_def)
  then have co: "conns_ok max_conns M" by (simp add: state_ok_def)
  have f: "get_conn M = now_conn n" "get_num_conns M = now_num_conns n" "get_process_id M = now_process_id n"
      "get_choice_count M = now_choice_count n" "cur M = now_conn_state n (now_conn n)"
      "now_conn_state (m_now M) = now_conn_state n"
    by (simp_all add: M_def model_defs)
  have b: "0 \<le> now_conn n \<and> now_conn n < now_num_conns n \<and> now_num_conns n \<le> max_conns"
    using co by (simp add: conns_ok_def conns_bounded_def f)
  have p: "now_process_id n \<in> {PID_CHOOSE_CONN, PID_FORWARDING, PID_OPENFLOW}"
    using ok two_bits[of "now_process_id n"] by (auto simp: state_ok_def f)
  have s: "\<forall>i. 0 \<le> i \<and> i < now_num_conns n \<longrightarrow>
         cs_fwd_mode (now_conn_state n i) \<noteq> 7 \<and> cs_executable (now_conn_state n i) \<noteq> 3"
    using co by (auto simp: conns_ok_def conn_ok_def f)
  note choices = state_ok_forwarding[OF ok] state_ok_selection[OF ok]
  show ?thesis
    by (intro conjI b[THEN conjunct1] b[THEN conjunct2, THEN conjunct1] b[THEN conjunct2, THEN conjunct2] p s)
      (unfold Let_def M_def[symmetric] f(5)[symmetric], intro allI impI conjI; elim conjE;
        rule choices; simp add: f)
qed

text \<open>One connection from a switch, verified for loops.\<close>

definition sample_invariant :: invariant where
  "sample_invariant = \<lparr>iv_kind = Loop_inv, iv_conn_specs = [], iv_conn_matrix = conn_matrix_init,
     iv_conns = [mk_connection 0 1 1 49152 80], iv_correlated = [], iv_result = False, iv_unset = True\<rparr>"

lemma sample_given: "inv_given 4 (m_net sample_of_model) sample_invariant"
  by (simp add: inv_given_def conn_lists_def sample_invariant_def conns_given_def emulated_at_def
    mk_connection_def sample_of_model_def is_emulated_def sample_switch_def)

definition sample_started :: "unit model" where
  "sample_started = openflow_init (set_pkt_hist Map.empty sample_of_model)"

lemma sample_init_conns: "is_ok (init_conns [mk_connection 0 1 1 49152 80] sample_started)"
proof -
  let ?c = "mk_connection 0 1 1 49152 80"
  have u: "is_ok (update_fib (set_dst_ip_ec (cn_dst_ip_ec ?c) sample_started))"
    unfolding sample_started_def by code_simp
  have "conn_init_proto_state (cn_protocol ?c) = Inr PS_TCP_INIT_1"
    by (simp add: conn_init_proto_state_def mk_connection_def)
  from conn_init_ok[OF this u, of 0] obtain m3 where m3: "conn_init 0 ?c sample_started = Inr m3"
    by (auto simp: is_ok_iff)
  obtain cs where m3': "m3 = sample_started\<lparr>m_now := (m_now sample_started)\<lparr>now_conn_state :=
      (now_conn_state (m_now sample_started))(0 := cs)\<rparr>\<rparr>"
    and cs: "cs_src_node cs = cn_src_node ?c" "cs_pkt_location cs = cn_src_node ?c" "cs_dst_ip_ec cs = cn_dst_ip_ec ?c"
    using conn_init_effect[OF m3] by fastforce
  have "print_conn_states (set_num_conns 1 (set_conn 0 m3)) = Inr (set_num_conns 1 (set_conn 0 m3))"
  proof (rule print_conn_states_ok)
    fix c
    assume "0 \<le> c" "c < get_num_conns (set_num_conns 1 (set_conn 0 m3))"
    then have "c = 0" by (simp add: model_defs)
    then show "conn_ptrs_ok (set_num_conns 1 (set_conn 0 m3)) (now_conn_state (m_now (set_num_conns 1 (set_conn 0 m3))) c)"
      by (simp add: conn_ptrs_ok_def cs m3' mk_connection_def sample_started_def node_at_def derefR_def model_defs
        sample_of_model_def sample_model_def openflow_init_def deref_ec_def)
  qed
  then show ?thesis using m3 by (simp add: init_conns_def)
qed

definition simple_kind :: "inv_kind \<Rightarrow> bool" where
  "simple_kind k \<longleftrightarrow> k \<noteq> Conditional \<and> k \<noteq> Consistency"

lemma sample_initialize_conns:
  assumes "simple_kind (iv_kind v)" "iv_conns v = [mk_connection 0 1 1 49152 80]"
  shows "is_ok (initialize (v, sample_of_model))"
proof -
  have "mk_pkt_hist (m_net sample_of_model) = Inr Map.empty"
    by (simp add: mk_pkt_hist_def sample_of_model_def derefR_def is_emulated_def sample_switch_def)
  then have f: "forwarding_init sample_of_model = Inr (set_pkt_hist Map.empty sample_of_model)"
    by (simp add: forwarding_init_def)
  obtain m where m: "init_conns [mk_connection 0 1 1 49152 80] sample_started = Inr m"
    using sample_init_conns by (auto simp: is_ok_iff)
  have "is_ok (inv_init v sample_started)"
    using assms m by (cases "iv_kind v") (simp_all add: inv_init_def simple_init_def simple_kind_def
      reachability_init_def reply_reachability_init_def waypoint_init_def one_request_init_def
      load_balance_init_def loop_init_def)
  then show ?thesis by (auto simp: initialize_def f sample_started_def is_ok_iff)
qed

lemma sample_initialize:
  assumes "k \<noteq> Conditional" "k \<noteq> Consistency"
  shows "is_ok (initialize (sample_invariant\<lparr>iv_kind := k\<rparr>, sample_of_model))"
  using assms by (intro sample_initialize_conns) (simp_all add: simple_kind_def sample_invariant_def)

text \<open>The same connection, from a specification.\<close>

definition sample_parsed :: invariant where
  "sample_parsed = sample_invariant\<lparr>iv_conns := [], iv_conn_specs :=
     [\<lparr>sp_protocol = 0, sp_src_nodes = [1], sp_dst_ip = \<lparr>r_lb = 0x0A000002, r_ub = 0x0A000003\<rparr>,
       sp_src_port = 49152, sp_dst_ports = [80], sp_owned_dst_only = False\<rparr>]\<rparr>"

lemma sample_verifiable: "verifiable 4 (m_net sample_of_model) sample_parsed"
  by (simp add: verifiable_def plain_sources_def sample_parsed_def sample_invariant_def emulated_at_def
    sample_of_model_def is_emulated_def sample_switch_def)

theorem explored_choices_in_bounds_witness:
  "\<exists>v0 ecs' V v m n. verify_invariant (\<lambda>ps. 1 + sum_list ps) 0 sample_parsed (m_ecs sample_of_model) = Inr (Some v0, ecs')
     \<and> explores 4 sample_ops (v0, sample_of_model) V (v, m) \<and> n \<in> V
     \<and> now_conn n < now_num_conns n \<and> now_num_conns n \<le> 4"
proof -
  have "case verify_invariant (\<lambda>ps. 1 + sum_list ps) 0 sample_parsed (m_ecs sample_of_model) of
      Inr (Some v0, _) \<Rightarrow> iv_conns v0 = [mk_connection 0 1 1 49152 80] \<and> iv_correlated v0 = []
    | _ \<Rightarrow> False" by code_simp
  then obtain v0 ecs' where r: "verify_invariant (\<lambda>ps. 1 + sum_list ps) 0 sample_parsed (m_ecs sample_of_model) = Inr (Some v0, ecs')"
    and v0: "iv_conns v0 = [mk_connection 0 1 1 49152 80]" "iv_correlated v0 = []"
    by (auto split: sum.splits option.splits)
  have c: "\<forall>p \<in> set (iv_correlated v0). iv_conns p \<noteq> []" using v0(2) by simp
  have "iv_kind v0 = Loop_inv"
    using verify_invariant_given[OF r sample_verifiable c] by (simp add: sample_parsed_def sample_invariant_def)
  then obtain v m where i: "initialize (v0, sample_of_model) = Inr (v, m)"
    using sample_initialize_conns[of v0] v0(1) by (auto simp: is_ok_iff simple_kind_def)
  note e = explores.start[OF i, of 4 sample_ops]
  from explored_choices_in_bounds[OF r sample_verifiable c e, of "m_now m"] r e show ?thesis by blast
qed

section \<open>Waiting connections\<close>

text \<open>The connections that wait at a middlebox, and the selection of one of them.\<close>

abbreviation waiting :: "'w model \<Rightarrow> int list" where
  "waiting m \<equiv> filter (\<lambda>c. get_executable_for_conn c m = 1) [0 .. get_num_conns m - 1]"

lemma conn_map_waiting:
  assumes "conns_ok max_conns m" "waiting m \<noteq> []"
    and "\<And>c. 0 \<le> c \<Longrightarrow> c < get_num_conns m \<Longrightarrow> get_executable_for_conn c m \<noteq> 2"
  shows "get_conn_map m = Inr [filter (ready m 0) [0 .. get_num_conns m - 1], waiting m, []]"
proof -
  have ready1: "ready m 1 c = (get_executable_for_conn c m = 1)" for c
    using two_bits[of "get_executable_for_conn c m"] by (auto simp: ready_def conn_finished_def)
  have "filter (ready m 2) [0 .. get_num_conns m - 1] = []"
  proof (intro iffD2[OF filter_empty_conv] ballI notI)
    fix c assume "c \<in> set [0 .. get_num_conns m - 1]" "ready m 2 c"
    then show False using assms(3)[of c] two_bits[of "get_executable_for_conn c m"] by (auto simp: ready_def)
  qed
  moreover have "filter (ready m 1) [0 .. get_num_conns m - 1] = waiting m" by (intro filter_cong refl ready1)
  ultimately show ?thesis
    using conn_map_eq[OF conns_exec[OF assms(1)]] assms(2) by (simp del: One_nat_def)
qed

lemma select_waiting:
  assumes "conns_ok max_conns m" "get_conn_map m = Inr [zs, ws, []]" "get_choice m = int k" "k < length ws"
    and "\<And>c. 0 \<le> c \<Longrightarrow> c < get_num_conns m \<Longrightarrow> conn_ptrs_ok m (now_conn_state (m_now m) c)"
    and "0 \<le> ws ! k" "ws ! k < get_num_conns m" "get_executable_for_conn (ws ! k) m = 1"
  shows "choose_conn_exec_step m = Inr (set_choice_count 1 (set_executable 2 (set_conn (ws ! k) m)))"
proof -
  define d where "d = ws ! k"
  define m2 where "m2 = set_executable 2 (set_conn d m)"
  have ptrs: "print_conn_states m2 = Inr m2"
  proof (rule print_conn_states_ok)
    fix c assume c: "0 \<le> c" "c < get_num_conns m2"
    then have "conn_ptrs_ok m (now_conn_state (m_now m) c)" using assms(5) by (simp add: m2_def model_defs)
    then show "conn_ptrs_ok m2 (now_conn_state (m_now m2) c)"
      by (auto simp: conn_ptrs_ok_def m2_def model_defs node_at_def)
  qed
  have "conn_ok (m_net m) (now_conn_state (m_now m) d)" using assms(1,6,7) by (simp add: conns_ok_def d_def)
  then have mode: "get_fwd_mode m2 = COLLECT_NHOPS"
    using assms(8) by (simp add: conn_ok_def m2_def model_defs d_def)
  have "choose_conn_exec_step m =
      bindR (print_conn_states (set_executable 2 (set_conn d m))) (\<lambda>m.
      if get_fwd_mode m = FORWARD_PACKET \<or> get_fwd_mode m = FIRST_FORWARD then
        bindR (valR (get_candidates m)) (\<lambda>candidates.
        Inr (set_choice_count (int (length candidates)) m))
      else Inr (set_choice_count 1 m))"
    using assms(4) unfolding choose_conn_exec_step_def Let_def assms(2,3) bindR_Inr d_def by auto
  then show ?thesis
    unfolding m2_def[symmetric] ptrs bindR_Inr d_def[symmetric] using mode by simp
qed

text \<open>C11. No connection waits for ever for its turn: when no connection can forward, the model
  checker is offered one choice for each connection that waits at a middlebox, and for every such
  connection one of these choices selects it and makes it executable.\<close>

theorem waiting_connection_selectable:
  assumes "conns_ok max_conns m"
    and "\<And>c. 0 \<le> c \<Longrightarrow> c < get_num_conns m \<Longrightarrow> conn_ptrs_ok m (now_conn_state (m_now m) c)"
    and "\<And>c. 0 \<le> c \<Longrightarrow> c < get_num_conns m \<Longrightarrow> get_executable_for_conn c m \<noteq> 2"
    and "0 \<le> d" "d < get_num_conns m" "get_executable_for_conn d m = 1"
  shows "\<exists>m1 i m2. update_choice_count m = Inr m1
    \<and> get_choice_count m1 = int (length (filter (\<lambda>c. get_executable_for_conn c m = 1) [0 .. get_num_conns m - 1]))
    \<and> 0 \<le> i \<and> i < get_choice_count m1
    \<and> choose_conn_exec_step (set_choice i m1) = Inr m2
    \<and> get_conn m2 = d \<and> get_executable m2 = 2 \<and> get_choice_count m2 = 1"
proof -
  have d: "d \<in> set (waiting m)" using assms(4-6) by simp
  then have ne: "waiting m \<noteq> []" by (metis empty_iff list.set(1))
  note cm = conn_map_waiting[OF assms(1) ne assms(3)]
  obtain k where k: "k < length (waiting m)" "waiting m ! k = d" using d[unfolded in_set_conv_nth] by blast
  let ?m1 = "set_choice_count (int (length (waiting m))) m"
  have u: "update_choice_count m = Inr ?m1" using ne by (simp add: update_choice_count_def cm)
  define M where "M = set_choice (int k) ?m1"
  have M: "get_num_conns M = get_num_conns m" "now_conn_state (m_now M) = now_conn_state (m_now m)"
      "get_choice M = int k" "get_executable_for_conn c M = get_executable_for_conn c m" for c
    by (simp_all add: M_def model_defs)
  have "conns_ok max_conns M"
    using assms(1) by (simp add: conns_ok_def conns_bounded_def M_def model_defs)
  moreover have "get_conn_map M = Inr [filter (ready m 0) [0 .. get_num_conns m - 1], waiting m, []]"
    using cm by (simp add: get_conn_map_def M_def model_defs)
  moreover have "conn_ptrs_ok M (now_conn_state (m_now M) c)" if "0 \<le> c" "c < get_num_conns M" for c
    using assms(2)[of c] that unfolding M(1,2) by (auto simp: conn_ptrs_ok_def M_def model_defs node_at_def)
  ultimately have st: "choose_conn_exec_step M = Inr (set_choice_count 1 (set_executable 2 (set_conn d M)))"
    using select_waiting[of max_conns M _ "waiting m" k] assms(4-6) k M by metis
  show ?thesis
    by (rule exI[of _ ?m1], rule exI[of _ "int k"],
        rule exI[of _ "set_choice_count 1 (set_executable 2 (set_conn d M))"])
      (use u st k(1) in \<open>simp add: M_def model_defs\<close>)
qed

definition sample_waiting :: "unit model" where
  "sample_waiting =
     sample_of_model\<lparr>m_now := sample_now\<lparr>now_conn := 0, now_num_conns := 2, now_conn_state := (\<lambda>_. sample_conn\<lparr>
       cs_executable := 1, cs_fwd_mode := COLLECT_NHOPS, cs_src_node := 1, cs_pkt_location := 1, cs_dst_ip_ec := 1\<rparr>)\<rparr>\<rparr>"

theorem waiting_connection_selectable_witness:
  "\<exists>m1 i m2. update_choice_count sample_waiting = Inr m1 \<and> get_choice_count m1 = 2
     \<and> choose_conn_exec_step (set_choice i m1) = Inr m2 \<and> get_conn m2 = 1"
proof -
  have n: "get_num_conns sample_waiting = 2" by (simp add: sample_waiting_def model_defs)
  have ok: "conns_ok 4 sample_waiting"
    by (auto simp: conns_ok_def conns_bounded_def conn_ok_def sample_waiting_def model_defs)
  have e: "get_executable_for_conn c sample_waiting = 1" for c by (simp add: sample_waiting_def model_defs)
  have p: "conn_ptrs_ok sample_waiting (now_conn_state (m_now sample_waiting) c)" for c
    by (simp add: conn_ptrs_ok_def sample_waiting_def node_at_def derefR_def sample_of_model_def
      sample_model_def deref_ec_def)
  have l: "length (filter (\<lambda>c. get_executable_for_conn c sample_waiting = 1) [0 .. get_num_conns sample_waiting - 1]) = 2"
    by (simp add: e n)
  from waiting_connection_selectable[OF ok p _ _ _ e, of 1] show ?thesis unfolding l by (auto simp: e n)
qed

end
