(* ===== verification/Verdicts.thy ===== *)
theory Verdicts
  imports Safety
begin

text \<open>
  The verdict of an exploration: the processes never touch the fields of the invariant, so what
  the checks write is what is reported; for each kind of invariant, when the verdict is written and
  what it means for the path.
\<close>

section \<open>The fields of the invariant\<close>

definition verdict :: "'w model \<Rightarrow> bool \<times> int \<times> reach_counts option" where
  "verdict m = (get_violated m, get_correlated_inv_idx m, get_reach_counts m)"

named_theorems verdicts

lemma verdict_upd_cur [simp]: "verdict (upd_cur f m) = verdict m"
  by (simp add: verdict_def model_defs)

lemma verdict_setters [simp]:
  "verdict (set_executable e m) = verdict m" "verdict (set_proto_state st m) = verdict m"
  "verdict (set_src_ip a m) = verdict m" "verdict (set_dst_ip_ec n m) = verdict m"
  "verdict (set_src_port p m) = verdict m" "verdict (set_dst_port p m) = verdict m"
  "verdict (set_seq s m) = verdict m" "verdict (set_ack s m) = verdict m"
  "verdict (set_payload pl m) = verdict m" "verdict (set_src_node n m) = verdict m"
  "verdict (set_tx_node n m) = verdict m" "verdict (set_rx_node n m) = verdict m"
  "verdict (set_fwd_mode md m) = verdict m" "verdict (set_pkt_location n m) = verdict m"
  "verdict (set_ingress_intf n m) = verdict m" "verdict (set_candidates cs m) = verdict m"
  "verdict (reset_candidates m) = verdict m" "verdict (set_injection_results rs m) = verdict m"
  "verdict (reset_injection_results m) = verdict m" "verdict (set_fib f m) = verdict m"
  "verdict (set_path_choices ch m) = verdict m" "verdict (set_visited_hops vh m) = verdict m"
  unfolding set_executable_def set_proto_state_def set_src_ip_def set_dst_ip_ec_def
    set_src_port_def set_dst_port_def set_seq_def set_ack_def set_payload_def set_src_node_def
    set_tx_node_def set_rx_node_def set_fwd_mode_def set_pkt_location_def set_ingress_intf_def
    set_candidates_def reset_candidates_def set_injection_results_def reset_injection_results_def
    set_fib_def set_path_choices_def set_visited_hops_def
  by (rule verdict_upd_cur)+

lemma verdict_others [simp]:
  "verdict (set_choice_count c m) = verdict m" "verdict (set_choice c m) = verdict m"
  "verdict (set_conn i m) = verdict m" "verdict (set_num_conns i m) = verdict m"
  "verdict (set_process_id p m) = verdict m" "verdict (set_pkt_hist h m) = verdict m"
  "verdict (set_world w m) = verdict m" "verdict (set_cache ca m) = verdict m"
  "verdict (set_openflow_update_state u m) = verdict m"
  by (simp_all add: verdict_def model_defs set_world_def set_cache_def)

lemma verdict_now: "m_now m' = m_now m \<Longrightarrow> verdict m' = verdict m"
  by (simp add: verdict_def model_defs)

lemma verdict_update_fib [verdicts]: "update_fib m = Inr m' \<Longrightarrow> verdict m' = verdict m"
  using update_fib_form by fastforce

lemma verdict_print [verdicts]: "print_conn_states m = Inr m' \<Longrightarrow> verdict m' = verdict m"
  by (drule print_conn_states_id) simp

lemma verdict_drop [simp]: "verdict (drop_packet m) = verdict m"
  by (simp add: drop_packet_def)

lemma verdict_results [simp]: "verdict (use_injection_results rs m) = verdict m"
  by (simp add: use_injection_results_def)

lemma verdict_inject [verdicts]:
  assumes "inject_packet ops mb m = Inr m'"
  shows "verdict m' = verdict m"
proof -
  obtain h nph w p where p: "bindR (let (new_pkt, m) = store_packet p (set_world w m);
         new_nph = mk_node_pkt_hist new_pkt nph in
        bindR (op_set_nph ops mb new_nph (m_world m)) (\<lambda>w.
        let m = set_world w m;
            m = set_pkt_hist (set_node_pkt_hist mb new_nph h) m in
        case cache_get (m_cache m) mb new_nph of
          Some cached_results \<Rightarrow> Inr (use_injection_results cached_results m)
        | None \<Rightarrow>
            bindR (op_send_pkt ops mb new_pkt (m_world m)) (\<lambda>(results, w).
            let m = use_injection_results results (set_world w m) in
            Inr (set_cache (cache_insert mb new_nph results (m_cache m)) m)))) Inr = Inr m'"
    using assms unfolding inject_packet_def Let_def by (fastforce simp: bindR_eq_Inr_iff)
  obtain q m1 where q: "store_packet p (set_world w m) = (q, m1)" by fastforce
  have "verdict m1 = verdict m" using verdict_now[OF cur_store[OF q]] by simp
  then show ?thesis using p unfolding q
    by (auto simp: bindR_eq_Inr_iff Let_def split: option.splits)
qed

lemma verdict_collect [verdicts]:
  assumes "collect_next_hops ops m = Inr m'"
  shows "verdict m' = verdict m"
  using assms
proof (cases rule: collect_cases)
  case inject
  then show ?thesis using verdict_inject by blast
qed simp_all

lemma verdict_forward [verdicts]: "forward_packet m = Inr m' \<Longrightarrow> verdict m' = verdict m"
  using forward_packet_effect by fastforce

lemma verdict_accepted [verdicts]:
  assumes "accepted m = Inr m'"
  shows "verdict m' = verdict m"
proof -
  have t: "verdict b = verdict a" if "turn_around a = Inr b" for a b :: "'a model"
    using turn_around_effect[OF that] by auto
  have p: "verdict b = verdict a" if "get_payload_from_model a = Inr (pl, b)" for pl and a b :: "'a model"
    using cur_payload[OF that] by (rule verdict_now)
  have u: "verdict (update_seq_ack dir a) = verdict a" for dir and a :: "'a model"
    by (simp add: update_seq_ack_eq)
  have "verdict m' = verdict m" if h: "phase_transition st dir m = Inr m'" for st dir
  proof -
    obtain nd where nd: "node_at m (if dir then get_pkt_location m else get_src_node m) = Inr nd"
      using h unfolding phase_transition_def Let_def bindR_eq_Inr_iff by blast
    show ?thesis
    proof (cases "is_emulated nd")
      case True
      then show ?thesis using h nd unfolding phase_transition_def Let_def by auto
    next
      case False
      define m1 where "m1 = set_proto_state st (update_seq_ack dir m)"
      define s1 where "s1 = (if dir then turn_around m1 else Inr (set_pkt_location (get_src_node m1) m1))"
      have b: "bindR s1 (\<lambda>m. bindR (get_payload_from_model m) (\<lambda>(pl, m).
          print_conn_states (reset_injection_results (reset_candidates
            (set_ingress_intf 0 (set_fwd_mode FIRST_COLLECT (set_payload pl m))))))) = Inr m'"
        using h nd False unfolding phase_transition_def Let_def m1_def s1_def by simp
      then obtain m2 where m2: "s1 = Inr m2" by (cases s1) simp_all
      have r: "bindR (get_payload_from_model m2) (\<lambda>(pl, m). print_conn_states (reset_injection_results
          (reset_candidates (set_ingress_intf 0 (set_fwd_mode FIRST_COLLECT (set_payload pl m)))))) = Inr m'"
        using b unfolding m2 by simp
      have "verdict m2 = verdict m" using m2 t u by (cases dir) (auto simp: m1_def s1_def)
      moreover have "verdict m' = verdict m2"
        using r by (auto simp: bindR_eq_Inr_iff dest!: p verdict_print)
      ultimately show ?thesis by simp
    qed
  qed
  then show ?thesis using accepted_cases[OF assms] by auto
qed


lemma verdict_received [verdicts]:
  assumes "process_recv_pkt max_conns mb p (m, cu, ou) = Inr (m', cu', ou')"
  shows "verdict m' = verdict m"
proof -
  have r: "verdict (update_remaining mb q a) = verdict a" for q and a :: "'a model"
    by (simp add: update_remaining_def Let_def)
  have n: "verdict b = verdict a" if "set_next_hop mb q a = Inr b" for q and a b :: "'a model"
    using that by (auto simp: set_next_hop_def Let_def bindR_eq_Inr_iff)
  have mp: "verdict b = verdict a" if h: "map_packet q a = Inr b" for q and a b :: "'a model"
    using h unfolding map_packet_def Let_def
    by (auto simp: bindR_eq_Inr_iff dest!: verdict_update_fib split: if_splits)
  show ?thesis
  proof (cases "m' = m")
    case False
    then obtain q m1 m2 c where "map_packet q (set_conn c m) = Inr m1"
        "set_next_hop mb q (update_remaining mb q m1) = Inr m2" "m' = set_conn (get_conn m) m2"
      using assms unfolding process_recv_pkt_def Let_def
      by (auto simp: bindR_eq_Inr_iff split: if_splits)
    then show ?thesis using mp n r by (metis verdict_others(3))
  qed simp
qed

lemma verdict_choose_results [verdicts]:
  assumes "choose_injection_results max_conns m = Inr m'"
  shows "verdict m' = verdict m"
proof -
  obtain r where r: "update_model_from_injection_result max_conns (get_pkt_location m) r m = Inr m'"
    using assms by (auto simp: choose_injection_results_def bindR_eq_Inr_iff)
  obtain m1 cu ou where f: "foldR (process_recv_pkt max_conns (get_pkt_location m)) (recv_pkts r) (m, False, False)
      = Inr (m1, cu, ou)"
    and e: "m' = no_packet_received (get_pkt_location m) (explicit_drop r) ou m1 \<or> m' = drop_packet m1
      \<or> (\<exists>n. m' = set_choice_count n m1)"
    using r by (auto simp: update_model_from_injection_result_def bindR_eq_Inr_iff split: if_splits)
  have "verdict (fst (m1, cu, ou)) = verdict m"
  proof (rule foldR_invariant[where I = "\<lambda>s. verdict (fst s) = verdict m", OF _ _ f])
    show "verdict (fst t) = verdict m"
      if "verdict (fst s) = verdict m" "process_recv_pkt max_conns (get_pkt_location m) x s = Inr t" for x s t
      using that verdict_received[of max_conns "get_pkt_location m" x "fst s" "fst (snd s)" "snd (snd s)"
        "fst t" "fst (snd t)" "snd (snd t)"] by simp
  qed simp
  then show ?thesis using e by (auto simp: no_packet_received_def Let_def)
qed

lemma verdict_step:
  assumes "process_step max_conns ops m = Inr m1" "check_to_switch_process m1 = Inr m2"
  shows "verdict m2 = verdict m"
proof -
  have f: "verdict b = verdict a" if "first_forward a = Inr b" for a b :: "'a model"
    using first_forward_effect[OF that] verdict_forward by fastforce
  have c: "verdict b = verdict a" if "first_collect ops a = Inr b" for a b :: "'a model"
    using that by (auto simp: first_collect_def bindR_eq_Inr_iff dest!: verdict_collect)
  have d: "verdict b = verdict a" if "drop_selected a = Inr b" for a b :: "'a model"
    using drop_selected_form[OF that] by simp
  have o: "verdict b = verdict a" if "openflow_exec_step a = Inr b" for a b :: "'a model"
    using openflow_form[OF that] by auto
  have cc: "verdict b = verdict a" if "choose_conn_exec_step a = Inr b" for a b :: "'a model"
    using that unfolding choose_conn_exec_step_def Let_def
    by (auto simp: bindR_eq_Inr_iff split: if_splits dest!: verdict_print d)
  have "verdict m1 = verdict m"
    using assms(1) f c cc o verdict_collect verdict_choose_results verdict_forward verdict_accepted
    by (auto simp: process_step_def forwarding_exec_step_def Let_def split: if_splits)
  moreover have "verdict m2 = verdict m1"
  proof (cases "get_executable m1 = 2")
    case True
    then show ?thesis using assms(2)
      by (auto simp: check_to_switch_process_def Let_def bindR_eq_Inr_iff split: if_splits)
  next
    case False
    then show ?thesis using assms(2)
      by (auto simp: check_to_switch_process_def update_choice_count_def bindR_eq_Inr_iff
        split: if_splits dest!: verdict_print)
  qed
  ultimately show ?thesis by simp
qed

text \<open>C13. The processes never touch the fields of the invariant: neither a step of the forwarding,
  OpenFlow or connection-choosing process nor the switch between them changes whether the invariant
  is violated, which correlated invariant is being checked, or the reach counts.\<close>

theorem processes_keep_verdict:
  assumes "process_step max_conns ops m = Inr m1" "check_to_switch_process m1 = Inr m2"
  shows "get_violated m2 = get_violated m \<and> get_correlated_inv_idx m2 = get_correlated_inv_idx m
    \<and> get_reach_counts m2 = get_reach_counts m"
  using verdict_step[OF assms] by (simp add: verdict_def)

definition sample_dropped :: "unit model" where
  "sample_dropped =
     sample_of_model\<lparr>m_now := sample_now\<lparr>now_process_id := PID_FORWARDING, now_num_conns := 0,
       now_conn_state := (\<lambda>_. sample_conn\<lparr>cs_fwd_mode := DROPPED\<rparr>), now_violated := True\<rparr>\<rparr>"

theorem processes_keep_verdict_witness:
  "\<exists>m1 m2. process_step 4 sample_ops sample_dropped = Inr m1
     \<and> check_to_switch_process m1 = Inr m2 \<and> get_violated m2"
proof -
  let ?m1 = "set_executable 0 sample_dropped"
  have s: "process_step 4 sample_ops sample_dropped = Inr ?m1"
    by (simp add: process_step_def forwarding_exec_step_def Let_def sample_dropped_def model_defs)
  have "get_executable ?m1 = 0" by (simp add: model_defs)
  moreover have "update_choice_count (set_process_id PID_CHOOSE_CONN ?m1) =
      Inr (set_choice_count 0 (set_process_id PID_CHOOSE_CONN ?m1))"
    by (simp add: update_choice_count_def get_conn_map_def print_conn_states_def sample_dropped_def model_defs)
  ultimately have c: "check_to_switch_process ?m1 = Inr (set_choice_count 0 (set_process_id PID_CHOOSE_CONN ?m1))"
    by (simp add: check_to_switch_process_def)
  have "get_violated sample_dropped" by (simp add: sample_dropped_def model_defs)
  with processes_keep_verdict[OF s c] show ?thesis using s c by blast
qed

section \<open>What is reported\<close>

lemma check_violation_simple:
  "simple_kind (iv_kind v) \<Longrightarrow>
     check_violation v m = bindR (check_simple (iv_kind v) m) (\<lambda>m. Inr (False, v, m))"
  by (cases "iv_kind v") (simp_all add: check_violation_def simple_kind_def)

lemma exec_step_simple:
  assumes "exec_step max_conns ops (v, m) = Inr (v', m')" "simple_kind (iv_kind v)"
  shows "v' = v \<and> (\<exists>m1 m2. process_step max_conns ops m = Inr m1
    \<and> check_to_switch_process m1 = Inr m2 \<and> check_simple (iv_kind v) m2 = Inr m')"
proof -
  obtain m1 m2 fl u m3 where s: "process_step max_conns ops m = Inr m1" "check_to_switch_process m1 = Inr m2"
      "check_violation v m2 = Inr (fl, u, m3)"
      "(if fl then reinit (u, m3) else Inr (u, m3)) = Inr (v', m')"
    using assms(1) by (auto simp: exec_step_def bindR_eq_Inr_iff)
  have "check_simple (iv_kind v) m2 = Inr m3 \<and> fl = False \<and> u = v"
    using s(3) unfolding check_violation_simple[OF assms(2)] by (auto simp: bindR_eq_Inr_iff)
  then show ?thesis using s by auto
qed

lemma initialize_simple:
  assumes "initialize (v, m) = Inr (v', m')" "simple_kind (iv_kind v)"
  shows "v' = v \<and> (\<exists>m1 m2. simple_init v m1 = Inr m2 \<and> m' = control_state m2)"
proof -
  obtain m1 m2 where "inv_init v m1 = Inr (v', m2)" "m' = control_state m2"
    using assms(1) by (auto simp: initialize_def bindR_eq_Inr_iff)
  then show ?thesis using assms(2)
    by (cases "iv_kind v") (auto simp: inv_init_def simple_kind_def bindR_eq_Inr_iff)
qed

text \<open>An exploration of a simple invariant keeps a property of state vectors that holds after
  initialisation and that every step with a choice keeps.\<close>

lemma explores_simple:
  fixes m0 :: "'w model"
  assumes "explores max_conns ops s0 V s" "s0 = (v0, m0)" "simple_kind (iv_kind v0)"
    and "\<And>m1 m2 :: 'w model. simple_init v0 m1 = Inr m2 \<Longrightarrow> P (verdict m2) 1"
    and "\<And>(m :: 'w model) (m' :: 'w model). P (verdict m) (get_choice_count m) \<Longrightarrow> 0 < get_choice_count m \<Longrightarrow>
      \<exists>m2 :: 'w model. verdict m2 = verdict m \<and> check_simple (iv_kind v0) m2 = Inr m' \<Longrightarrow>
      P (verdict m') (get_choice_count m')"
  shows "fst s = v0 \<and> (\<forall>n \<in> V. P (now_violated n, now_correlated_inv_idx n, now_reach_counts n) (now_choice_count n))"
  using assms(1,2)
proof (induction)
  case (start v m)
  from initialize_simple[OF start(1)[unfolded start(2)] assms(3)] obtain m1 m2
    where "v = v0" "simple_init v0 m1 = Inr m2" "m = control_state m2" by blast
  then show ?case using assms(4)[of m1 m2]
    by (simp add: verdict_def control_state_def model_defs)
next
  case (step V v m n c v' m')
  let ?m = "set_choice c (m\<lparr>m_now := n\<rparr>)"
  have v: "v = v0" and IH: "P (now_violated n, now_correlated_inv_idx n, now_reach_counts n) (now_choice_count n)"
    using step by simp_all
  from exec_step_simple[OF step.hyps(5)] assms(3) v obtain m1 m2 where
    e: "v' = v0" "process_step max_conns ops ?m = Inr m1" "check_to_switch_process m1 = Inr m2"
      "check_simple (iv_kind v0) m2 = Inr m'" by blast
  have "P (verdict ?m) (get_choice_count ?m)" using IH by (simp add: verdict_def model_defs)
  moreover have "0 < get_choice_count ?m" using step.hyps(3,4) by (simp add: model_defs)
  ultimately have "P (verdict m') (get_choice_count m')"
    using assms(5)[of ?m m'] verdict_step[OF e(2,3)] e(4) by blast
  then show ?case using step v e(1) by (simp add: verdict_def model_defs)
qed

lemma conclude_fields [simp]:
  "get_choice_count (conclude b m) = 0" "get_violated (conclude b m) = b"
  by (simp_all add: conclude_def model_defs)

text \<open>C23. A one-request invariant is reported as violated on every path: \<open>OneRequest::init\<close> sets
  \<open>violated\<close>, and nothing ever clears it, so every state vector the exploration reaches, the first
  and the last of each path included, has it set, whether the targets received no, one or more
  requests.\<close>

theorem one_request_always_violated:
  assumes "explores max_conns ops (v0, m0) V (v, m)" "iv_kind v0 = One_request ns" "n \<in> V"
  shows "now_violated n"
proof -
  have k: "simple_kind (iv_kind v0)" by (simp add: assms(2) simple_kind_def)
  have "fst (v, m) = v0 \<and> (\<forall>n \<in> V. (\<lambda>vd _. fst vd)
      (now_violated n, now_correlated_inv_idx n, now_reach_counts n) (now_choice_count n))"
  proof (rule explores_simple[OF assms(1) refl k])
    show "fst (verdict m2)" if "simple_init v0 m1 = Inr m2" for m1 m2 :: "'a model"
      using that assms(2)
      by (auto simp: simple_init_def one_request_init_def bindR_eq_Inr_iff verdict_def model_defs)
    show "fst (verdict m')" if h: "fst (verdict m)" "0 < get_choice_count m"
      "\<exists>m2 :: 'a model. verdict m2 = verdict m \<and> check_simple (iv_kind v0) m2 = Inr m'" for m m' :: "'a model"
    proof -
      obtain m2 where m2: "verdict m2 = verdict m" "check_one_request ns m2 = Inr m'"
        using h(3) assms(2) by (auto simp: check_simple_def)
      have "get_violated m2" using m2(1) h(1) by (simp add: verdict_def)
      moreover have "get_violated m' \<or> get_violated m' = get_violated m2"
        using m2(2) by (auto simp: check_one_request_def Let_def bindR_eq_Inr_iff conclude_def model_defs
          split: if_splits)
      ultimately show ?thesis by (simp add: verdict_def)
    qed
  qed
  then show ?thesis using assms(3) by simp
qed

lemma check_simple_ends:
  assumes "check_simple kind m = Inr m'" "simple_kind kind" "\<And>ns. kind \<noteq> One_request ns"
  shows "get_violated m' = get_violated m \<or> get_choice_count m' = 0"
proof (cases kind)
  case (Reachability ns r)
  then show ?thesis using assms(1)
    by (auto simp: check_simple_def check_reachability_def Let_def split: if_splits)
next
  case (Reply_reachability ns r)
  then show ?thesis using assms(1)
    by (auto simp: check_simple_def check_reply_reachability_def Let_def split: if_splits)
next
  case (Waypoint ns p)
  then show ?thesis using assms(1)
    by (auto simp: check_simple_def check_waypoint_def split: if_splits)
next
  case (Load_balance ns ex)
  then show ?thesis using assms(1)
    by (auto simp: check_simple_def check_loadbalance_def conclude_def Let_def bindR_eq_Inr_iff model_defs
      split: if_splits)
next
  case Loop_inv
  have "m' = m \<or> (\<exists>b. m' = conclude b m) \<or> (\<exists>vh. m' = set_visited_hops vh m)"
    using assms(1) unfolding Loop_inv check_simple_def check_loop_def Let_def
    by (auto simp: bindR_eq_Inr_iff split: if_splits option.splits)
  then show ?thesis by (auto simp: conclude_def model_defs)
qed (use assms(2,3) in \<open>simp_all add: simple_kind_def\<close>)

text \<open>C12. For the other simple invariants a violation ends its path: a state vector from which the
  model checker still has a choice is not marked as violated. So \<open>violated\<close> is only ever set
  together with \<open>choice_count = 0\<close>, on which the loop of \<open>network.pml\<close> ends and its assertion
  fails.\<close>

theorem violation_ends_path:
  assumes "explores max_conns ops (v0, m0) V (v, m)" "simple_kind (iv_kind v0)"
    and "\<And>ns. iv_kind v0 \<noteq> One_request ns" "n \<in> V" "now_choice_count n \<noteq> 0"
  shows "\<not> now_violated n"
proof -
  let ?P = "\<lambda>(vd :: bool \<times> int \<times> reach_counts option) c. fst vd \<longrightarrow> c = (0 :: int)"
  have "fst (v, m) = v0 \<and> (\<forall>n \<in> V. ?P
      (now_violated n, now_correlated_inv_idx n, now_reach_counts n) (now_choice_count n))"
  proof (rule explores_simple[OF assms(1) refl assms(2)])
    show "?P (verdict m2) 1" if "simple_init v0 m1 = Inr m2" for m1 m2 :: "'a model"
    proof -
      have "\<not> get_violated m2"
        using that assms(2,3) by (cases "iv_kind v0")
          (auto simp: simple_init_def simple_kind_def reachability_init_def reply_reachability_init_def
            waypoint_init_def load_balance_init_def loop_init_def bindR_eq_Inr_iff model_defs)
      then show ?thesis by (simp add: verdict_def)
    qed
    show "?P (verdict m') (get_choice_count m')" if h: "?P (verdict m) (get_choice_count m)" "0 < get_choice_count m"
      "\<exists>m2 :: 'a model. verdict m2 = verdict m \<and> check_simple (iv_kind v0) m2 = Inr m'" for m m' :: "'a model"
    proof -
      obtain m2 where m2: "verdict m2 = verdict m" "check_simple (iv_kind v0) m2 = Inr m'"
        using h(3) by blast
      have "\<not> get_violated m2" using m2(1) h(1,2) by (auto simp: verdict_def)
      then show ?thesis using check_simple_ends[OF m2(2) assms(2,3)] by (auto simp: verdict_def)
    qed
  qed
  then show ?thesis using assms(4,5) by auto
qed

theorem one_request_always_violated_witness:
  "\<exists>V v m n. explores 4 sample_ops (sample_invariant\<lparr>iv_kind := One_request [1]\<rparr>, sample_of_model) V (v, m)
     \<and> n \<in> V \<and> now_violated n"
proof -
  obtain v m where i: "initialize (sample_invariant\<lparr>iv_kind := One_request [1]\<rparr>, sample_of_model) = Inr (v, m)"
    using sample_initialize[of "One_request [1]"] by (auto simp: is_ok_iff)
  note e = explores.start[OF i, of 4 sample_ops]
  from one_request_always_violated[OF e, of "[1]" "m_now m"] e show ?thesis by fastforce
qed

theorem violation_ends_path_witness:
  "\<exists>V v m n. explores 4 sample_ops (sample_invariant\<lparr>iv_kind := Waypoint [1] True\<rparr>, sample_of_model) V (v, m)
     \<and> n \<in> V \<and> now_choice_count n = 1 \<and> \<not> now_violated n"
proof -
  obtain v m where i: "initialize (sample_invariant\<lparr>iv_kind := Waypoint [1] True\<rparr>, sample_of_model) = Inr (v, m)"
    using sample_initialize[of "Waypoint [1] True"] by (auto simp: is_ok_iff)
  note e = explores.start[OF i, of 4 sample_ops]
  have "now_choice_count (m_now m) = 1"
    using i by (auto simp: initialize_def bindR_eq_Inr_iff control_state_def model_defs)
  with violation_ends_path[OF e, of "m_now m"] e show ?thesis by (fastforce simp: simple_kind_def)
qed

section \<open>Loops\<close>

text \<open>What \<open>VisitedHops\<close> holds in every run: \<open>add\<close> never writes \<open>_last_hop\<close>.\<close>

definition visited_ok :: "'w model \<Rightarrow> bool" where
  "visited_ok m \<longleftrightarrow>
     (\<forall>vh. get_visited_hops m = Some vh \<longrightarrow> oset (vh_hops vh) \<and> vh_last_hop vh = (0, 0, 0))"

lemma add_hop_visited:
  assumes "add_hop h vh = Inr vh'" "oset (vh_hops vh)" "vh_last_hop vh = (0, 0, 0)" "h \<noteq> (0, 0, 0)"
  shows "hop_visited h vh' \<and> oset (vh_hops vh') \<and> vh_last_hop vh' = (0, 0, 0)"
proof -
  have "vh' = vh\<lparr>vh_hops := oset_insert h (vh_hops vh)\<rparr>"
    using assms(1) by (auto simp: add_hop_def split: if_splits)
  then show ?thesis using assms(2-4) by (auto simp: hop_visited_def set_count_def)
qed

lemma check_loop_recorded:
  assumes "check_loop m0 = Inr m" "get_choice_count m \<noteq> 0" "visited_ok m0" "get_pkt_location m0 \<noteq> 0"
  shows "\<exists>vh. m = set_visited_hops vh m0 \<and> hop_visited (current_hop m0) vh"
proof -
  have h: "current_hop m0 \<noteq> (0, 0, 0)" using assms(4) by (simp add: current_hop_def)
  have nc: "m \<noteq> conclude b m0" for b using assms(2) by auto
  show ?thesis
  proof (cases "get_visited_hops m0")
    case None
    then obtain vh where "add_hop (current_hop m0) visited_hops_init = Inr vh" "m = set_visited_hops vh m0"
      using assms(1) nc unfolding check_loop_def Let_def by (auto simp: bindR_eq_Inr_iff split: if_splits)
    then show ?thesis using add_hop_visited[of "current_hop m0" visited_hops_init vh] h
      by (auto simp: visited_hops_init_def)
  next
    case (Some old)
    then have o: "oset (vh_hops old)" "vh_last_hop old = (0, 0, 0)" using assms(3) by (simp_all add: visited_ok_def)
    then obtain vh where "add_hop (current_hop m0) old = Inr vh" "m = set_visited_hops vh m0"
      using assms(1) nc h Some unfolding check_loop_def Let_def
      by (auto simp: bindR_eq_Inr_iff is_last_hop_def split: if_splits)
    then show ?thesis using add_hop_visited[of "current_hop m0" old vh] h o by blast
  qed
qed

text \<open>C24. The loop invariant is reported as violated on a path without a loop: the check after a
  packet's arrival at a router records the router as visited, but not as the last hop; the next
  step only collects the router's next hops, the packet has not moved, and the check after it takes
  the router for one visited before.\<close>

theorem loop_reported_without_loop:
  assumes "iv_kind v = Loop_inv"
    and "visited_ok m0" "check_loop m0 = Inr m" "get_choice_count m \<noteq> 0"
    and "get_process_id m0 = PID_FORWARDING" "get_executable m0 = 2" "get_fwd_mode m0 = COLLECT_NHOPS"
    and "get_pkt_location m0 \<noteq> 0" "node_at m0 (get_pkt_location m0) = Inr nd" "\<not> is_emulated nd"
    and "get_fib m0 = Some fib" "fib_lookup fib (get_pkt_location m0) = Inr nhs" "nhs \<noteq> []"
    and "get_path_choices m0 = Some ch"
  shows "\<exists>m'. exec_step max_conns ops (v, set_choice c m) = Inr (v, m') \<and> get_violated m'
    \<and> get_choice_count m' = 0 \<and> get_pkt_location m' = get_pkt_location m0"
proof -
  obtain vh where m: "m = set_visited_hops vh m0" and vis: "hop_visited (current_hop m0) vh"
    using check_loop_recorded[OF assms(3,4,2,8)] by blast
  define M where "M = set_choice c m"
  have g: "get_process_id M = PID_FORWARDING" "get_executable M = 2" "get_fwd_mode M = COLLECT_NHOPS"
      "get_pkt_location M = get_pkt_location m0" "node_at M p = node_at m0 p" "get_fib M = Some fib"
      "get_path_choices M = Some ch" "current_hop M = current_hop m0" "get_visited_hops M = Some vh"
    for p using assms(5-7,11,14)
    by (simp_all add: M_def m model_defs node_at_def current_hop_def)
  obtain cs where cs: "collect_next_hops ops M = Inr (set_fwd_mode FORWARD_PACKET
      (set_candidates cs (set_choice_count (int (length cs)) M)))"
    using assms(9,10,12,13) by (simp add: collect_next_hops_def Let_def g)
  define M2 where "M2 = set_fwd_mode FORWARD_PACKET (set_candidates cs (set_choice_count (int (length cs)) M))"
  have p: "process_step max_conns ops M = Inr M2"
    using cs by (simp add: process_step_def forwarding_exec_step_def Let_def g M2_def)
  have g2: "get_executable M2 = 2" "get_process_id M2 = PID_FORWARDING" "get_fwd_mode M2 = FORWARD_PACKET"
      "current_hop M2 = current_hop m0" "get_visited_hops M2 = Some vh"
      "get_pkt_location M2 = get_pkt_location m0"
    using g by (simp_all add: M2_def model_defs current_hop_def)
  have s: "check_to_switch_process M2 = Inr M2"
    by (simp add: check_to_switch_process_def Let_def g2)
  have "check_loop M2 = Inr (conclude True M2)"
    using vis by (simp add: check_loop_def Let_def g2 request_is_accepted_def packet_is_dropped_def)
  then have "exec_step max_conns ops (v, M) = Inr (v, conclude True M2)"
    using p s assms(1) by (simp add: exec_step_def check_violation_def check_simple_def)
  moreover have "get_pkt_location (conclude True M2) = get_pkt_location m0"
    using g2(6) by (simp add: conclude_def model_defs)
  ultimately show ?thesis by (auto simp: M_def)
qed

theorem loop_reported_without_loop_witness:
  "\<exists>m m'. check_loop (sample_fwd_model sample_nhs [] None) = Inr m
     \<and> exec_step 4 sample_ops (sample_invariant, set_choice 0 m) = Inr (sample_invariant, m')
     \<and> get_violated m'"
proof -
  let ?m0 = "sample_fwd_model sample_nhs [] None"
  have f: "get_process_id ?m0 = PID_FORWARDING" "get_executable ?m0 = 2" "get_fwd_mode ?m0 = COLLECT_NHOPS"
      "get_pkt_location ?m0 \<noteq> 0" "get_visited_hops ?m0 = None" "visited_ok ?m0" "get_choice_count ?m0 = 2"
    by (simp_all add: sample_fwd_model_def visited_ok_def sample_now_def sample_conn_def model_defs)
  obtain vh where "add_hop (current_hop ?m0) visited_hops_init = Inr vh"
    by (simp add: add_hop_def visited_hops_init_def set_count_def set_find_def lower_bound_def)
  then have c: "check_loop ?m0 = Inr (set_visited_hops vh ?m0)"
    by (simp add: check_loop_def Let_def f request_is_accepted_def packet_is_dropped_def)
  have n: "get_choice_count (set_visited_hops vh ?m0) \<noteq> 0" using f(7) by (simp add: model_defs)
  have k: "iv_kind sample_invariant = Loop_inv" by (simp add: sample_invariant_def)
  from loop_reported_without_loop[OF k f(6) c n f(1-4) sample_fwd_simps(1-4) _ sample_fwd_simps(5), of 4 sample_ops 0] c
  show ?thesis by blast
qed

section \<open>A connection without a next hop\<close>

lemma packet_of_conn_keeps:
  assumes "identify_conn max_conns p m = Inr q" "process_proto_state q m = Inr q'"
  shows "pk_intf q' = pk_intf p \<and> pk_dst_ip q' = pk_dst_ip p"
proof -
  have "pk_intf q = pk_intf p \<and> pk_dst_ip q = pk_dst_ip p"
    using assms(1) by (auto simp: identify_conn_def Let_def bindR_eq_Inr_iff split: if_splits option.splits)
  moreover obtain r where r: "convert_proto_state (get_proto_state_for_conn (pk_conn q) m) q = Inr r"
    using assms(2) by (auto simp: process_proto_state_def Let_def bindR_eq_Inr_iff)
  then have "pk_intf r = pk_intf q \<and> pk_dst_ip r = pk_dst_ip q"
    by (auto simp: convert_proto_state_def bindR_eq_Inr_iff split: if_splits)
  moreover have "q' \<in> {r\<lparr>pk_next_phase := False\<rparr>, r\<lparr>pk_next_phase := True\<rparr>, r\<lparr>pk_proto_state := PS_INVALID\<rparr>}"
    using assms(2) unfolding process_proto_state_def Let_def r bindR_Inr
    by (auto simp: bindR_eq_Inr_iff split: if_splits)
  ultimately show ?thesis by auto
qed

lemma map_packet_state:
  assumes "map_packet p m = Inr m'"
  shows "get_proto_state m' = pk_proto_state p"
proof -
  obtain ec where ec: "find_ec (pk_dst_ip p) (m_ecs (set_src_ip (pk_src_ip p) (set_proto_state (pk_proto_state p)
      (set_executable 2 m)))) = Inr ec"
    using assms unfolding map_packet_def Let_def bindR_eq_Inr_iff by blast
  define m1 where "m1 = set_payload (pk_payload p) (set_ack (pk_ack p) (set_seq (pk_seq p)
    (set_dst_port (pk_dst_port p) (set_src_port (pk_src_port p) (set_dst_ip_ec ec
    (set_src_ip (pk_src_ip p) (set_proto_state (pk_proto_state p) (set_executable 2 m))))))))"
  have "(if get_dst_ip_ec m \<noteq> get_dst_ip_ec m1 then update_fib m1 else Inr m1) = Inr m'"
    using assms unfolding map_packet_def Let_def ec bindR_Inr m1_def by simp
  then have "m' = m1 \<or> (\<exists>f. m' = set_fib f m1)" using update_fib_form by (auto split: if_splits)
  moreover have "get_proto_state m1 = pk_proto_state p" "get_proto_state (set_fib f m1) = get_proto_state m1" for f
    by (simp_all add: m1_def model_defs)
  ultimately show ?thesis by auto
qed

text \<open>The connection state left by a packet of another connection without a next hop.\<close>

lemma recv_pkt_no_route:
  assumes "process_recv_pkt max_conns mb p (m, cu, ou) = Inr (m', cu', ou')"
    and "\<not> packet_empty p" "identify_conn max_conns p m = Inr q" "pk_conn q \<noteq> get_conn m"
    and "process_proto_state q m = Inr q'" "pk_proto_state q' \<noteq> PS_INVALID"
    and "node_at m mb = Inr nd" "intf_at m (pk_intf p) = Inr i"
    and "get_ipnh (net_objs (m_net m)) nd (if_name i) (pk_dst_ip p) = Inr nh" "l3_node nh = 0"
  shows "cu' = cu \<and> ou' \<and> get_conn m' = get_conn m \<and>
    (let cs = now_conn_state (m_now m') (pk_conn q) in
     cs_executable cs = 2 \<and> cs_candidates cs = Some [] \<and> cs_proto_state cs = pk_proto_state q'
     \<and> cs_fwd_mode cs = (if pk_is_new q' \<or> pk_next_phase q' then FIRST_FORWARD else FORWARD_PACKET))"
proof -
  note keep = process_proto_state_keeps[OF assms(5)] packet_of_conn_keeps[OF assms(3,5)]
  have "bindR (check_seq_ack q' m) (\<lambda>_.
      bindR (map_packet q' (set_conn (pk_conn q) m)) (\<lambda>m1.
      bindR (set_next_hop mb q' (update_remaining mb q' m1)) (\<lambda>m2.
      Inr (set_conn (get_conn m) m2, cu, True)))) = Inr (m', cu', ou')"
    using assms(1-6) keep by (simp add: process_recv_pkt_def Let_def)
  then obtain m1 m2 where m1: "map_packet q' (set_conn (pk_conn q) m) = Inr m1"
    and m2: "set_next_hop mb q' (update_remaining mb q' m1) = Inr m2"
    and r: "m' = set_conn (get_conn m) m2" "cu' = cu" "ou'"
    by (auto simp: bindR_eq_Inr_iff)
  have f1: "m_net m1 = m_net m" "get_conn m1 = pk_conn q"
    using map_packet_effect[OF m1] by (simp_all add: frame_def) (simp_all add: model_defs)
  define mr where "mr = update_remaining mb q' m1"
  have "m_net mr = m_net m" "get_conn mr = pk_conn q" unfolding mr_def using f1 by (simp_all add: update_remaining_effect)
  then have m2': "m2 = set_candidates [] (set_choice_count 0 mr)" and conn: "get_conn m2 = pk_conn q"
    using m2 assms(7-10) keep unfolding mr_def[symmetric] by (auto simp: set_next_hop_def Let_def intf_at_def node_at_def model_defs)
  have "get_executable mr = 2" unfolding mr_def using map_packet_effect[OF m1] by (simp add: update_remaining_effect)
  moreover have "get_proto_state mr = pk_proto_state q'"
    unfolding mr_def update_remaining_def map_packet_state[OF m1, symmetric] by (simp add: Let_def model_defs)
  moreover have "get_fwd_mode mr = (if pk_is_new q' \<or> pk_next_phase q' then FIRST_FORWARD else FORWARD_PACKET)"
    unfolding mr_def update_remaining_def by (simp add: Let_def model_defs)
  moreover have "now_conn_state (m_now m') (pk_conn q) = (cur mr)\<lparr>cs_candidates := Some []\<rparr>"
    using conn unfolding r(1) m2' by (simp add: model_defs)
  moreover have "get_conn m' = get_conn m" by (simp add: r(1) model_defs)
  ultimately show ?thesis using r by (simp add: get_executable_def get_proto_state_def get_fwd_mode_def)
qed

lemma injection_no_route:
  assumes "update_model_from_injection_result max_conns mb result m = Inr m'" "recv_pkts result = [p]"
    and "\<not> packet_empty p" "identify_conn max_conns p m = Inr q" "pk_conn q \<noteq> get_conn m"
    and "process_proto_state q m = Inr q'" "pk_proto_state q' \<noteq> PS_INVALID"
    and "node_at m mb = Inr nd" "intf_at m (pk_intf p) = Inr i"
    and "get_ipnh (net_objs (m_net m)) nd (if_name i) (pk_dst_ip p) = Inr nh" "l3_node nh = 0"
  shows "let cs = now_conn_state (m_now m') (pk_conn q) in
     cs_executable cs = 2 \<and> cs_candidates cs = Some [] \<and> cs_proto_state cs = pk_proto_state q'
     \<and> cs_fwd_mode cs = (if pk_is_new q' \<or> pk_next_phase q' then FIRST_FORWARD else FORWARD_PACKET)"
proof -
  have nd: "\<not> explicit_drop result" using assms(1,2) by (auto simp: update_model_from_injection_result_def)
  obtain m1 cu ou where s: "process_recv_pkt max_conns mb p (m, False, False) = Inr (m1, cu, ou)"
    using assms(1,2) nd by (auto simp: update_model_from_injection_result_def bindR_eq_Inr_iff)
  note r = recv_pkt_no_route[OF s assms(3-11)]
  have "m' = no_packet_received mb False True m1"
    using assms(1,2) nd s r by (simp add: update_model_from_injection_result_def)
  then have "now_conn_state (m_now m') (pk_conn q) = now_conn_state (m_now m1) (pk_conn q)"
    using r assms(5) by (simp add: no_packet_received_def Let_def model_defs)
  then show ?thesis using r by simp
qed

text \<open>C26. A middlebox sends one packet, of a connection other than the selected one, and has no
  next hop for it. The packet is not dropped: its connection is left executable, waiting to be
  forwarded, with an empty list of candidates. When a later vector, not violated, selects this
  connection in the same state, the number of choices becomes zero, on which the loop of
  \<open>network.pml\<close> ends, and the vector is not violated: the path ends there as one on which the
  reachability invariant holds, whatever it demands, and the other connections never run. The
  packet must not be the acknowledgement of the request or the first of the reply, as then the
  request counts as accepted.\<close>

theorem empty_candidates_end_path:
  assumes "update_model_from_injection_result max_conns mb result m0 = Inr m1" "recv_pkts result = [p]"
    and "\<not> packet_empty p" "identify_conn max_conns p m0 = Inr q" "pk_conn q \<noteq> get_conn m0"
    and "process_proto_state q m0 = Inr q'" "pk_proto_state q' \<noteq> PS_INVALID"
    and "node_at m0 mb = Inr nd" "intf_at m0 (pk_intf p) = Inr i"
    and "get_ipnh (net_objs (m_net m0)) nd (if_name i) (pk_dst_ip p) = Inr nh" "l3_node nh = 0"
    and "\<not> ps_req_ack_or_rep (pk_proto_state q')"
    and "iv_kind v = Reachability ns r" "get_process_id m = PID_CHOOSE_CONN" "get_choice m = 0" "\<not> get_violated m"
    and "get_conn_map m = Inr cm" "cm ! 2 = pk_conn q # ds"
    and "now_conn_state (m_now m) (pk_conn q) = now_conn_state (m_now m1) (pk_conn q)"
    and "print_conn_states (set_conn (pk_conn q) m) = Inr (set_conn (pk_conn q) m)"
  shows "get_executable_for_conn (pk_conn q) m1 = 2
    \<and> get_fwd_mode_for_conn (pk_conn q) m1 \<in> {FIRST_FORWARD, FORWARD_PACKET}
    \<and> cs_candidates (now_conn_state (m_now m1) (pk_conn q)) = Some []
    \<and> (\<exists>m'. exec_step max_conns ops (v, m) = Inr (v, m') \<and> get_conn m' = pk_conn q
        \<and> get_fwd_mode m' \<in> {FIRST_FORWARD, FORWARD_PACKET} \<and> get_choice_count m' = 0 \<and> \<not> get_violated m')"
proof -
  define d where "d = pk_conn q"
  define cs where "cs = now_conn_state (m_now m1) d"
  from injection_no_route[OF assms(1-11)] have c: "cs_executable cs = 2" "cs_candidates cs = Some []"
      "cs_proto_state cs = pk_proto_state q'" "cs_fwd_mode cs \<in> {FIRST_FORWARD, FORWARD_PACKET}"
    by (simp_all add: cs_def d_def Let_def)
  define M where "M = set_conn d m"
  have "cur M = cs" using assms(19) by (simp add: M_def cs_def d_def model_defs)
  then have g: "get_fwd_mode M \<in> {FIRST_FORWARD, FORWARD_PACKET}" "get_candidates M = Some []" "get_executable M = 2"
      "get_proto_state M = pk_proto_state q'"
    using c by (simp_all add: get_fwd_mode_def get_candidates_def get_executable_def get_proto_state_def)
  have h: "get_process_id M = PID_CHOOSE_CONN" "\<not> get_violated M" "get_conn M = d"
    using assms(14,16) by (simp_all add: M_def model_defs)
  have p: "process_step max_conns ops m = Inr (set_choice_count 0 M)"
    using assms(15,17,18,20) g(1,2) unfolding d_def[symmetric] M_def[symmetric]
    by (auto simp: process_step_def assms(14) choose_conn_exec_step_def Let_def d_def M_def)
  let ?M = "set_process_id PID_FORWARDING (set_choice_count 0 M)"
  have s: "check_to_switch_process (set_choice_count 0 M) = Inr ?M"
    using g(3) h(1) by (simp add: check_to_switch_process_def Let_def get_executable_def get_process_id_def
      set_choice_count_def upd_now_def cur_def)
  have f: "get_fwd_mode ?M = get_fwd_mode M" "get_choice_count ?M = 0" "\<not> get_violated ?M" "get_conn ?M = d"
      "get_proto_state ?M = pk_proto_state q'"
    using g h by (simp_all add: model_defs)
  have "check_reachability ns r ?M = ?M"
    using g(1) assms(12) by (auto simp: check_reachability_def Let_def f request_is_accepted_def packet_is_dropped_def)
  then have "exec_step max_conns ops (v, m) = Inr (v, ?M)"
    using p s assms(13) by (simp add: exec_step_def check_violation_def check_simple_def)
  then show ?thesis using f g(1) c
    by (auto simp: get_executable_for_conn_def get_fwd_mode_for_conn_def d_def[symmetric] cs_def[symmetric])
qed

text \<open>A middlebox that opens a connection of its own while it handles the packet of another: the
  model before the injection result is processed, the packet, and the later vector in which the
  connection of the injected packet has ended.\<close>

definition sample_open :: packet where
  "sample_open = mk_packet 14 0x0A000003 0x0A000002 5000 80 0 0 0x802"

definition sample_injected :: "unit model" where
  "sample_injected =
     sample_of_model\<lparr>m_net := (m_net sample_of_model)\<lparr>net_objs := (net_objs (m_net sample_of_model))\<lparr>
         intf_heap := [14 \<mapsto> sample_intf ''eth2'' 0x0A000004]\<rparr>\<rparr>,
       m_now := (m_now sample_of_model)\<lparr>now_conn_state := (\<lambda>_. sample_conn\<lparr>cs_fib := Some []\<rparr>)\<rparr>\<rparr>"

definition sample_later :: "unit model \<Rightarrow> unit model" where
  "sample_later m = set_process_id PID_CHOOSE_CONN (set_choice 0 (drop_packet m))"

definition sample_opened :: packet where "sample_opened = sample_open\<lparr>pk_is_new := True, pk_conn := 1, pk_proto_state := PS_TCP_INIT_1\<rparr>"


definition sample_mapped :: "unit model" where
  "sample_mapped = set_conn 0 (set_candidates [] (set_choice_count 0 (update_remaining 1 sample_opened
     (set_payload (pk_payload sample_opened) (set_ack (pk_ack sample_opened) (set_seq (pk_seq sample_opened)
     (set_dst_port (pk_dst_port sample_opened) (set_src_port (pk_src_port sample_opened) (set_dst_ip_ec 1
     (set_src_ip (pk_src_ip sample_opened) (set_proto_state (pk_proto_state sample_opened) (set_executable 2
       (set_conn 1 sample_injected)))))))))))))"

lemma sample_ids:
  "identify_conn 4 sample_open sample_injected = Inr (sample_open\<lparr>pk_is_new := True, pk_conn := 1\<rparr>)"
  "process_proto_state (sample_open\<lparr>pk_is_new := True, pk_conn := 1\<rparr>) sample_injected = Inr sample_opened"
  "check_seq_ack sample_opened sample_injected = Inr ()"
  "find_ec (pk_dst_ip sample_opened) (m_ecs sample_injected) = Inr 1"
  by code_simp+

lemma sample_mapped:
  "update_model_from_injection_result 4 1 \<lparr>recv_pkts = [sample_open], explicit_drop = False\<rparr> sample_injected =
    Inr (no_packet_received 1 False True sample_mapped)"
proof -
  let ?m = "set_payload (pk_payload sample_opened) (set_ack (pk_ack sample_opened) (set_seq (pk_seq sample_opened)
     (set_dst_port (pk_dst_port sample_opened) (set_src_port (pk_src_port sample_opened) (set_dst_ip_ec 1
     (set_src_ip (pk_src_ip sample_opened) (set_proto_state (pk_proto_state sample_opened) (set_executable 2
       (set_conn 1 sample_injected))))))))) :: unit model"
  have g: "m_ecs (set_src_ip a (set_proto_state b (set_executable 2 (set_conn 1 m)))) = m_ecs m" for a b and m :: "unit model" by (simp add: model_defs)
  have e: "get_dst_ip_ec (set_conn 1 sample_injected) = 1" by (simp add: sample_injected_def sample_conn_def model_defs)
  have m: "map_packet sample_opened (set_conn 1 sample_injected) = Inr ?m"
    unfolding map_packet_def Let_def g sample_ids bindR_Inr e by (simp add: model_defs)
  have "m_net (update_remaining 1 sample_opened ?m) = m_net sample_injected"
    by (simp add: update_remaining_effect model_defs)
  then have n: "set_next_hop 1 sample_opened (update_remaining 1 sample_opened ?m) =
      Inr (set_candidates [] (set_choice_count 0 (update_remaining 1 sample_opened ?m)))"
    unfolding set_next_hop_def Let_def intf_at_def node_at_def
    by (simp add: derefR_def sample_injected_def sample_of_model_def sample_opened_def candidates_add_def sample_intf_def sample_open_def mk_packet_def packet_init_def get_ipnh_def get_peer_def sample_switch_def)
  have k: "\<not> packet_empty sample_open" "pk_proto_state sample_opened \<noteq> PS_INVALID" "pk_conn sample_opened = 1" "get_conn sample_injected = 0"
    by (simp_all add: sample_opened_def sample_open_def mk_packet_def packet_init_def packet_empty_def sample_injected_def
      sample_of_model_def sample_now_def get_conn_def)
  have "process_recv_pkt 4 1 sample_open (sample_injected, False, False) = Inr (sample_mapped, False, True)"
    using k by (simp add: process_recv_pkt_def Let_def sample_ids m n sample_mapped_def del: One_nat_def)
  then show ?thesis by (simp add: update_model_from_injection_result_def)
qed

lemma sample_later_facts:
  defines "m \<equiv> sample_later (no_packet_received 1 False True sample_mapped)"
  shows "get_conn_map m = Inr [[], [], [1]]" "\<not> get_violated m" "get_conn m = 0"
    "print_conn_states (set_conn 1 m) = Inr (set_conn 1 m)"
proof -
  have n: "get_num_conns m = 2" "get_conn m = 0" "\<not> get_violated m" "m_ecs m = m_ecs sample_of_model"
      "m_net m = m_net sample_injected"
    by (simp_all add: m_def sample_later_def drop_packet_def no_packet_received_def sample_mapped_def update_remaining_def sample_opened_def
      sample_injected_def sample_of_model_def sample_now_def Let_def model_defs)
  have c: "now_conn_state (m_now m) 1 = (now_conn_state (m_now sample_mapped) 1)"
    by (simp add: m_def sample_later_def drop_packet_def no_packet_received_def sample_mapped_def Let_def model_defs)
  have c1: "cs_executable (now_conn_state (m_now m) 1) = 2" "cs_fwd_mode (now_conn_state (m_now m) 1) = FIRST_FORWARD"
     "cs_src_node (now_conn_state (m_now m) 1) = 1" "cs_pkt_location (now_conn_state (m_now m) 1) = 1" "cs_dst_ip_ec (now_conn_state (m_now m) 1) = 1"
     "cs_proto_state (now_conn_state (m_now m) 1) = 1"
    unfolding c by (simp_all add: sample_mapped_def update_remaining_def sample_opened_def Let_def model_defs sample_open_def mk_packet_def)
  have c0: "cs_executable (now_conn_state (m_now m) 0) = 0" "cs_fwd_mode (now_conn_state (m_now m) 0) = DROPPED"
     "cs_src_node (now_conn_state (m_now m) 0) = 1" "cs_pkt_location (now_conn_state (m_now m) 0) = 1" "cs_dst_ip_ec (now_conn_state (m_now m) 0) = 1"
    by (simp_all add: m_def sample_later_def drop_packet_def no_packet_received_def sample_mapped_def update_remaining_def sample_opened_def
      sample_injected_def sample_of_model_def sample_now_def sample_conn_def Let_def model_defs)
  show "get_conn_map m = Inr [[], [], [1]]"
    using c1 c0 n(1) by (simp add: get_conn_map_def Let_def upto.simps conn_finished_def get_executable_for_conn_def
      get_fwd_mode_for_conn_def get_proto_state_for_conn_def)
  show "print_conn_states (set_conn 1 m) = Inr (set_conn 1 m)"
  proof (rule print_conn_states_ok)
    fix c assume "0 \<le> c" "c < get_num_conns (set_conn 1 m)"
    then have "c = 0 \<or> c = 1" using n by (auto simp: model_defs)
    then show "conn_ptrs_ok (set_conn 1 m) (now_conn_state (m_now (set_conn 1 m)) c)"
      using c0 c1 n by (auto simp: conn_ptrs_ok_def model_defs node_at_def derefR_def sample_injected_def sample_of_model_def
        sample_model_def deref_ec_def)
  qed
qed (simp_all add: m_def sample_later_def drop_packet_def no_packet_received_def sample_mapped_def update_remaining_def sample_opened_def
      sample_injected_def sample_of_model_def sample_now_def Let_def model_defs)

theorem empty_candidates_end_path_witness:
  "\<exists>m1 m'. update_model_from_injection_result 4 1 \<lparr>recv_pkts = [sample_open], explicit_drop = False\<rparr> sample_injected = Inr m1
     \<and> get_executable_for_conn 1 m1 = 2
     \<and> exec_step 4 sample_ops (sample_invariant\<lparr>iv_kind := Reachability [2] True\<rparr>, sample_later m1)
       = Inr (sample_invariant\<lparr>iv_kind := Reachability [2] True\<rparr>, m')
     \<and> get_conn m' = 1 \<and> get_choice_count m' = 0 \<and> \<not> get_violated m'"
proof -
  let ?q = "sample_open\<lparr>pk_is_new := True, pk_conn := 1\<rparr>" and ?v = "sample_invariant\<lparr>iv_kind := Reachability [2] True\<rparr>"
  have h: "recv_pkts \<lparr>recv_pkts = [sample_open], explicit_drop = False\<rparr> = [sample_open]" "\<not> packet_empty sample_open"
      "pk_conn ?q \<noteq> get_conn sample_injected" "pk_proto_state sample_opened \<noteq> PS_INVALID"
      "node_at sample_injected 1 = Inr sample_switch"
      "intf_at sample_injected (pk_intf sample_open) = Inr (sample_intf ''eth2'' 0x0A000004)"
      "get_ipnh (net_objs (m_net sample_injected)) sample_switch (if_name (sample_intf ''eth2'' 0x0A000004))
        (pk_dst_ip sample_open) = Inr (FIB_IPNH 0 0 0 0)"
      "\<not> ps_req_ack_or_rep (pk_proto_state sample_opened)" "pk_conn ?q = 1" "l3_node (FIB_IPNH 0 0 0 0) = 0"
    by (simp_all add: sample_open_def sample_opened_def mk_packet_def packet_init_def packet_empty_def node_at_def
      intf_at_def derefR_def sample_injected_def sample_of_model_def sample_model_def sample_now_def get_conn_def
      ps_req_ack_or_rep_def ps_is_reply_def get_ipnh_def get_peer_def sample_switch_def sample_intf_def)
  let ?m1 = "no_packet_received 1 False True sample_mapped"
  have later: "get_process_id (sample_later m) = PID_CHOOSE_CONN" "get_choice (sample_later m) = 0" for m
    by (simp_all add: sample_later_def drop_packet_def model_defs)
  have same: "now_conn_state (m_now (sample_later ?m1)) 1 = now_conn_state (m_now ?m1) 1"
    using sample_later_facts(3) by (simp add: sample_later_def drop_packet_def model_defs)
  have k: "iv_kind ?v = Reachability [2] True" "[[], [], [1]] ! 2 = pk_conn ?q # []" by (simp_all add: h(9))
  from empty_candidates_end_path[OF sample_mapped h(1,2) sample_ids(1) h(3) sample_ids(2) h(4-7,10,8) k(1) later
      sample_later_facts(2,1) k(2), unfolded h(9), OF same sample_later_facts(4), of sample_ops] sample_mapped
  show ?thesis by blast
qed

section \<open>Correlated invariants\<close>

text \<open>C25. In the first round of combinations only the first of the invariants combined in a
  \<open>Conditional\<close> or \<open>Consistency\<close> invariant is given a connection: \<open>Invariant::set_conns\<close> returns
  after it, and the connections of the second are still the empty vector they were constructed
  with. When the exploration of this round turns to the second, it is initialised with no
  connection at all: the number of connections is zero, and the state of connection 0 is the one the
  check of the first has left.\<close>

theorem second_correlated_without_connection:
  assumes "iv_kind v = Conditional \<or> iv_kind v = Consistency"
    and "iv_correlated v = p # q # ps" "iv_conns q = []"
    and "set_conns_simple p = Inr (True, p')" "length (iv_conns p') = 1"
    and "set_conns v = Inr (found, v')"
    and "reinit (v', set_correlated_inv_idx 1 m) = Inr (v'', m')"
  shows "found \<and> iv_correlated v' = p' # q # ps \<and> get_num_conns m' = 0
    \<and> now_conn_state (m_now m') 0 = now_conn_state (m_now m) 0"
proof -
  have c: "found" "iv_correlated v' = p' # q # ps" "iv_kind v' = iv_kind v"
    using assms(2,4-6) by (auto simp: set_conns_def bindR_eq_Inr_iff)
  obtain m1 m2 where m1: "forwarding_init (set_correlated_inv_idx 1 m) = Inr m1"
    and i: "inv_reinit v' (openflow_init m1) = Inr m2" and m': "m' = control_state m2"
    using assms(7) by (auto simp: reinit_def bindR_eq_Inr_iff)
  obtain h where h: "m1 = set_pkt_hist h (set_correlated_inv_idx 1 m)"
    using m1 by (auto simp: forwarding_init_def bindR_eq_Inr_iff)
  have o: "get_correlated_inv_idx (openflow_init m1) = 1"
      "now_conn_state (m_now (openflow_init m1)) 0 = now_conn_state (m_now m) 0"
    by (simp_all add: h openflow_init_def model_defs)
  have "simple_init q (openflow_init m1) = Inr m2"
    using i assms(1) c(2,3) o(1)
    by (auto simp: inv_reinit_def conditional_reinit_def consistency_reinit_def combined_init_def
      correlated_at_def Let_def)
  then have "\<exists>m3. init_conns [] (openflow_init m1) = Inr m3 \<and> get_num_conns m2 = get_num_conns m3
      \<and> now_conn_state (m_now m2) = now_conn_state (m_now m3)"
    using assms(3) by (cases "iv_kind q") (auto simp: simple_init_def reachability_init_def
      reply_reachability_init_def waypoint_init_def one_request_init_def load_balance_init_def loop_init_def
      bindR_eq_Inr_iff set_violated_def set_reach_counts_def get_num_conns_def upd_now_def)
  moreover have "init_conns [] a = Inr b \<Longrightarrow> b = set_num_conns 0 (set_conn 0 a)" for a b :: "'a model"
    by (auto simp: init_conns_def dest: print_conn_states_id)
  ultimately have "get_num_conns m2 = 0 \<and> now_conn_state (m_now m2) 0 = now_conn_state (m_now m) 0"
    using o(2) by (fastforce simp: set_num_conns_def set_conn_def get_num_conns_def upd_now_def)
  then show ?thesis using c by (simp add: m' control_state_def model_defs)
qed

definition sample_part :: "connection list list \<Rightarrow> simple_inv" where
  "sample_part conns = \<lparr>iv_kind = Loop_inv, iv_conn_specs = [],
     iv_conn_matrix = fold matrix_add conns (matrix_clear conn_matrix_init), iv_conns = []\<rparr>"

definition sample_consistency :: invariant where
  "sample_consistency = sample_invariant\<lparr>iv_kind := Consistency, iv_conns := [],
     iv_correlated := [sample_part [[mk_connection 0 1 1 49152 80]], sample_part [[mk_connection 0 1 1 49152 81]]]\<rparr>"

theorem second_correlated_without_connection_witness:
  "\<exists>v' v'' m'. set_conns sample_consistency = Inr (True, v')
     \<and> reinit (v', set_correlated_inv_idx 1 sample_of_model) = Inr (v'', m') \<and> get_num_conns m' = 0"
proof -
  let ?p = "sample_part [[mk_connection 0 1 1 49152 80]]" and ?q = "sample_part [[mk_connection 0 1 1 49152 81]]"
  define cm where "cm = snd (projr (get_next_conns (iv_conn_matrix ?p)))"
  have cm: "get_next_conns (iv_conn_matrix ?p) = Inr ([mk_connection 0 1 1 49152 80], cm)"
    unfolding cm_def sample_part_def by code_simp
  define p' where "p' = ?p\<lparr>iv_conns := [mk_connection 0 1 1 49152 80], iv_conn_matrix := cm\<rparr>"
  have p: "set_conns_simple ?p = Inr (True, p')" unfolding set_conns_simple_def cm p'_def by simp
  have l: "length (iv_conns p') = 1" by (simp add: p'_def)
  have cor: "iv_correlated sample_consistency = ?p # ?q # []" "iv_conns ?q = []"
    by (simp_all add: sample_consistency_def sample_part_def)
  define v' where "v' = sample_consistency\<lparr>iv_correlated := [p', ?q]\<rparr>"
  have v': "set_conns sample_consistency = Inr (True, v')"
    using p l by (simp add: set_conns_def cor v'_def)
  have k: "iv_kind sample_consistency = Conditional \<or> iv_kind sample_consistency = Consistency"
    by (simp add: sample_consistency_def)
  let ?m = "set_correlated_inv_idx 1 sample_of_model"
  have "mk_pkt_hist (m_net ?m) = Inr Map.empty"
    by (simp add: mk_pkt_hist_def sample_of_model_def derefR_def is_emulated_def sample_switch_def
      set_correlated_inv_idx_def upd_now_def)
  then have f: "forwarding_init ?m = Inr (set_pkt_hist Map.empty ?m)" by (simp add: forwarding_init_def)
  define m1 where "m1 = openflow_init (set_pkt_hist Map.empty ?m)"
  have idx: "get_correlated_inv_idx m1 = 1" by (simp add: m1_def openflow_init_def model_defs)
  have pr: "print_conn_states (set_num_conns 0 (set_conn 0 m1)) = Inr (set_num_conns 0 (set_conn 0 m1))"
    by (rule print_conn_states_ok) (simp add: model_defs)
  have "simple_init ?q m1 = Inr (set_violated False (set_num_conns 0 (set_conn 0 m1)))"
    using pr by (simp add: sample_part_def simple_init_def loop_init_def init_conns_def)
  then have "inv_reinit v' m1 = Inr (set_violated False (set_num_conns 0 (set_conn 0 m1)))"
    by (simp add: inv_reinit_def v'_def sample_consistency_def consistency_reinit_def combined_init_def
      correlated_at_def idx)
  then have r: "reinit (v', ?m) = Inr (v', control_state (set_violated False (set_num_conns 0 (set_conn 0 m1))))"
    by (simp add: reinit_def f m1_def)
  from second_correlated_without_connection[OF k cor p l v' r] v' r show ?thesis by blast
qed

end
