(* ===== verification/Spec2Isabelle.thy ===== *)
theory Spec2Isabelle
  imports ConfigParser Emulation InitialEcs UniqueStorage Frames Verdicts
begin

text \<open>
  Neo, a verifier of network configurations with emulated middleboxes. The files named below are
  under \<open>src/src/\<close>.

  The program. \<open>ConfigParser\<close> reads a TOML file into a \<open>Network\<close> of nodes, links and
  middleboxes, a list of OpenFlow updates and a list of invariants. \<open>EqClassMgr\<close> cuts the
  address space into classes of addresses the network treats alike. For each invariant, \<open>Plankton\<close>
  initialises a state vector and hands it to the model checker SPIN, which calls back one step at
  a time: a process (\<open>choose_conn\<close>, \<open>forwarding\<close> or \<open>openflow\<close>) changes the vector, the
  driver may switch the process, and the invariant is checked. The number written to
  \<open>choice_count\<close> is the number of successors, 0 ends the path. The objects a vector points to
  live in \<open>UniqueStorage\<close>. A packet that reaches an emulated middlebox is injected into a
  container by an \<open>Emulation\<close>, which is first rewound to the packets this middlebox has seen on
  this path; what the container sends is read back as Ethernet frames, identified with a
  connection and continues in the model.

  Conventions. An operation returns \<open>exn + 'a\<close>: \<open>Runtime_error\<close> for a call of
  \<open>Logger::error\<close>, other constructors for \<open>at()\<close> out of range, a failed assertion, a null
  pointer, undefined behaviour and lack of fuel. Words have the width of the code, and arithmetic
  on them wraps; \<open>int\<close> of the code is \<open>int\<close>. Pointers to nodes, interfaces, classes and
  emulations are naturals in a heap (0 is null). Pointers to interned objects are the objects
  themselves, which \<open>UniqueStorage\<close> justifies: equal objects have one address.

  Theories, in the order of their imports:
  \<^item> \<open>Prelude\<close>, \<open>Containers\<close>: results; \<open>std::set\<close>, \<open>map\<close> and \<open>multiset\<close> as sorted lists, with the
    locales \<open>strict_ordered\<close> (an order on the objects that satisfy a predicate, such as ranges
    that do not overlap) and \<open>weak_ordered\<close>, interpreted for ranges, routes, links, connections
    and the linear orders of pointers and addresses.
  \<^item> \<open>Protocols\<close>: the protocol states of \<open>protocols.hpp\<close> and their order.
  \<^item> \<open>IPv4\<close>: \<open>lib/ip.hpp\<close>; addresses, prefixes, ranges; text and range round trips.
  \<^item> \<open>EqClasses\<close>: \<open>ecrange\<close>, \<open>eqclass\<close>, \<open>eqclassmgr\<close>. The manager is refined to a partition of
    sets of addresses: adding a range splits the classes it meets.
  \<^item> \<open>Routing\<close>: \<open>route\<close>, \<open>routingtable\<close>; insertion by administrative distance, and
    longest-prefix lookup over the sorted multiset.
  \<^item> \<open>Topology\<close>: \<open>interface\<close>, \<open>node\<close>, \<open>link\<close>, \<open>l2-lan\<close>, \<open>fib\<close>, \<open>network\<close>; the recursive search
    of next hops and the discovery of a LAN, both proved to return and to be complete.
  \<^item> \<open>Packets\<close>, \<open>StateModel\<close>, \<open>UniqueStorage\<close>: \<open>packet\<close>, \<open>payload\<close>, \<open>pkt-hist\<close>,
    \<open>injection-result\<close>; \<open>network.pml\<close> with \<open>model-access\<close>, \<open>candidates\<close>, \<open>choices\<close>,
    \<open>reachcounts\<close>; \<open>unique-storage\<close>, whose locale \<open>interning\<close> says that two stored objects
    have the same pointer exactly when they are equal, interpreted for the stored classes that
    satisfy the law; one class that does not is shown by an example.
  \<^item> \<open>Openflow\<close>: \<open>process/openflow\<close> and \<open>Model::update_fib\<close>.
  \<^item> \<open>InitialEcs\<close>: \<open>compute_initial_ecs\<close>; each initial class is forwarded alike at every node, the reason why one address of a class stands for all.
  \<^item> \<open>Connections\<close>, \<open>Received\<close>, \<open>Frames\<close>: \<open>conn\<close>, \<open>connspec\<close>, \<open>connmatrix\<close>; \<open>lib/net\<close>: the
    connection, protocol state and sequence numbers of a received packet, reassembly, and the
    bytes of a frame with their round trips.
  \<^item> \<open>Forwarding\<close>: \<open>process/forwarding\<close>; one definition per mode, each with the effect it has and
    the frame of fields it leaves alone.
  \<^item> \<open>Emulation\<close>: \<open>droptimeout\<close>, \<open>emulation\<close>, \<open>emulationmgr\<close>, \<open>middlebox\<close>. A step of the
    search rewinds one emulation to a history; the lemmas show that rewinding gives the same
    container as replaying the history from a reset, and that the pool keeps at most one emulation
    for each middlebox, filed under its history. The locale \<open>claiming_middleboxes\<close> is what injection relies on.
  \<^item> \<open>Invariants\<close>, \<open>Plankton\<close>: \<open>invariant/*\<close>; \<open>process/choose_conn\<close>, the driver, the loop of
    \<open>verify_invariant\<close> over the combinations of connections (each of which a child process
    explores), and the exploration \<open>explores\<close>: a set of reached vectors and the data outside them,
    one step from any reached vector with any choice below its count.
  \<^item> \<open>Safety\<close>, \<open>Verdicts\<close>: properties of every explored vector, for an invariant in any round of
    \<open>verify_invariant\<close> whose connections start at nodes that are no middleboxes; when a verdict
    is written and what it says.
  \<^item> \<open>ConfigParser\<close>: \<open>configparser\<close> over a data type of TOML documents; parsed invariants are
    well formed, which with the condition on the sources is what \<open>Safety\<close> asks for
    (\<open>parsed_verifiable\<close> below).

  Bounds and fuel. \<open>get_ipnhs_rec\<close> gets \<open>ipnhs_fuel\<close>, the length of the table plus 2: each
  recursion adds an address to the set of those seen, which are the destination and next hops of
  the table (proved in \<open>Topology\<close>). \<open>mk_l2_lan\<close> returns with any fuel above the number of
  switch ports; the parser gives it the number of objects plus 1. The
  waits of one injection are a finite schedule of events, on which \<open>receive\<close> recurses. The bound
  on connections (\<open>MAX_CONNS\<close>) is an argument.

  Parameters, for what is not in the repository or is outside the model: \<open>emu_ops\<close>, the operations
  of middleboxes the forwarding process calls (\<open>middlebox_ops\<close> of \<open>Emulation\<close> is the
  instance of the program); \<open>driver_ops\<close>, the container; the functions of libnet; floating-point
  operations; the compiled regular expressions of the user, file contents and the Docker daemon
  (\<open>parse_env\<close>); the hash functions; the random draws; the iteration order of unordered
  containers; the addresses the allocator returns (\<open>alloc\<close>, with the hypothesis that they are
  fresh).

  Not modelled: the Docker driver and API, drop detection through netlink and eBPF, logging,
  statistics, the command line and the vendored hash (input and output without verification
  logic); the processes, signals and result files of \<open>Plankton\<close>; \<open>estimate_pkt_lat\<close>, a timing
  experiment on a container; thread delays and signal masks of an emulation, whose threads are the
  events of its listeners; the layout of the kernel's drop filter.
\<close>

section \<open>From the parser to the exploration\<close>

lemma parsed_verifiable:
  assumes "inv_ok n net v" "1 \<le> n" "plain_sources net (iv_conn_specs v)"
    and "\<And>p. p \<in> set (iv_correlated v) \<Longrightarrow> plain_sources net (iv_conn_specs p)"
  shows "verifiable (int n) net v"
  using assms by (auto simp: inv_ok_def verifiable_def correlated_ok_def split: if_splits)

end
